(* ===== verification/Pgvs3_Prelude.thy ===== *)
theory Pgvs3_Prelude
  imports Main "HOL-Library.Word"
begin

text \<open>
  What every component shares: bytes, the integer casts of the Rust source
  (\<open>as i32\<close>, \<open>as i64\<close>, \<open>to_be_bytes\<close>), slicing of a byte sequence into pieces of a
  fixed size, and the collections of simplification rules the component
  theories add to.
\<close>

named_theorems cast_simps "casts between machine integers that are the identity in range"
named_theorems piece_simps "lists cut into pieces of a fixed size"
named_theorems row_defs "definitions of the row records and of the table operations"

type_synonym byte = "8 word"
type_synonym bytes = "byte list"

section \<open>Machine integers\<close>

text \<open>
  An \<open>i32\<close> or \<open>i64\<close> is an \<open>int\<close> in its range; a cast keeps the low bits and reads
  them as two's complement, as Rust's \<open>as\<close> does.
\<close>

definition as_i32 :: "int \<Rightarrow> int" where
  "as_i32 x = signed_take_bit 31 x"

definition as_i64 :: "int \<Rightarrow> int" where
  "as_i64 x = signed_take_bit 63 x"

lemma as_i32_id [cast_simps]: "- (2 ^ 31) \<le> x \<Longrightarrow> x < 2 ^ 31 \<Longrightarrow> as_i32 x = x"
  by (simp add: as_i32_def signed_take_bit_int_eq_self)

lemma as_i64_id [cast_simps]: "- (2 ^ 63) \<le> x \<Longrightarrow> x < 2 ^ 63 \<Longrightarrow> as_i64 x = x"
  by (simp add: as_i64_def signed_take_bit_int_eq_self)

lemma as_i32_of_nat [cast_simps]: "n < 2 ^ 31 \<Longrightarrow> as_i32 (int n) = int n"
  by (rule as_i32_id) auto

lemma as_i64_wrap:
  assumes "2 ^ 63 \<le> x" and "x < 2 ^ 64"
  shows "as_i64 x = x - 2 ^ 64"
proof -
  have "(x + 2 ^ 63) mod 2 ^ 64 = (x - 2 ^ 63 + 2 ^ 64) mod 2 ^ 64"
    by (simp add: add.commute)
  also have "\<dots> = x - 2 ^ 63"
    using assms by (simp only: mod_add_self2) simp
  finally show ?thesis
    by (simp add: as_i64_def signed_take_bit_eq_take_bit_shift take_bit_eq_mod)
qed

text \<open>
  Big-endian bytes of a signed integer (\<open>to_be_bytes\<close>) and the value an unsigned
  big-endian field holds.
\<close>

fun be_bytes :: "nat \<Rightarrow> int \<Rightarrow> bytes" where
  "be_bytes 0 x = []"
| "be_bytes (Suc n) x = word_of_int (x div 256 ^ n) # be_bytes n x"

fun be_val :: "bytes \<Rightarrow> int" where
  "be_val [] = 0"
| "be_val (b # bs) = uint b * 256 ^ length bs + be_val bs"

lemma length_be_bytes [simp]: "length (be_bytes n x) = n"
  by (induction n) auto

lemma be_val_be_bytes [simp]: "be_val (be_bytes n x) = x mod 256 ^ n"
proof (induction n)
  case 0
  then show ?case by simp
next
  case (Suc n)
  have "uint (word_of_int (x div 256 ^ n) :: byte) = (x div 256 ^ n) mod 256"
    by (simp add: uint_word_of_int)
  then have "be_val (be_bytes (Suc n) x) = (x div 256 ^ n) mod 256 * 256 ^ n + x mod 256 ^ n"
    by (simp add: Suc)
  also have "\<dots> = x mod (256 ^ n * 256)"
    by (simp add: zmod_zmult2_eq)
  finally show ?case by (simp add: mult.commute)
qed

section \<open>Sequences cut into pieces of a fixed size\<close>

text \<open>Rust's \<open>usize::div_ceil\<close>.\<close>

definition div_ceil :: "nat \<Rightarrow> nat \<Rightarrow> nat" where
  "div_ceil a b = (a + b - 1) div b"

lemma div_ceil_0 [simp]: "0 < b \<Longrightarrow> div_ceil 0 b = 0"
  by (simp add: div_ceil_def)

lemma div_ceil_step: "0 < b \<Longrightarrow> b \<le> a \<Longrightarrow> div_ceil a b = Suc (div_ceil (a - b) b)"
  by (simp add: div_ceil_def le_div_geq)

lemma div_ceil_small: "0 < a \<Longrightarrow> a \<le> b \<Longrightarrow> div_ceil a b = 1"
  by (simp add: div_ceil_def div_nat_eqI)

lemma div_ceil_bounds:
  assumes "0 < b"
  shows "a \<le> div_ceil a b * b" and "0 < a \<Longrightarrow> (div_ceil a b - 1) * b < a"
proof -
  have e: "(a + b - 1) div b * b + (a + b - 1) mod b = a + b - 1" by simp
  have m: "(a + b - 1) mod b < b" using assms by simp
  show "a \<le> div_ceil a b * b"
    using e m assms unfolding div_ceil_def by linarith
  show "(div_ceil a b - 1) * b < a" if "0 < a"
  proof -
    have "(div_ceil a b - 1) * b = div_ceil a b * b - b" by (simp add: diff_mult_distrib)
    then show ?thesis using e that assms unfolding div_ceil_def by linarith
  qed
qed

lemma div_ceil_mult: "0 < b \<Longrightarrow> div_ceil (k * b) b = k"
  by (induction k) (simp_all add: div_ceil_step)

lemma less_div_ceil: "0 < b \<Longrightarrow> i < div_ceil a b \<longleftrightarrow> i * b < a"
proof
  assume b: "0 < b" and i: "i < div_ceil a b"
  then have "0 < a" by (cases a) auto
  have "i * b \<le> (div_ceil a b - 1) * b" using i by (intro mult_le_mono1) simp
  also have "\<dots> < a" by (rule div_ceil_bounds(2) [OF b \<open>0 < a\<close>])
  finally show "i * b < a" .
next
  assume b: "0 < b" and i: "i * b < a"
  from i div_ceil_bounds(1) [OF b] have "i * b < div_ceil a b * b" by (rule less_le_trans)
  then show "i < div_ceil a b" by simp
qed

text \<open>The pieces of at most \<open>n\<close> elements that \<open>slice::chunks(n)\<close> yields.\<close>

fun pieces :: "nat \<Rightarrow> 'a list \<Rightarrow> 'a list list" where
  "pieces n xs = (if n = 0 \<or> xs = [] then [] else take n xs # pieces n (drop n xs))"

declare pieces.simps [simp del]

lemma pieces_Nil [simp]: "pieces n [] = []"
  by (simp add: pieces.simps)

lemma pieces_step: "0 < n \<Longrightarrow> xs \<noteq> [] \<Longrightarrow> pieces n xs = take n xs # pieces n (drop n xs)"
  by (subst pieces.simps) simp

lemma pieces_whole: "0 < n \<Longrightarrow> length xs = n \<Longrightarrow> pieces n (xs @ ys) = xs # pieces n ys"
  by (subst pieces_step) auto

lemma concat_pieces [piece_simps]: "0 < n \<Longrightarrow> concat (pieces n xs) = xs"
  by (induction n xs rule: pieces.induct) (subst pieces.simps, auto)

lemma length_pieces [piece_simps]: "0 < n \<Longrightarrow> length (pieces n xs) = div_ceil (length xs) n"
proof (induction n xs rule: pieces.induct)
  case (1 n xs)
  show ?case
  proof (cases "xs = []")
    case False
    with 1 show ?thesis
      by (cases "length xs \<le> n") (simp_all add: pieces_step div_ceil_small div_ceil_step Suc_leI)
  qed (use 1 in simp)
qed

lemma nth_pieces [piece_simps]:
  "0 < n \<Longrightarrow> i < div_ceil (length xs) n \<Longrightarrow> pieces n xs ! i = take n (drop (i * n) xs)"
proof (induction n xs arbitrary: i rule: pieces.induct)
  case (1 n xs)
  then have ne: "xs \<noteq> []" by auto
  show ?case
  proof (cases i)
    case 0
    with ne 1 show ?thesis by (simp add: pieces_step)
  next
    case (Suc j)
    then have "j * n < length (drop n xs)"
      using 1 by (simp add: less_div_ceil algebra_simps less_diff_conv)
    with 1 Suc ne show ?thesis
      by (simp add: pieces_step less_div_ceil add.commute)
  qed
qed

lemma pieces_conv_map:
  "0 < n \<Longrightarrow> pieces n xs = map (\<lambda>i. take n (drop (i * n) xs)) [0..<div_ceil (length xs) n]"
  by (rule nth_equalityI) (simp_all add: length_pieces nth_pieces)

lemma pieces_append:
  "0 < n \<Longrightarrow> length xs = k * n \<Longrightarrow> pieces n (xs @ ys) = pieces n xs @ pieces n ys"
proof (induction k arbitrary: xs)
  case (Suc k)
  then have "pieces n (xs @ ys) = take n xs # pieces n (drop n xs @ ys)"
    by (subst pieces_step) auto
  moreover have "pieces n xs = take n xs # pieces n (drop n xs)"
    using Suc.prems by (intro pieces_step) auto
  ultimately show ?case using Suc by simp
qed simp

lemma length_piece:
  assumes "0 < n" and "p \<in> set (pieces n xs)"
  shows "0 < length p" and "length p \<le> n"
proof -
  obtain i where i: "i < div_ceil (length xs) n" "p = take n (drop (i * n) xs)"
    using assms by (auto simp: pieces_conv_map)
  then have "i * n < length xs" using assms by (simp add: less_div_ceil)
  with i assms(1) show "0 < length p" and "length p \<le> n" by auto
qed

section \<open>Rows found by a key\<close>

text \<open>A table with a unique key: the row a query finds is the one row with that key.\<close>

lemma find_unique:
  assumes "distinct (map key xs)" and "\<And>x. P x \<longleftrightarrow> key x = k"
  shows "List.find P xs = Some x \<longleftrightarrow> x \<in> set xs \<and> key x = k"
  using assms(1) by (induction xs) (auto simp: assms(2))

lemma map_prod_id: "map_prod f id x = (a, y) \<longleftrightarrow> (\<exists>r. x = (r, y) \<and> a = f r)"
  by (cases x) auto

lemma find_None: "List.find P xs = None \<longleftrightarrow> (\<forall>x \<in> set xs. \<not> P x)"
  by (induction xs) auto

lemma option_ext: "(\<And>x. a = Some x \<longleftrightarrow> b = Some x) \<Longrightarrow> a = b"
  by (cases a; cases b) auto

lemma find_same:
  assumes "distinct (map key xs)" and "distinct (map key ys)" and "\<And>x. P x \<longleftrightarrow> key x = k"
    and "\<And>x. key x = k \<Longrightarrow> x \<in> set xs \<longleftrightarrow> x \<in> set ys"
  shows "List.find P xs = List.find P ys"
  using assms by (intro option_ext) (auto simp: find_unique [OF assms(1,3)] find_unique [OF assms(2,3)])

lemma filter_split_unique:
  assumes "distinct (map key xs)" and "x \<in> set xs" and "\<And>y. P y \<longleftrightarrow> key y = key x"
  shows "\<exists>us vs. xs = us @ x # vs \<and> filter (\<lambda>y. \<not> P y) xs = us @ vs"
proof -
  obtain us vs where xs: "xs = us @ x # vs" using assms(2) by (meson split_list)
  with assms(1) have "key x \<notin> key ` set us" "key x \<notin> key ` set vs" by simp_all
  then have "filter (\<lambda>y. \<not> P y) us = us" "filter (\<lambda>y. \<not> P y) vs = vs"
    by (metis (mono_tags, lifting) assms(3) filter_id_conv imageI)+
  then show ?thesis by (intro exI [of _ us] exI [of _ vs]) (simp add: xs assms(3))
qed

section \<open>Systems of steps\<close>

text \<open>
  A system whose steps keep an invariant keeps it along every run; if each step
  also does what an abstract system allows, every run is an abstract run.
\<close>

locale invariant_system =
  fixes step :: "'s \<Rightarrow> 's \<Rightarrow> bool"
    and ok :: "'s \<Rightarrow> bool"
  assumes step_ok: "step s s' \<Longrightarrow> ok s \<Longrightarrow> ok s'"
begin

lemma run_ok: "step\<^sup>*\<^sup>* s s' \<Longrightarrow> ok s \<Longrightarrow> ok s'"
  by (induction rule: rtranclp_induct) (auto intro: step_ok)

end

locale simulated_system = invariant_system step ok
  for step :: "'s \<Rightarrow> 's \<Rightarrow> bool" and ok :: "'s \<Rightarrow> bool" +
  fixes abs :: "'s \<Rightarrow> 'a"
    and a_step :: "'a \<Rightarrow> 'a \<Rightarrow> bool"
  assumes step_sim: "step s s' \<Longrightarrow> ok s \<Longrightarrow> a_step (abs s) (abs s')"
begin

lemma run_sim: "step\<^sup>*\<^sup>* s s' \<Longrightarrow> ok s \<Longrightarrow> a_step\<^sup>*\<^sup>* (abs s) (abs s')"
  by (induction rule: rtranclp_induct) (auto intro: rtranclp.rtrancl_into_rtrancl step_sim run_ok)

end

text \<open>
  Systems whose steps carry the operation and its answer as a label: a run is a list of labels, and
  the simulation keeps the labels.
\<close>

fun run_of :: "('l \<Rightarrow> 's \<Rightarrow> 's \<Rightarrow> bool) \<Rightarrow> 'l list \<Rightarrow> 's \<Rightarrow> 's \<Rightarrow> bool" where
  "run_of step [] s s' \<longleftrightarrow> s' = s"
| "run_of step (l # ls) s s' \<longleftrightarrow> (\<exists>t. step l s t \<and> run_of step ls t s')"

lemma run_of_functional:
  assumes "\<And>l s t t'. step l s t \<Longrightarrow> step l s t' \<Longrightarrow> t = t'"
  shows "run_of step ls s t \<Longrightarrow> run_of step ls s t' \<Longrightarrow> t = t'"
proof (induction ls arbitrary: s)
  case (Cons l ls)
  then obtain u u' where "step l s u" "run_of step ls u t" "step l s u'" "run_of step ls u' t'" by auto
  with assms Cons.IH show ?case by metis
qed simp

locale labelled_simulation =
  fixes step :: "'l \<Rightarrow> 's \<Rightarrow> 's \<Rightarrow> bool" and ok :: "'s \<Rightarrow> bool"
    and abs :: "'s \<Rightarrow> 'a" and a_step :: "'l \<Rightarrow> 'a \<Rightarrow> 'a \<Rightarrow> bool"
  assumes label_ok: "step l s s' \<Longrightarrow> ok s \<Longrightarrow> ok s'"
    and label_sim: "step l s s' \<Longrightarrow> ok s \<Longrightarrow> a_step l (abs s) (abs s')"
begin

lemma labels_sim: "run_of step ls s s' \<Longrightarrow> ok s \<Longrightarrow> run_of a_step ls (abs s) (abs s') \<and> ok s'"
  by (induction ls arbitrary: s) (auto intro: label_ok label_sim)

end

end
