(* ===== verification/Ingest.thy ===== *)
theory Ingest
  imports Pgvs3_Prelude
begin

text \<open>
  The write path's byte transform, \<^verbatim>\<open>src/ingest.rs\<close>: request bytes become rows of
  8120 bytes in the stream of one binary \<^verbatim>\<open>COPY\<close>. The framer is a record with the
  fields of \<^verbatim>\<open>RowFramer\<close>; the SHA-256 of the \<^verbatim>\<open>sha2\<close> crate is the argument \<open>sha\<close>
  of the functions that use it, and an unfinished hasher is the bytes it has
  been fed. \<open>copy_parse\<close> is what the \<^verbatim>\<open>COPY\<close> statement reads from such a stream.
\<close>

section \<open>Constants and framing\<close>

definition ROW_BYTES :: nat where
  "ROW_BYTES = 8120"

definition SEND_BATCH :: nat where
  "SEND_BATCH = 4 * 2 ^ 20"

definition COPY_HEADER :: bytes where
  "COPY_HEADER = [0x50, 0x47, 0x43, 0x4F, 0x50, 0x59, 0x0A, 0xFF, 0x0D, 0x0A, 0x00] @ replicate 8 0"

definition COPY_TRAILER :: bytes where
  "COPY_TRAILER = [0xFF, 0xFF]"

lemma ROW_BYTES_pos [simp]: "0 < ROW_BYTES" "ROW_BYTES \<noteq> 0"
  by (simp_all add: ROW_BYTES_def)

text \<open>One tuple: the field count, then each field's length and bytes.\<close>

definition frame_row :: "int \<Rightarrow> int \<Rightarrow> bytes \<Rightarrow> bytes" where
  "frame_row file_id no data =
     be_bytes 2 3 @ be_bytes 4 8 @ be_bytes 8 file_id @ be_bytes 4 4 @ be_bytes 4 no @
     be_bytes 4 (as_i32 (int (length data))) @ data"

definition frame_rows :: "int \<Rightarrow> int \<Rightarrow> bytes \<Rightarrow> bytes \<Rightarrow> bytes" where
  "frame_rows file_id first_no data out =
     (let nrows = div_ceil (length data) ROW_BYTES
      in foldl (\<lambda>out i.
           let start = i * ROW_BYTES;
               end' = min ((i + 1) * ROW_BYTES) (length data)
           in out @ frame_row file_id (as_i32 (first_no + int i))
                      (take (end' - start) (drop start data)))
         out [0..<nrows])"

section \<open>The framer\<close>

record framer =
  fr_file_id :: int
  fr_hasher :: bytes
  fr_pending :: bytes
  fr_frame :: bytes
  fr_next_no :: int
  fr_total :: int

definition framer_new :: "int \<Rightarrow> framer" where
  "framer_new file_id = \<lparr>fr_file_id = file_id, fr_hasher = [], fr_pending = [],
     fr_frame = [], fr_next_no = 0, fr_total = 0\<rparr>"

definition framer_push :: "framer \<Rightarrow> bytes \<Rightarrow> bytes option \<times> framer" where
  "framer_push f chunk =
     (let pending = fr_pending f @ chunk;
          f1 = f\<lparr>fr_hasher := fr_hasher f @ chunk,
                 fr_total := fr_total f + int (length chunk),
                 fr_pending := pending\<rparr>;
          whole = length pending - length pending mod ROW_BYTES
      in if whole = 0 then (None, f1)
         else
           let frame = frame_rows (fr_file_id f1) (fr_next_no f1) (take whole pending) (fr_frame f1);
               f2 = f1\<lparr>fr_next_no := as_i32 (fr_next_no f1 + as_i32 (int (whole div ROW_BYTES))),
                       fr_pending := drop whole pending\<rparr>
           in if SEND_BATCH \<le> length frame then (Some frame, f2\<lparr>fr_frame := []\<rparr>)
              else (None, f2\<lparr>fr_frame := frame\<rparr>))"

definition framer_finish :: "(bytes \<Rightarrow> bytes) \<Rightarrow> framer \<Rightarrow> bytes \<times> (int \<times> bytes)" where
  "framer_finish sha f =
     (let frame = (if fr_pending f \<noteq> []
                   then frame_rows (fr_file_id f) (fr_next_no f) (fr_pending f) (fr_frame f)
                   else fr_frame f)
      in (frame @ COPY_TRAILER, (fr_total f, sha (fr_hasher f))))"

section \<open>The writer's loop\<close>

datatype ingest_msg = Data bytes | Abort

text \<open>
  The receive loop of \<^verbatim>\<open>ingest_writer\<close>: the buffers sent to the sink and the framer
  when the channel closes, or None after an \<open>Abort\<close>.
\<close>

fun ingest_loop :: "framer \<Rightarrow> ingest_msg list \<Rightarrow> (bytes list \<times> framer) option" where
  "ingest_loop f [] = Some ([], f)"
| "ingest_loop f (Data b # ms) =
     (case framer_push f b of (sent, f') \<Rightarrow>
        map_option (\<lambda>(bufs, f''). (case sent of None \<Rightarrow> bufs | Some buf \<Rightarrow> buf # bufs, f''))
          (ingest_loop f' ms))"
| "ingest_loop f (Abort # ms) = None"

text \<open>Everything sent to the COPY sink, with the size and the digest of the bytes.\<close>

definition ingest_stream :: "(bytes \<Rightarrow> bytes) \<Rightarrow> int \<Rightarrow> ingest_msg list \<Rightarrow> (bytes \<times> int \<times> bytes) option" where
  "ingest_stream sha file_id msgs =
     (case ingest_loop (framer_new file_id) msgs of
        None \<Rightarrow> None
      | Some (bufs, f) \<Rightarrow>
          (case framer_finish sha f of (last', (tot, digest)) \<Rightarrow>
             Some (concat (COPY_HEADER # bufs @ [last']), tot, digest)))"

section \<open>Reference: the rows of a byte string\<close>

fun frame_list :: "int \<Rightarrow> int \<Rightarrow> bytes list \<Rightarrow> bytes" where
  "frame_list file_id n [] = []"
| "frame_list file_id n (r # rs) = frame_row file_id (as_i32 n) r @ frame_list file_id (n + 1) rs"

lemma as_i32_add [simp]: "as_i32 (as_i32 a + b) = as_i32 (a + b)" "as_i32 (a + as_i32 b) = as_i32 (a + b)"
  by (metis as_i32_def signed_take_bit_add signed_take_bit_signed_take_bit min.idem)+

lemma as_i32_idem [simp]: "as_i32 (as_i32 a) = as_i32 a"
  by (simp add: as_i32_def)

lemma as_i32_0 [simp]: "as_i32 0 = 0"
  by (simp add: as_i32_def)

lemma frame_list_append:
  "frame_list fid n (xs @ ys) = frame_list fid n xs @ frame_list fid (n + int (length xs)) ys"
  by (induction xs arbitrary: n) (simp_all add: ac_simps)

lemma frame_list_as_i32: "frame_list fid (as_i32 n) rs = frame_list fid n rs"
proof (induction rs arbitrary: n)
  case (Cons r rs)
  have "frame_list fid (as_i32 n + 1) rs = frame_list fid (n + 1) rs"
    by (metis Cons.IH as_i32_add(1))
  then show ?case by simp
qed simp

lemma frame_list_conv_concat:
  "frame_list fid n rs = concat (map (\<lambda>i. frame_row fid (as_i32 (n + int i)) (rs ! i)) [0..<length rs])"
  by (induction rs rule: rev_induct)
    (auto simp: frame_list_append nth_append intro!: arg_cong [where f = concat])

lemma foldl_append_concat: "foldl (\<lambda>out i. out @ g i) out is = out @ concat (map g is)"
  by (induction "is" arbitrary: out) simp_all

lemma frame_rows_eq:
  "frame_rows fid n data out = out @ frame_list fid n (pieces ROW_BYTES data)"
proof -
  have "take (min ((i + 1) * ROW_BYTES) (length data) - i * ROW_BYTES) (drop (i * ROW_BYTES) data)
        = take ROW_BYTES (drop (i * ROW_BYTES) data)" for i
    by (simp add: min_def)
  then have "frame_rows fid n data out =
      out @ concat (map (\<lambda>i. frame_row fid (as_i32 (n + int i)) (take ROW_BYTES (drop (i * ROW_BYTES) data)))
        [0..<div_ceil (length data) ROW_BYTES])"
    by (simp only: frame_rows_def Let_def foldl_append_concat)
  then show ?thesis
    by (auto simp: frame_list_conv_concat piece_simps intro!: arg_cong [where f = concat])
qed

section \<open>The framer's invariant\<close>

text \<open>
  After any pushes of \<open>data\<close> in all: the rows completed so far are framed, in
  what was sent followed by what is still buffered, and less than one row is
  pending.
\<close>

definition framer_rep :: "int \<Rightarrow> bytes \<Rightarrow> bytes \<Rightarrow> framer \<Rightarrow> bool" where
  "framer_rep file_id data sent f \<longleftrightarrow>
     (let k = length data div ROW_BYTES in
      fr_file_id f = file_id \<and> fr_hasher f = data \<and> fr_total f = int (length data) \<and>
      fr_pending f = drop (k * ROW_BYTES) data \<and> fr_next_no f = as_i32 (int k) \<and>
      sent @ fr_frame f = frame_list file_id 0 (pieces ROW_BYTES (take (k * ROW_BYTES) data)))"

lemma framer_rep_new: "framer_rep fid [] [] (framer_new fid)"
  by (simp add: framer_rep_def framer_new_def)

lemma whole_rows:
  fixes a b :: nat
  assumes "0 < r" and "b = a div r" and "a \<le> c"
  shows "(c - b * r) - (c - b * r) mod r = (c div r - b) * r"
proof -
  have le: "b * r \<le> c" using assms by (metis div_times_less_eq_dividend le_trans)
  have "(c - b * r) mod r = c mod r"
    using le by (metis le_add_diff_inverse mod_mult_self2 mult.commute add.commute)
  moreover have "c = c div r * r + c mod r" by simp
  ultimately have "(c - b * r) - (c - b * r) mod r = c div r * r - b * r" by linarith
  then show ?thesis by (simp add: diff_mult_distrib)
qed

text \<open>What a push cuts off: the whole rows of the pending bytes and the chunk.\<close>

lemma push_split:
  fixes data chunk :: bytes
  defines "k \<equiv> length data div ROW_BYTES" and "k' \<equiv> length (data @ chunk) div ROW_BYTES"
    and "pending \<equiv> drop (length data div ROW_BYTES * ROW_BYTES) (data @ chunk)"
  defines "whole \<equiv> length pending - length pending mod ROW_BYTES"
  shows "k \<le> k'" and "whole = (k' - k) * ROW_BYTES"
    and "take (k' * ROW_BYTES) (data @ chunk) = take (k * ROW_BYTES) data @ take whole pending"
    and "drop whole pending = drop (k' * ROW_BYTES) (data @ chunk)"
proof -
  have kle: "k * ROW_BYTES \<le> length data" by (simp add: k_def)
  show kk': "k \<le> k'" by (simp add: k_def k'_def div_le_mono)
  show whole: "whole = (k' - k) * ROW_BYTES"
    unfolding whole_def pending_def k'_def k_def length_drop
    by (rule whole_rows [where a = "length data"]) simp_all
  have e: "k' * ROW_BYTES = k * ROW_BYTES + whole"
    using kk' by (simp add: whole flip: add_mult_distrib)
  show "take (k' * ROW_BYTES) (data @ chunk) = take (k * ROW_BYTES) data @ take whole pending"
    unfolding e take_add using kle by (simp add: pending_def k_def)
  show "drop whole pending = drop (k' * ROW_BYTES) (data @ chunk)"
    unfolding e pending_def k_def by (simp only: drop_drop add.commute)
qed

lemma frame_rows_append:
  assumes "sent @ frame = frame_list fid 0 (pieces ROW_BYTES xs)" and len: "length xs = k * ROW_BYTES"
  shows "sent @ frame_rows fid (as_i32 (int k)) ys frame = frame_list fid 0 (pieces ROW_BYTES (xs @ ys))"
proof -
  have "sent @ frame_rows fid (as_i32 (int k)) ys frame =
      frame_list fid 0 (pieces ROW_BYTES xs) @ frame_list fid (int k) (pieces ROW_BYTES ys)"
    by (simp add: frame_rows_eq frame_list_as_i32 assms(1) [symmetric])
  then show ?thesis
    unfolding pieces_append [OF ROW_BYTES_pos(1) len]
    by (simp only: frame_list_append length_pieces ROW_BYTES_pos len div_ceil_mult) simp
qed

lemma framer_push_fields:
  assumes push: "framer_push f chunk = (out, f')"
  defines "pending \<equiv> fr_pending f @ chunk"
  defines "whole \<equiv> length pending - length pending mod ROW_BYTES"
  shows "fr_file_id f' = fr_file_id f" and "fr_hasher f' = fr_hasher f @ chunk"
    and "fr_total f' = fr_total f + int (length chunk)" and "fr_pending f' = drop whole pending"
    and "fr_next_no f' = (if whole = 0 then fr_next_no f
      else as_i32 (fr_next_no f + as_i32 (int (whole div ROW_BYTES))))"
    and "(case out of None \<Rightarrow> [] | Some b \<Rightarrow> b) @ fr_frame f' =
      frame_rows (fr_file_id f) (fr_next_no f) (take whole pending) (fr_frame f)"
  using push
  by (auto simp: framer_push_def Let_def pending_def [symmetric] whole_def [symmetric] frame_rows_eq
      simp del: diff_is_0_eq diff_is_0_eq' split: if_splits)

lemma framer_push_rep:
  assumes rep: "framer_rep fid data sent f" and push: "framer_push f chunk = (out, f')"
  shows "framer_rep fid (data @ chunk) (sent @ (case out of None \<Rightarrow> [] | Some b \<Rightarrow> b)) f'"
proof -
  define k where "k = length data div ROW_BYTES"
  define k' where "k' = length (data @ chunk) div ROW_BYTES"
  define pending where "pending = drop (k * ROW_BYTES) (data @ chunk)"
  define whole where "whole = length pending - length pending mod ROW_BYTES"
  have kle: "k * ROW_BYTES \<le> length data" by (simp add: k_def)
  note split = push_split [of data chunk, folded k_def k'_def, folded pending_def, folded whole_def]
  have fr: "fr_file_id f = fid" "fr_hasher f = data" "fr_total f = int (length data)"
    "fr_next_no f = as_i32 (int k)" "fr_pending f @ chunk = pending"
    "sent @ fr_frame f = frame_list fid 0 (pieces ROW_BYTES (take (k * ROW_BYTES) data))"
    using rep kle by (simp_all add: framer_rep_def k_def Let_def pending_def)
  note f' = framer_push_fields [OF push, unfolded fr(1-5), folded whole_def]
  have "sent @ frame_rows fid (as_i32 (int k)) (take whole pending) (fr_frame f) =
      frame_list fid 0 (pieces ROW_BYTES (take (k' * ROW_BYTES) (data @ chunk)))"
    unfolding split(3) by (rule frame_rows_append [OF fr(6)]) (use kle in simp)
  then have "(sent @ (case out of None \<Rightarrow> [] | Some b \<Rightarrow> b)) @ fr_frame f' =
      frame_list fid 0 (pieces ROW_BYTES (take (k' * ROW_BYTES) (data @ chunk)))"
    by (simp only: append_assoc f'(6))
  moreover have "fr_next_no f' = as_i32 (int k')"
    using split(1) by (auto simp: f'(5) split(2))
  moreover have "fr_total f' = int (length (data @ chunk))" using f'(3) by simp
  ultimately show ?thesis
    using f'(1,2,4) split(4) by (simp only: framer_rep_def Let_def k'_def [symmetric] simp_thms)
qed

lemma framer_finish_rep:
  assumes rep: "framer_rep fid data sent f"
  shows "framer_finish sha f = (out, res) \<Longrightarrow>
    sent @ out = frame_list fid 0 (pieces ROW_BYTES data) @ COPY_TRAILER \<and>
    res = (int (length data), sha data)"
proof -
  define k where "k = length data div ROW_BYTES"
  have kle: "k * ROW_BYTES \<le> length data" by (simp add: k_def)
  then have len: "length (take (k * ROW_BYTES) data) = k * ROW_BYTES" by simp
  have split: "frame_list fid 0 (pieces ROW_BYTES data)
      = frame_list fid 0 (pieces ROW_BYTES (take (k * ROW_BYTES) data))
        @ frame_list fid (int k) (pieces ROW_BYTES (drop (k * ROW_BYTES) data))"
    using pieces_append [OF ROW_BYTES_pos(1) len, of "drop (k * ROW_BYTES) data"]
    by (simp only: append_take_drop_id frame_list_append length_pieces ROW_BYTES_pos len div_ceil_mult) simp
  have fr: "fr_file_id f = fid" "fr_hasher f = data" "fr_total f = int (length data)"
    "fr_next_no f = as_i32 (int k)" "fr_pending f = drop (k * ROW_BYTES) data"
    and sent: "frame_list fid 0 (pieces ROW_BYTES (take (k * ROW_BYTES) data)) = sent @ fr_frame f"
    using rep by (simp_all add: framer_rep_def k_def Let_def)
  assume "framer_finish sha f = (out, res)"
  then have "res = (int (length data), sha data)"
    and "out = (if fr_pending f \<noteq> []
                then frame_rows fid (as_i32 (int k)) (drop (k * ROW_BYTES) data) (fr_frame f)
                else fr_frame f) @ COPY_TRAILER"
    by (simp_all only: framer_finish_def Let_def fr prod.inject)
  then show ?thesis
    unfolding split sent by (simp add: fr(5) frame_rows_eq frame_list_as_i32)
qed

lemma ingest_loop_rep:
  assumes "framer_rep fid data sent f" and "ingest_loop f (map Data cs) = Some (bufs, f')"
  shows "framer_rep fid (data @ concat cs) (sent @ concat bufs) f'"
  using assms
proof (induction cs arbitrary: data sent f bufs)
  case (Cons c cs)
  obtain out f1 where push: "framer_push f c = (out, f1)" by fastforce
  with Cons.prems obtain bufs1 where
    "ingest_loop f1 (map Data cs) = Some (bufs1, f')"
    and "bufs = (case out of None \<Rightarrow> bufs1 | Some b \<Rightarrow> b # bufs1)"
    by auto
  with Cons.IH [OF framer_push_rep [OF Cons.prems(1) push]] show ?case
    by (cases out) simp_all
qed simp

lemma ingest_loop_total: "\<exists>bufs f'. ingest_loop f (map Data cs) = Some (bufs, f')"
  by (induction cs arbitrary: f) (auto split: prod.splits, metis)

lemma ingest_loop_Abort: "Abort \<in> set msgs \<Longrightarrow> ingest_loop f msgs = None"
  by (induction f msgs rule: ingest_loop.induct) (auto split: prod.splits)

section \<open>What COPY reads from the stream\<close>

text \<open>
  PostgreSQL's binary COPY format, as \<^verbatim>\<open>COPY_SQL\<close> names it for the three columns
  of \<^verbatim>\<open>s3p.chunks\<close>: after the header, tuples of a field count and length-prefixed
  fields, until a field count of -1. A stream that breaks the format is an error
  (None), which aborts the transaction.
\<close>

definition take_field :: "nat \<Rightarrow> bytes \<Rightarrow> (int \<times> bytes) option" where
  "take_field n bs = (if length bs < n then None else Some (be_val (take n bs), drop n bs))"

partial_function (option) copy_tuples :: "bytes \<Rightarrow> (int \<times> int \<times> bytes) list option" where
  "copy_tuples bs =
     Option.bind (take_field 2 bs) (\<lambda>(count, bs1).
     if count = 0xFFFF then (if bs1 = [] then Some [] else None)
     else if count \<noteq> 3 then None else
     Option.bind (take_field 4 bs1) (\<lambda>(len1, bs2). if len1 \<noteq> 8 then None else
     Option.bind (take_field 8 bs2) (\<lambda>(file_id, bs3).
     Option.bind (take_field 4 bs3) (\<lambda>(len2, bs4). if len2 \<noteq> 4 then None else
     Option.bind (take_field 4 bs4) (\<lambda>(no, bs5).
     Option.bind (take_field 4 bs5) (\<lambda>(len3, bs6).
     if int (length bs6) < len3 then None else
     Option.bind (copy_tuples (drop (nat len3) bs6)) (\<lambda>rows.
       Some ((as_i64 file_id, as_i32 no, take (nat len3) bs6) # rows))))))))"

definition copy_parse :: "bytes \<Rightarrow> (int \<times> int \<times> bytes) list option" where
  "copy_parse bs =
     (if take (length COPY_HEADER) bs = COPY_HEADER
      then copy_tuples (drop (length COPY_HEADER) bs) else None)"

lemma take_field_be [simp]: "take_field n (be_bytes n x @ bs) = Some (x mod 256 ^ n, bs)"
  by (simp add: take_field_def)

lemma copy_tuples_trailer: "copy_tuples COPY_TRAILER = Some []"
  by (subst copy_tuples.simps) (simp add: COPY_TRAILER_def take_field_def)

lemma as_i64_mod: "- (2 ^ 63) \<le> x \<Longrightarrow> x < 2 ^ 63 \<Longrightarrow> as_i64 (x mod 18446744073709551616) = x"
  using signed_take_bit_take_bit [of 63 64 x]
  by (simp add: as_i64_def take_bit_eq_mod signed_take_bit_int_eq_self)

lemma as_i32_mod: "as_i32 (x mod 4294967296) = as_i32 x"
  using signed_take_bit_take_bit [of 31 32 x]
  by (simp add: as_i32_def take_bit_eq_mod)

lemma copy_tuples_frame_row:
  assumes "- (2 ^ 63) \<le> fid" "fid < 2 ^ 63" and "length data < 2 ^ 31"
  shows "copy_tuples (frame_row fid no data @ rest) =
    map_option (Cons (fid, as_i32 no, data)) (copy_tuples rest)"
proof -
  have len: "as_i32 (int (length data)) mod 4294967296 = int (length data)"
    using assms(3) by (simp add: cast_simps)
  show ?thesis
    by (subst copy_tuples.simps)
      (simp add: frame_row_def len as_i32_mod as_i64_mod [OF assms(1,2)] map_option_case
        split: option.splits)
qed

lemma copy_tuples_frame_list:
  assumes "- (2 ^ 63) \<le> fid" "fid < 2 ^ 63" and "\<forall>r \<in> set rs. length r < 2 ^ 31"
  shows "copy_tuples (frame_list fid n rs @ COPY_TRAILER) =
    Some (map (\<lambda>i. (fid, as_i32 (n + int i), rs ! i)) [0..<length rs])"
  using assms(3)
proof (induction rs arbitrary: n)
  case Nil
  then show ?case by (simp add: copy_tuples_trailer)
next
  case (Cons r rs)
  have "map (\<lambda>i. (fid, as_i32 (n + int i), (r # rs) ! i)) [0..<length (r # rs)]
      = (fid, as_i32 n, r) # map (\<lambda>i. (fid, as_i32 (n + 1 + int i), rs ! i)) [0..<length rs]"
    by (simp add: map_upt_Suc ac_simps del: upt_Suc)
  with Cons show ?case
    by (simp add: copy_tuples_frame_row [OF assms(1,2)] del: upt_Suc)
qed

text \<open>
  The rows the stream of \<open>data\<close> inserts. Row numbers are \<open>int4\<close>, and both the
  framer and the reader step past the last one, so a file has fewer than
  \<open>2 ^ 31\<close> rows (about 17 TB).
\<close>

definition file_rows :: "int \<Rightarrow> bytes \<Rightarrow> (int \<times> int \<times> bytes) list" where
  "file_rows file_id data =
     map (\<lambda>i. (file_id, int i, pieces ROW_BYTES data ! i)) [0..<length (pieces ROW_BYTES data)]"

definition fits_file :: "bytes \<Rightarrow> bool" where
  "fits_file data \<longleftrightarrow> length data \<le> (2 ^ 31 - 1) * ROW_BYTES"

lemma fits_file_row_count:
  assumes "fits_file data" and "i < length (pieces ROW_BYTES data)"
  shows "int i < 2 ^ 31 - 1"
proof -
  have "i * ROW_BYTES < length data" using assms(2) by (simp add: length_pieces less_div_ceil)
  also have "\<dots> \<le> (2 ^ 31 - 1) * ROW_BYTES" using assms(1) by (simp only: fits_file_def)
  finally have "i < 2 ^ 31 - 1" by (simp only: mult_less_cancel2)
  then show ?thesis by simp
qed

lemma fits_file_rows:
  "fits_file data \<Longrightarrow> i < length (pieces ROW_BYTES data) \<Longrightarrow> as_i32 (int i) = int i"
  using fits_file_row_count [of data i] by (simp add: cast_simps)

section \<open>Properties of the write path\<close>

lemma ingest_stream_framed:
  "ingest_stream sha fid (map Data cs) =
     Some (COPY_HEADER @ frame_list fid 0 (pieces ROW_BYTES (concat cs)) @ COPY_TRAILER,
           int (length (concat cs)), sha (concat cs))"
proof -
  obtain bufs f where loop: "ingest_loop (framer_new fid) (map Data cs) = Some (bufs, f)"
    using ingest_loop_total by blast
  have rep: "framer_rep fid (concat cs) (concat bufs) f"
    using ingest_loop_rep [OF framer_rep_new loop] by simp
  obtain out res where fin: "framer_finish sha f = (out, res)"
    by (cases "framer_finish sha f") auto
  from framer_finish_rep [OF rep fin] show ?thesis
    by (auto simp: ingest_stream_def loop fin)
qed

text \<open>
  C15. However the request body is cut into chunks, the writer sends the COPY
  sink one header, the whole body framed as consecutive rows of 8120 bytes
  (the last one shorter), and one trailer, and reports the body's length and
  digest.
\<close>

theorem ingest_stream_chunking:
  "ingest_stream sha fid (map Data cs) =
     Some (COPY_HEADER @ frame_list fid 0 (pieces ROW_BYTES (concat cs)) @ COPY_TRAILER,
           int (length (concat cs)), sha (concat cs))"
  by (rule ingest_stream_framed)

lemma copy_parse_framed:
  assumes "- (2 ^ 63) \<le> fid" and "fid < 2 ^ 63" and "fits_file data"
  shows "copy_parse (COPY_HEADER @ frame_list fid 0 (pieces ROW_BYTES data) @ COPY_TRAILER) =
    Some (file_rows fid data)"
proof -
  have len: "\<forall>r \<in> set (pieces ROW_BYTES data). length r < 2 ^ 31"
    using length_piece(2) [OF ROW_BYTES_pos(1)] by (force simp: ROW_BYTES_def)
  show ?thesis
    using assms(3)
    by (auto simp: copy_parse_def file_rows_def fits_file_rows copy_tuples_frame_list [OF assms(1,2) len])
qed

text \<open>
  C16. The stream the writer sends is one the COPY statement accepts, and the
  rows it inserts are exactly the body cut into rows, numbered from 0 under
  the file's id.
\<close>

theorem copy_reads_back_rows:
  assumes "- (2 ^ 63) \<le> fid" and "fid < 2 ^ 63" and "fits_file (concat cs)"
  shows "(case ingest_stream sha fid (map Data cs) of
            None \<Rightarrow> None | Some (stream, _) \<Rightarrow> copy_parse stream) =
         Some (file_rows fid (concat cs))"
  by (simp add: ingest_stream_framed copy_parse_framed [OF assms])

theorem copy_reads_back_rows_witness:
  "(case ingest_stream (\<lambda>b. b) 7 (map Data [[1, 2], [3]]) of
      None \<Rightarrow> None | Some (stream, _) \<Rightarrow> copy_parse stream) = Some [(7, 0, [1, 2, 3])]"
  using copy_reads_back_rows [of 7 "[[1, 2], [3]]" "\<lambda>b. b"]
  by (simp add: fits_file_def file_rows_def pieces.simps ROW_BYTES_def)

text \<open>An aborted ingest never finishes its stream: no row of it is ever committed.\<close>

theorem aborted_ingest_sends_no_trailer:
  "ingest_stream sha fid (ms @ Abort # ms') = None"
  by (simp add: ingest_stream_def ingest_loop_Abort)

end
