(* ===== verification/Ranges.thy ===== *)
theory Ranges
  imports Ingest
begin

text \<open>
  From a request's byte range to the rows it needs: the metadata of an object
  and its segments (\<^verbatim>\<open>src/cache.rs\<close>), the effective range and the plan of row
  queries (\<^verbatim>\<open>src/db.rs\<close>), the Range header (\<^verbatim>\<open>src/server.rs\<close>). \<open>window\<close> is the reference:
  the bytes of a sequence that lie in \<open>[start, end]\<close>.
\<close>

section \<open>Metadata and segments\<close>

record meta =
  m_size :: int
  m_etag :: bytes
  m_created :: int
  m_file_id :: int
  m_parts :: "int list option"
  m_part_ends :: "int list option"

text \<open>The \<open>map\<close> over the zipped ids and ends, with the running \<open>prev\<close>.\<close>

fun segment_scan :: "int \<Rightarrow> (int \<times> int) list \<Rightarrow> (int \<times> int \<times> int) list" where
  "segment_scan prev [] = []"
| "segment_scan prev ((id', end') # rest) = (id', prev, end' - prev) # segment_scan end' rest"

definition segments :: "meta \<Rightarrow> (int \<times> int \<times> int) list" where
  "segments m =
     (case (m_parts m, m_part_ends m) of
        (Some ids, Some ends) \<Rightarrow>
          if length ids = length ends then segment_scan 0 (zip ids ends)
          else [(m_file_id m, 0, m_size m)]
      | _ \<Rightarrow> [(m_file_id m, 0, m_size m)])"

section \<open>The Range header and the effective range\<close>

text \<open>The \<^verbatim>\<open>s3s\<close> crate's parsed header holds \<open>u64\<close> positions.\<close>

datatype byte_range = RangeInt "64 word" "64 word option" | RangeSuffix "64 word"

fun range_params :: "byte_range option \<Rightarrow> int \<times> int \<times> int" where
  "range_params None = (0, -1, -1)"
| "range_params (Some (RangeInt first last')) =
     (sint first, (case last' of Some v \<Rightarrow> sint v | None \<Rightarrow> -1), -1)"
| "range_params (Some (RangeSuffix len)) = (0, -1, sint len)"

definition eff_range :: "int \<Rightarrow> int \<Rightarrow> int \<Rightarrow> int \<Rightarrow> int \<times> int" where
  "eff_range size' first last' suffix' =
     (if suffix' \<ge> 0 then (max (size' - suffix') 0, size' - 1)
      else (max first 0, if last' \<ge> 0 then min last' (size' - 1) else size' - 1))"

section \<open>The plan of row queries\<close>

record piece =
  p_file_id :: int
  p_base :: int
  p_lo :: int
  p_hi :: int

definition SMALL_MAX :: nat where
  "SMALL_MAX = 8 * 2 ^ 20"

definition PART_ROWS :: nat where
  "PART_ROWS = SMALL_MAX div ROW_BYTES + 2"

definition I32_MAX :: int where
  "I32_MAX = 2 ^ 31 - 1"

definition saturating_add_i32 :: "int \<Rightarrow> int \<Rightarrow> int" where
  "saturating_add_i32 a b = max (- (2 ^ 31)) (min I32_MAX (a + b))"

function step_by :: "int \<Rightarrow> int \<Rightarrow> int \<Rightarrow> int list" where
  "step_by lo hi step = (if lo \<le> hi \<and> 0 < step then lo # step_by (lo + step) hi step else [])"
  by pat_completeness auto
termination
  by (relation "measure (\<lambda>(lo, hi, step). nat (hi + 1 - lo))") auto

declare step_by.simps [simp del]

definition part_ranges :: "int \<Rightarrow> int \<Rightarrow> nat \<Rightarrow> (int \<times> int) list" where
  "part_ranges first_row last_row step =
     (let step = max 1 (min (int step) I32_MAX)
      in map (\<lambda>lo. (lo, min (saturating_add_i32 lo (as_i32 step - 1)) last_row))
           (step_by first_row last_row step))"

definition plan :: "meta \<Rightarrow> int \<Rightarrow> int \<Rightarrow> nat \<Rightarrow> piece list" where
  "plan m start end' step =
     concat (map (\<lambda>(file_id, base, len).
       if len \<le> 0 \<or> base + len - 1 < start \<or> base > end' then []
       else
         let lo = as_i32 ((max start base - base) div int ROW_BYTES);
             hi = as_i32 ((min end' (base + len - 1) - base) div int ROW_BYTES)
         in map (\<lambda>(lo, hi). \<lparr>p_file_id = file_id, p_base = base, p_lo = lo, p_hi = hi\<rparr>)
              (part_ranges lo hi step)) (segments m))"

definition row_slice :: "int \<Rightarrow> int \<Rightarrow> bytes \<Rightarrow> int \<Rightarrow> int \<Rightarrow> bytes option" where
  "row_slice base no data start end' =
     (let row_start = base + no * int ROW_BYTES;
          lo = max start row_start - row_start;
          hi = min end' (row_start + int (length data) - 1) - row_start
      in if hi \<ge> lo then Some (take (nat hi + 1 - nat lo) (drop (nat lo) data)) else None)"

section \<open>Reference: the bytes in a range\<close>

text \<open>\<open>window s e b xs\<close>: the elements of \<open>xs\<close>, which starts at position \<open>b\<close>, that lie in \<open>[s, e]\<close>.\<close>

fun window :: "int \<Rightarrow> int \<Rightarrow> int \<Rightarrow> 'a list \<Rightarrow> 'a list" where
  "window s e b [] = []"
| "window s e b (x # xs) = (if s \<le> b \<and> b \<le> e then [x] else []) @ window s e (b + 1) xs"

lemma window_append: "window s e b (xs @ ys) = window s e b xs @ window s e (b + int (length xs)) ys"
  by (induction xs arbitrary: b) (simp_all add: ac_simps)

lemma window_eq: "window s e b xs = take (nat (e + 1 - max s b)) (drop (nat (s - b)) xs)"
proof (induction xs arbitrary: b)
  case (Cons x xs)
  show ?case
  proof (cases "s \<le> b")
    case True
    show ?thesis
    proof (cases "b \<le> e")
      case True
      then have "nat (e + 1 - b) = Suc (nat (e - b))" by simp
      then show ?thesis using \<open>s \<le> b\<close> True by (simp add: Cons.IH)
    next
      case False
      then show ?thesis using \<open>s \<le> b\<close> by (simp add: Cons.IH)
    qed
  next
    case False
    then have "nat (s - b) = Suc (nat (s - (b + 1)))" by simp
    moreover have "max s b = max s (b + 1)" using False by simp
    ultimately show ?thesis using False by (simp add: Cons.IH)
  qed
qed simp

lemma window_outside: "e < b \<or> b + int (length xs) \<le> s \<Longrightarrow> window s e b xs = []"
  by (auto simp: window_eq)

lemma window_whole: "s \<le> b \<Longrightarrow> b + int (length xs) \<le> e + 1 \<Longrightarrow> window s e b xs = xs"
  by (auto simp: window_eq max_def)

lemma length_window:
  "length (window s e b xs) = nat (min (e + 1) (b + int (length xs)) - max s b)"
  by (auto simp: window_eq min_def max_def nat_diff_distrib split: if_splits)

lemma row_slice_window:
  "(case row_slice base no data start end' of None \<Rightarrow> [] | Some bs \<Rightarrow> bs) =
    window start end' (base + no * int ROW_BYTES) data"
proof -
  define r where "r = base + no * int ROW_BYTES"
  have "take (nat (min end' (r + int (length data) - 1) - r) + 1 - nat (max start r - r))
          (drop (nat (max start r - r)) data)
        = take (nat (end' + 1 - max start r)) (drop (nat (start - r)) data)"
    if "max start r - r \<le> min end' (r + int (length data) - 1) - r"
  proof -
    have d: "nat (max start r - r) = nat (start - r)" by (simp add: max_def)
    show ?thesis
    proof (cases "end' \<le> r + int (length data) - 1")
      case True
      then have "nat (min end' (r + int (length data) - 1) - r) + 1 - nat (max start r - r)
          = nat (end' + 1 - max start r)"
        using that by (simp add: min_def max_def nat_diff_distrib split: if_splits)
      then show ?thesis by (simp only: d)
    next
      case False
      with that show ?thesis by (simp add: d min_def max_def split: if_splits)
    qed
  qed
  moreover have "window start end' r data = []"
    if "\<not> max start r - r \<le> min end' (r + int (length data) - 1) - r"
    using that by (auto simp: window_eq min_def max_def split: if_splits)
  ultimately show ?thesis
    unfolding row_slice_def r_def [symmetric] Let_def by (auto simp: window_eq)
qed

section \<open>The row ranges of a segment\<close>

lemma step_by_cover:
  assumes "0 < step" and "- (2 ^ 31) \<le> lo" and "hi \<le> I32_MAX" and "step \<le> I32_MAX"
  shows "concat (map (\<lambda>l. [l..min (saturating_add_i32 l (step - 1)) hi]) (step_by lo hi step)) = [lo..hi]"
  using assms
proof (induction lo hi step rule: step_by.induct)
  case (1 lo hi step)
  show ?case
  proof (cases "lo \<le> hi")
    case True
    define top where "top = min (saturating_add_i32 lo (step - 1)) hi"
    have top: "top = min (lo + step - 1) hi"
      using 1 True by (simp add: top_def saturating_add_i32_def I32_MAX_def)
    have "[lo..hi] = [lo..top] @ [lo + step..hi]"
    proof (cases "lo + step - 1 \<le> hi")
      case True
      then show ?thesis using 1 upto_split2 [of lo "lo + step - 1" hi] by (simp add: top)
    next
      case False
      then show ?thesis by (simp add: top)
    qed
    moreover have "concat (map (\<lambda>l. [l..min (saturating_add_i32 l (step - 1)) hi])
        (step_by (lo + step) hi step)) = [lo + step..hi]"
      using 1 True by simp
    ultimately show ?thesis
      using True 1 by (subst step_by.simps) (simp add: top_def)
  next
    case False
    then show ?thesis by (subst step_by.simps) simp
  qed
qed

lemma step_by_bounds: "l \<in> set (step_by lo hi step) \<Longrightarrow> lo \<le> l \<and> l \<le> hi"
  by (induction lo hi step rule: step_by.induct)
    (subst (asm) (2) step_by.simps, auto split: if_splits)

lemma part_ranges_clamped:
  "part_ranges lo hi step =
     map (\<lambda>l. (l, min (saturating_add_i32 l (max 1 (min (int step) I32_MAX) - 1)) hi))
       (step_by lo hi (max 1 (min (int step) I32_MAX)))"
proof -
  have "as_i32 (max 1 (min (int step) I32_MAX)) = max 1 (min (int step) I32_MAX)"
    by (rule as_i32_id) (auto simp: I32_MAX_def)
  then show ?thesis by (simp add: part_ranges_def Let_def)
qed

lemma part_ranges_cover:
  "- (2 ^ 31) \<le> lo \<Longrightarrow> hi \<le> I32_MAX \<Longrightarrow>
    concat (map (\<lambda>(l, h). [l..h]) (part_ranges lo hi step)) = [lo..hi]"
  using step_by_cover [of "max 1 (min (int step) I32_MAX)" lo hi]
  by (simp add: part_ranges_clamped I32_MAX_def comp_def)

lemma part_ranges_bounds:
  assumes "(l, h) \<in> set (part_ranges lo hi step)" and "- (2 ^ 31) \<le> lo" and "hi \<le> I32_MAX"
  shows "lo \<le> l \<and> l \<le> h \<and> h \<le> hi \<and> h - l + 1 \<le> max 1 (int step)"
proof -
  have "l \<in> set (step_by lo hi (max 1 (min (int step) I32_MAX)))"
    and h: "h = min (saturating_add_i32 l (max 1 (min (int step) I32_MAX) - 1)) hi"
    using assms(1) by (auto simp: part_ranges_clamped)
  then have "lo \<le> l" "l \<le> hi" using step_by_bounds by auto
  then show ?thesis
    using assms(2,3) by (auto simp: h saturating_add_i32_def I32_MAX_def)
qed

section \<open>The rows of a segment, cut to a range\<close>

text \<open>\<open>content f\<close> is the byte string stored as file \<open>f\<close>; \<open>row_of content f no\<close> is its row \<open>no\<close>.\<close>

definition row_of :: "(int \<Rightarrow> bytes) \<Rightarrow> int \<Rightarrow> int \<Rightarrow> bytes" where
  "row_of content file_id no = pieces ROW_BYTES (content file_id) ! nat no"

definition row_count :: "bytes \<Rightarrow> int" where
  "row_count data = int (length (pieces ROW_BYTES data))"

definition window_rows :: "(int \<Rightarrow> bytes) \<Rightarrow> int \<Rightarrow> int \<Rightarrow> int \<Rightarrow> int \<Rightarrow> int list \<Rightarrow> bytes" where
  "window_rows content s e file_id base nos =
     concat (map (\<lambda>no. window s e (base + no * int ROW_BYTES) (row_of content file_id no)) nos)"

lemma window_rows_append:
  "window_rows content s e f base (xs @ ys) = window_rows content s e f base xs @ window_rows content s e f base ys"
  by (simp add: window_rows_def)

lemma window_pieces:
  "concat (map (\<lambda>i. window s e (base + int i * int ROW_BYTES) (pieces ROW_BYTES data ! i))
      [0..<length (pieces ROW_BYTES data)]) = window s e base data"
proof (induction "length data" arbitrary: base data rule: less_induct)
  case less
  show ?case
  proof (cases "data = []")
    case False
    then have p: "pieces ROW_BYTES data = take ROW_BYTES data # pieces ROW_BYTES (drop ROW_BYTES data)"
      by (simp add: pieces_step)
    have IH: "concat (map (\<lambda>i. window s e (base + int ROW_BYTES + int i * int ROW_BYTES)
            (pieces ROW_BYTES (drop ROW_BYTES data) ! i))
          [0..<length (pieces ROW_BYTES (drop ROW_BYTES data))])
        = window s e (base + int ROW_BYTES) (drop ROW_BYTES data)"
      using False by (intro less) simp
    have "window s e base data = window s e base (take ROW_BYTES data @ drop ROW_BYTES data)" by simp
    also have "\<dots> = window s e base (take ROW_BYTES data) @ window s e (base + int ROW_BYTES) (drop ROW_BYTES data)"
      by (cases "ROW_BYTES \<le> length data") (simp_all add: window_append del: append_take_drop_id)
    finally show ?thesis
      by (simp add: p map_upt_Suc IH [symmetric] algebra_simps del: upt_Suc)
  qed simp
qed

lemma window_rows_all: "window_rows content s e f base [0..row_count (content f) - 1] = window s e base (content f)"
proof -
  define n where "n = length (pieces ROW_BYTES (content f))"
  have "[0..int n - 1] = map int [0..<n]"
    by (induction n) (simp_all add: upto_rec2)
  then show ?thesis
    using window_pieces [of s e base "content f"]
    by (simp add: window_rows_def row_count_def row_of_def n_def [symmetric] comp_def)
qed

lemma row_of_length:
  assumes "0 \<le> no" and "no < row_count (content f)"
  shows "int (length (row_of content f no)) \<le> int ROW_BYTES"
    and "no * int ROW_BYTES < int (length (content f))"
proof -
  have i: "nat no < length (pieces ROW_BYTES (content f))" using assms by (simp add: row_count_def)
  then have "row_of content f no \<in> set (pieces ROW_BYTES (content f))" by (simp add: row_of_def)
  then show "int (length (row_of content f no)) \<le> int ROW_BYTES"
    using length_piece(2) [OF ROW_BYTES_pos(1)] by simp
  have "nat no * ROW_BYTES < length (content f)" using i by (simp add: length_pieces less_div_ceil)
  then have "int (nat no * ROW_BYTES) < int (length (content f))" by (simp only: of_nat_less_iff)
  then show "no * int ROW_BYTES < int (length (content f))" using assms(1) by simp
qed

lemma window_rows_Nil:
  "(\<And>no. no \<in> set nos \<Longrightarrow> window s e (base + no * int ROW_BYTES) (row_of content f no) = []) \<Longrightarrow>
    window_rows content s e f base nos = []"
  by (simp add: window_rows_def)

text \<open>The first and last row of a segment that the range touches, as \<open>plan\<close> computes them.\<close>

definition row_lo :: "int \<Rightarrow> int \<Rightarrow> int" where
  "row_lo base start = as_i32 ((max start base - base) div int ROW_BYTES)"

definition row_hi :: "int \<Rightarrow> int \<Rightarrow> int \<Rightarrow> int" where
  "row_hi base len end' = as_i32 ((min end' (base + len - 1) - base) div int ROW_BYTES)"

lemma div_row_bounds:
  assumes "0 \<le> x" and "x < int (length data)" and "fits_file data"
  shows "0 \<le> x div int ROW_BYTES" "x div int ROW_BYTES < row_count data"
    "as_i32 (x div int ROW_BYTES) = x div int ROW_BYTES"
proof -
  have "nat x div ROW_BYTES * ROW_BYTES \<le> nat x" by simp
  also have "nat x < length data" using assms by simp
  finally have i: "nat x div ROW_BYTES < length (pieces ROW_BYTES data)"
    by (simp add: length_pieces less_div_ceil)
  have e: "x div int ROW_BYTES = int (nat x div ROW_BYTES)"
    using assms(1) by (simp add: zdiv_int)
  show "0 \<le> x div int ROW_BYTES" "x div int ROW_BYTES < row_count data"
    using i by (simp_all add: e row_count_def)
  show "as_i32 (x div int ROW_BYTES) = x div int ROW_BYTES"
    unfolding e by (rule fits_file_rows [OF assms(3) i])
qed

text \<open>The rows before the first and behind the last one hold nothing of the window.\<close>

lemma window_before:
  assumes x: "x = max start base - base" and inside: "x div int ROW_BYTES < row_count (content f)"
  shows "window_rows content start end' f base [0..x div int ROW_BYTES - 1] = []"
proof (rule window_rows_Nil, rule window_outside, rule disjI2)
  let ?R = "int ROW_BYTES"
  fix no assume "no \<in> set [0..x div ?R - 1]"
  then have no: "0 \<le> no" "no + 1 \<le> x div ?R" by auto
  then have "(no + 1) * ?R \<le> x div ?R * ?R" by (intro mult_right_mono) auto
  also have "\<dots> \<le> x" using x by (simp add: minus_mod_eq_div_mult [symmetric])
  finally have b: "no * ?R + ?R \<le> x" by (simp add: algebra_simps)
  have "0 \<le> no * ?R" and "0 < ?R" using no by simp_all
  with b have "0 < x" by linarith
  moreover have "int (length (row_of content f no)) \<le> ?R"
    using row_of_length(1) [of no content f] no inside by simp
  ultimately show "base + no * ?R + int (length (row_of content f no)) \<le> start"
    using b by (auto simp: x max_def split: if_splits)
qed

lemma window_after:
  assumes y: "y = min end' (base + int (length (content f)) - 1) - base" and pos: "0 \<le> y"
  shows "window_rows content start end' f base [y div int ROW_BYTES + 1..row_count (content f) - 1] = []"
proof (rule window_rows_Nil, rule window_outside, rule disjI1)
  let ?R = "int ROW_BYTES"
  fix no assume "no \<in> set [y div ?R + 1..row_count (content f) - 1]"
  then have no: "y div ?R + 1 \<le> no" "no < row_count (content f)" by auto
  have "y = y div ?R * ?R + y mod ?R" "y mod ?R < ?R" by (simp_all only: div_mult_mod_eq, simp)
  then have "y < (y div ?R + 1) * ?R" unfolding distrib_right by linarith
  also have "\<dots> \<le> no * ?R" using no by (intro mult_right_mono) auto
  finally have "y < no * ?R" .
  moreover have "0 \<le> y div ?R" using pos by (simp add: pos_imp_zdiv_nonneg_iff)
  then have "no * ?R < int (length (content f))"
    using row_of_length(2) [of no content f] no by simp
  ultimately show "end' < base + no * ?R" by (auto simp: y min_def split: if_splits)
qed

lemma segment_rows:
  assumes len: "int (length (content f)) = len" and fits: "fits_file (content f)"
    and se: "start \<le> end'" and touch: "0 < len" "start \<le> base + len - 1" "base \<le> end'"
  shows "0 \<le> row_lo base start" "row_lo base start \<le> row_hi base len end'"
    "row_hi base len end' < row_count (content f)"
    "window_rows content start end' f base [row_lo base start..row_hi base len end'] =
       window start end' base (content f)"
proof -
  let ?R = "int ROW_BYTES"
  define x where "x = max start base - base"
  define y where "y = min end' (base + len - 1) - base"
  have xy: "0 \<le> x" "x \<le> y" "y < len" using se touch by (auto simp: x_def y_def)
  have lo: "row_lo base start = x div ?R" "0 \<le> x div ?R"
    using div_row_bounds [of x "content f"] xy len fits by (simp_all add: row_lo_def x_def)
  have hi: "row_hi base len end' = y div ?R" "y div ?R < row_count (content f)"
    using div_row_bounds [of y "content f"] xy len fits by (simp_all add: row_hi_def y_def)
  have le: "x div ?R \<le> y div ?R" using xy by (simp add: zdiv_mono1)
  show "0 \<le> row_lo base start" "row_lo base start \<le> row_hi base len end'"
    "row_hi base len end' < row_count (content f)"
    using lo hi le by simp_all
  note before = window_before [where end' = end', OF x_def, of content f] and after = window_after [of y end' base content f start]
  have "[0..row_count (content f) - 1] =
      [0..x div ?R - 1] @ [x div ?R..y div ?R] @ [y div ?R + 1..row_count (content f) - 1]"
    using lo hi le upto_split1 [of 0 "x div ?R" "row_count (content f) - 1"]
      upto_split2 [of "x div ?R" "y div ?R" "row_count (content f) - 1"] by simp
  then show "window_rows content start end' f base [row_lo base start..row_hi base len end'] =
      window start end' base (content f)"
    using window_rows_all [of content start end' f base]
    using before after hi lo le xy by (simp add: window_rows_append y_def len)
qed

section \<open>The plan covers the range\<close>

fun contiguous :: "int \<Rightarrow> (int \<times> int \<times> int) list \<Rightarrow> bool" where
  "contiguous b [] = True"
| "contiguous b ((f, base, len) # segs) = (base = b \<and> contiguous (b + len) segs)"

lemma contiguous_scan: "contiguous prev (segment_scan prev xs)"
  by (induction prev xs rule: segment_scan.induct) auto

lemma contiguous_segments: "contiguous 0 (segments m)"
  by (auto simp: segments_def contiguous_scan split: option.splits)

text \<open>The bytes an object stands for, and the metadata that describes them.\<close>

definition object_bytes :: "(int \<Rightarrow> bytes) \<Rightarrow> meta \<Rightarrow> bytes" where
  "object_bytes content m = concat (map (\<lambda>(f, base, len). content f) (segments m))"

definition meta_ok :: "(int \<Rightarrow> bytes) \<Rightarrow> meta \<Rightarrow> bool" where
  "meta_ok content m \<longleftrightarrow>
     (\<forall>(f, base, len) \<in> set (segments m). int (length (content f)) = len \<and> fits_file (content f)) \<and>
     int (length (object_bytes content m)) = m_size m"

definition piece_bytes :: "(int \<Rightarrow> bytes) \<Rightarrow> int \<Rightarrow> int \<Rightarrow> piece \<Rightarrow> bytes" where
  "piece_bytes content start end' p =
     window_rows content start end' (p_file_id p) (p_base p) [p_lo p..p_hi p]"

definition plan_segment :: "int \<Rightarrow> int \<Rightarrow> nat \<Rightarrow> int \<times> int \<times> int \<Rightarrow> piece list" where
  "plan_segment start end' step = (\<lambda>(file_id, base, len).
     if len \<le> 0 \<or> base + len - 1 < start \<or> base > end' then []
     else map (\<lambda>(lo, hi). \<lparr>p_file_id = file_id, p_base = base, p_lo = lo, p_hi = hi\<rparr>)
            (part_ranges (row_lo base start) (row_hi base len end') step))"

lemma plan_conv: "plan m start end' step = concat (map (plan_segment start end' step) (segments m))"
  unfolding plan_def plan_segment_def row_lo_def row_hi_def Let_def ..

lemma window_rows_concat:
  "concat (map (\<lambda>x. window_rows content s e f base (g x)) xs) = window_rows content s e f base (concat (map g xs))"
  by (induction xs) (simp_all add: window_rows_def)

lemma row_count_le: "fits_file data \<Longrightarrow> row_count data \<le> I32_MAX"
  using fits_file_row_count [of data "length (pieces ROW_BYTES data) - 1"]
  by (cases "pieces ROW_BYTES data") (auto simp: row_count_def I32_MAX_def)

lemma plan_segment_bytes:
  assumes "int (length (content f)) = len" and "fits_file (content f)" and "start \<le> end'"
  shows "concat (map (piece_bytes content start end') (plan_segment start end' step (f, base, len))) =
    window start end' base (content f)"
proof (cases "len \<le> 0 \<or> base + len - 1 < start \<or> base > end'")
  case True
  then show ?thesis
    using assms(1)
    by (cases "content f = []") (auto simp: plan_segment_def intro!: window_outside [symmetric])
next
  case False
  note seg = segment_rows [of content f, OF assms, of base]
  have "row_hi base len end' \<le> I32_MAX" and "- (2 ^ 31) \<le> row_lo base start"
    using seg(1,3) row_count_le [OF assms(2)] False by auto
  then have "concat (map (\<lambda>(l, h). [l..h]) (part_ranges (row_lo base start) (row_hi base len end') step))
      = [row_lo base start..row_hi base len end']"
    by (intro part_ranges_cover)
  then show ?thesis
    using False seg(4)
    by (simp add: plan_segment_def piece_bytes_def comp_def case_prod_unfold window_rows_concat)
qed

lemma plan_segments_bytes:
  assumes "\<forall>(f, base, len) \<in> set segs. int (length (content f)) = len \<and> fits_file (content f)"
    and "start \<le> end'" and "contiguous b segs"
  shows "concat (map (piece_bytes content start end') (concat (map (plan_segment start end' step) segs))) =
    window start end' b (concat (map (\<lambda>(f, base, len). content f) segs))"
  using assms(1,3)
proof (induction segs arbitrary: b)
  case (Cons seg segs)
  obtain f base len where seg: "seg = (f, base, len)" by (cases seg)
  with Cons.prems have "int (length (content f)) = len" "fits_file (content f)" "base = b"
    and "contiguous (b + len) segs" by auto
  with Cons plan_segment_bytes [of content f, OF this(1,2) assms(2), of step b] show ?case
    by (simp add: seg window_append)
qed simp

lemma plan_bytes:
  assumes "meta_ok content m" and "0 \<le> start" and "start \<le> end'" and "end' < m_size m"
  shows "concat (map (piece_bytes content start end') (plan m start end' step)) =
    take (nat (end' - start + 1)) (drop (nat start) (object_bytes content m))"
proof -
  have "concat (map (piece_bytes content start end') (plan m start end' step))
      = window start end' 0 (object_bytes content m)"
    unfolding plan_conv object_bytes_def
    using assms contiguous_segments by (intro plan_segments_bytes) (auto simp: meta_ok_def)
  also have "\<dots> = take (nat (end' - start + 1)) (drop (nat start) (object_bytes content m))"
    using assms by (simp add: window_eq algebra_simps)
  finally show ?thesis .
qed

lemma plan_piece_bounds:
  assumes "meta_ok content m" and "start \<le> end'" and "p \<in> set (plan m start end' step)"
  shows "0 \<le> p_lo p \<and> p_lo p \<le> p_hi p \<and> p_hi p < row_count (content (p_file_id p)) \<and>
    p_hi p - p_lo p + 1 \<le> max 1 (int step)"
proof -
  obtain f base len where seg: "(f, base, len) \<in> set (segments m)"
    and p: "p \<in> set (plan_segment start end' step (f, base, len))"
    using assms(3) by (auto simp: plan_conv)
  have c: "int (length (content f)) = len" "fits_file (content f)"
    using assms(1) seg by (auto simp: meta_ok_def)
  have touch: "0 < len" "start \<le> base + len - 1" "base \<le> end'"
    using p by (auto simp: plan_segment_def split: if_splits)
  note rows = segment_rows [of content f, OF c assms(2) touch]
  obtain l h where lh: "(l, h) \<in> set (part_ranges (row_lo base start) (row_hi base len end') step)"
    and pe: "p = \<lparr>p_file_id = f, p_base = base, p_lo = l, p_hi = h\<rparr>"
    using p touch by (auto simp: plan_segment_def)
  have "row_lo base start \<le> l \<and> l \<le> h \<and> h \<le> row_hi base len end' \<and> h - l + 1 \<le> max 1 (int step)"
    using rows row_count_le [OF c(2)] by (intro part_ranges_bounds [OF lh]) auto
  then show ?thesis using rows by (simp add: pe)
qed

section \<open>Properties of the read plan\<close>

text \<open>
  C9. Reading the pieces of the plan in order and keeping of each row what
  \<open>row_slice\<close> keeps gives exactly the requested bytes of the object, whether it
  is one file or many parts and whatever the number of rows per query.
\<close>

theorem plan_reads_range:
  assumes "meta_ok content m" and "0 \<le> start" and "start \<le> end'" and "end' < m_size m"
  shows "concat (map (\<lambda>p. concat (map (\<lambda>no.
            case row_slice (p_base p) no (row_of content (p_file_id p) no) start end' of
              None \<Rightarrow> [] | Some bs \<Rightarrow> bs) [p_lo p..p_hi p])) (plan m start end' step)) =
         take (nat (end' - start + 1)) (drop (nat start) (object_bytes content m))"
  using plan_bytes [OF assms, of step]
  by (simp add: row_slice_window piece_bytes_def [abs_def] window_rows_def)

definition sample_content :: "int \<Rightarrow> bytes" where
  "sample_content f = (if f = 5 then [10, 11, 12] else if f = 6 then [13, 14] else [])"

definition sample_meta :: meta where
  "sample_meta = \<lparr>m_size = 5, m_etag = [], m_created = 0, m_file_id = 5,
     m_parts = Some [5, 6], m_part_ends = Some [3, 5]\<rparr>"

lemma sample_meta_ok: "meta_ok sample_content sample_meta"
  by (simp add: meta_ok_def sample_meta_def sample_content_def segments_def object_bytes_def
      fits_file_def ROW_BYTES_def)

theorem plan_reads_range_witness:
  "concat (map (\<lambda>p. concat (map (\<lambda>no.
      case row_slice (p_base p) no (row_of sample_content (p_file_id p) no) 2 3 of
        None \<Rightarrow> [] | Some bs \<Rightarrow> bs) [p_lo p..p_hi p])) (plan sample_meta 2 3 1)) = [12, 13]"
proof -
  have "object_bytes sample_content sample_meta = [10, 11, 12, 13, 14]"
    by (simp add: object_bytes_def sample_content_def sample_meta_def segments_def)
  moreover have "m_size sample_meta = 5" by (simp add: sample_meta_def)
  ultimately show ?thesis
    using plan_reads_range [OF sample_meta_ok, of 2 3 1] by simp
qed

section \<open>The effective range against HTTP's byte ranges\<close>

text \<open>
  RFC 9110, section 14.1.2, on a representation of \<open>size\<close> bytes: None is a range
  that cannot be satisfied.
\<close>

fun http_range :: "int \<Rightarrow> byte_range option \<Rightarrow> (int \<times> int) option" where
  "http_range size' None = Some (0, size' - 1)"
| "http_range size' (Some (RangeInt first last')) =
     (if uint first < size'
      then Some (uint first, case last' of Some v \<Rightarrow> min (uint v) (size' - 1) | None \<Rightarrow> size' - 1)
      else None)"
| "http_range size' (Some (RangeSuffix len)) =
     (if uint len = 0 then None else Some (max (size' - uint len) 0, size' - 1))"

text \<open>A header that is syntactically valid, with its first position below \<open>2 ^ 63\<close>.\<close>

fun range_in_i64 :: "byte_range option \<Rightarrow> bool" where
  "range_in_i64 (Some (RangeInt first last')) =
     (uint first < 2 ^ 63 \<and> (case last' of Some v \<Rightarrow> uint first \<le> uint v | None \<Rightarrow> True))"
| "range_in_i64 _ = True"

lemma sint_small: "uint (w :: 64 word) < 2 ^ 63 \<Longrightarrow> sint w = uint w"
proof -
  assume small: "uint w < 2 ^ 63"
  have "- (2 ^ 63) \<le> (0 :: int)" by simp
  also have "0 \<le> uint w" by simp
  finally have "as_i64 (uint w) = uint w" using small by (rule as_i64_id)
  then show "sint w = uint w" by (simp add: as_i64_def sint_uint)
qed

lemma sint_big: "2 ^ 63 \<le> uint (w :: 64 word) \<Longrightarrow> sint w = uint w - 2 ^ 64"
  using as_i64_wrap [of "uint w"] uint_bounded [of w] by (simp add: as_i64_def sint_uint)

lemma sint_neg: "2 ^ 63 \<le> uint (w :: 64 word) \<Longrightarrow> sint w < 0"
  using sint_big [of w] uint_bounded [of w] by simp

lemma int_range_matches:
  assumes "0 < size'" and "size' < 2 ^ 63" and "range_in_i64 (Some (RangeInt f l))"
    and "range_params (Some (RangeInt f l)) = (first, last', suffix')" and "eff_range size' first last' suffix' = (start, end')"
  shows "(if start > end' \<or> start \<ge> size' then None else Some (start, end')) = http_range size' (Some (RangeInt f l))"
proof -
  have f: "sint f = uint f" "0 \<le> uint f" using assms(3) by (simp_all add: sint_small)
  consider "l = None" | (small) v where "l = Some v" "uint v < 2 ^ 63" | (large) v where "l = Some v" "\<not> uint v < 2 ^ 63"
    by (cases l) auto
  then show ?thesis
  proof cases
    case (small v)
    then show ?thesis using assms f sint_small [of v] by (auto simp: eff_range_def min_def split: if_splits)
  next
    case (large v)
    then have "sint v < 0" by (intro sint_neg) simp
    with large show ?thesis using assms f by (auto simp: eff_range_def min_def)
  qed (use assms f in \<open>auto simp: eff_range_def\<close>)
qed

lemma suffix_range_matches:
  assumes "0 < size'" and "size' < 2 ^ 63"
    and "range_params (Some (RangeSuffix n)) = (first, last', suffix')" and "eff_range size' first last' suffix' = (start, end')"
  shows "(if start > end' \<or> start \<ge> size' then None else Some (start, end')) = http_range size' (Some (RangeSuffix n))"
proof (cases "uint n < 2 ^ 63")
  case True
  then show ?thesis
    using assms sint_small [of n] uint_nonnegative [of n] by (auto simp: eff_range_def max_def split: if_splits)
next
  case False
  then have "sint n < 0" by (intro sint_neg) simp
  then show ?thesis using assms False by (auto simp: eff_range_def max_def)
qed

text \<open>
  C28. For an object of at least one byte and a range whose first position is below \<open>2 ^ 63\<close> and not behind its
  last one, or a suffix of any length, or no range: the range the gateway serves is the
  one HTTP defines, and the gateway's test for 416 holds exactly when HTTP says
  the range cannot be satisfied. Last positions and suffix lengths beyond the
  \<open>i64\<close> range are handled too.
\<close>

theorem range_matches_http:
  assumes "0 < size'" and "size' < 2 ^ 63" and "range_in_i64 r"
    and "range_params r = (first, last', suffix')" and "eff_range size' first last' suffix' = (start, end')"
  shows "(if start > end' \<or> start \<ge> size' then None else Some (start, end')) = http_range size' r"
proof (cases r)
  case None
  then show ?thesis using assms by (auto simp: eff_range_def)
next
  case (Some br)
  then show ?thesis
    using int_range_matches [OF assms(1,2)] suffix_range_matches [OF assms(1,2)] assms(3-5) by (cases br) auto
qed

theorem range_matches_http_witness:
  "(if (7::int) > 9 \<or> (7::int) \<ge> 10 then None else Some (7, 9)) = http_range 10 (Some (RangeSuffix 3))"
  using range_matches_http [of 10 "Some (RangeSuffix 3)" 0 "-1" 3 7 9]
  by (simp add: eff_range_def)

text \<open>
  C37. A first position of \<open>2 ^ 63\<close> or more wraps to a negative number in the cast
  to \<open>i64\<close>, whatever the last position: the gateway does not answer 416 but serves the object from its
  first byte on, up to the last position if that is below \<open>2 ^ 63\<close> and up to the end otherwise, where HTTP has
  no satisfiable range.
\<close>

theorem range_first_position_wraps:
  assumes "0 < size'" and "size' < 2 ^ 63" and "2 ^ 63 \<le> uint first"
    and "range_params (Some (RangeInt first last')) = (f, l, s)" and "eff_range size' f l s = (start, end')"
  shows "start = 0 \<and>
    end' = (case last' of
        Some v \<Rightarrow> if uint v < 2 ^ 63 then min (uint v) (size' - 1) else size' - 1
      | None \<Rightarrow> size' - 1) \<and>
    \<not> (start > end' \<or> start \<ge> size') \<and> http_range size' (Some (RangeInt first last')) = None"
proof -
  have "sint first < 0" using assms(3) by (rule sint_neg)
  moreover have "last' = Some v \<Longrightarrow> (if sint v \<ge> 0 then min (sint v) (size' - 1) else size' - 1) =
      (if uint v < 2 ^ 63 then min (uint v) (size' - 1) else size' - 1)" for v
    using sint_small [of v] sint_neg [of v] uint_nonnegative [of v] by (cases "uint v < 2 ^ 63") (simp_all add: not_less)
  moreover have "0 \<le> min (uint v) (size' - 1)" for v :: "64 word" using assms(1) uint_nonnegative [of v] by simp
  ultimately show ?thesis
    using assms by (cases last') (auto simp: eff_range_def not_less)
qed

theorem range_first_position_wraps_witness:
  "http_range 10 (Some (RangeInt (word_of_int (2 ^ 63)) (Some 3))) = None"
proof -
  have "eff_range 10 (- (2 ^ 63)) 3 (- 1) = (0, 3)" by (simp add: eff_range_def)
  with range_first_position_wraps [of 10 "word_of_int (2 ^ 63)" "Some 3" "- (2 ^ 63)" 3 "-1" 0 3] show ?thesis by simp
qed

end
