(* ===== verification/Span.thy ===== *)
theory Span
  imports Ranges "HOL-Library.AList" "HOL-Library.Sublist"
begin

text \<open>
  The streamed read, \<^verbatim>\<open>stream_span\<close> of \<^verbatim>\<open>src/db.rs\<close>. The rows a query returns
  arrive in any order (a bitmap heap scan returns them by tuple id), with any
  rows missing (the file may be reaped meanwhile) and possibly with an error at
  the end; \<open>fetch p\<close> is what arrives for piece \<open>p\<close>. Rows ahead of the next number
  wait in \<open>early\<close>, an association list for the \<^verbatim>\<open>BTreeMap\<close>. \<open>accepts n\<close> says whether
  the response still takes its \<open>n\<close>-th buffer.
\<close>

definition CHUNK :: nat where
  "CHUNK = 256 * 2 ^ 10"

definition PARTS_INFLIGHT :: nat where
  "PARTS_INFLIGHT = 8"

datatype span_error = FetchFailed | RowMissing piece int | ShortRead int int

datatype span_result = Done | ClientGone | Failed span_error

type_synonym recv = "(span_error + (int \<times> bytes)) list"

text \<open>The buffers sent so far, their total, and the buffer being filled.\<close>

record out_state =
  os_out :: "bytes list"
  os_sent :: int
  os_chunk :: bytes

definition put_row :: "bytes \<Rightarrow> piece \<Rightarrow> int \<Rightarrow> bytes \<Rightarrow> int \<Rightarrow> int \<Rightarrow> bytes" where
  "put_row chunk p no data start end' =
     (case row_slice (p_base p) no data start end' of Some s \<Rightarrow> chunk @ s | None \<Rightarrow> chunk)"

text \<open>\<open>while let Some(row) = early.remove(&next)\<close>\<close>

function drain_early :: "piece \<Rightarrow> int \<Rightarrow> int \<Rightarrow> int \<Rightarrow> (int \<times> bytes) list \<Rightarrow> bytes \<Rightarrow>
    int \<times> (int \<times> bytes) list \<times> bytes" where
  "drain_early p start end' next' early chunk =
     (case map_of early next' of
        Some data \<Rightarrow> drain_early p start end' (as_i32 (next' + 1)) (AList.delete next' early)
                       (put_row chunk p next' data start end')
      | None \<Rightarrow> (next', early, chunk))"
  by pat_completeness auto
termination
  by (relation "measure (\<lambda>(p, s, e, n, early, c). length early)")
    (auto simp: AList.delete_eq dest!: map_of_SomeD intro!: length_filter_less)

declare drain_early.simps [simp del]

text \<open>The receive loop of one piece: the next row number wanted when the channel closes.\<close>

fun recv_rows :: "(nat \<Rightarrow> bool) \<Rightarrow> piece \<Rightarrow> int \<Rightarrow> int \<Rightarrow> int \<Rightarrow> (int \<times> bytes) list \<Rightarrow> out_state \<Rightarrow> recv \<Rightarrow>
    out_state \<times> (span_result + int)" where
  "recv_rows accepts p start end' next' early st [] = (st, Inr next')"
| "recv_rows accepts p start end' next' early st (Inl e # rows) = (st, Inl (Failed e))"
| "recv_rows accepts p start end' next' early st (Inr (no, data) # rows) =
     (if no \<noteq> next' then recv_rows accepts p start end' next' (AList.update no data early) st rows
      else
        (case drain_early p start end' (as_i32 (next' + 1)) early
                (put_row (os_chunk st) p no data start end') of
           (next'', early', chunk) \<Rightarrow>
             if CHUNK \<le> length chunk then
               (if accepts (length (os_out st))
                then recv_rows accepts p start end' next'' early'
                       \<lparr>os_out = os_out st @ [chunk], os_sent = os_sent st + int (length chunk), os_chunk = []\<rparr>
                       rows
                else (st\<lparr>os_sent := os_sent st + int (length chunk), os_chunk := []\<rparr>, Inl ClientGone))
             else recv_rows accepts p start end' next'' early' (st\<lparr>os_chunk := chunk\<rparr>) rows))"

text \<open>
  The outer loop: keep up to \<open>PARTS_INFLIGHT\<close> pieces running, drain the oldest,
  check that no row of it is missing; at the end check the total and send the
  last buffer.
\<close>

definition refill :: "piece list \<Rightarrow> piece list \<Rightarrow> piece list \<times> piece list" where
  "refill todo running =
     (let n = PARTS_INFLIGHT - length running in (drop n todo, running @ take n todo))"

definition span_finish :: "(nat \<Rightarrow> bool) \<Rightarrow> int \<Rightarrow> int \<Rightarrow> out_state \<Rightarrow> bytes list \<times> span_result" where
  "span_finish accepts start end' st =
     (let n = os_sent st + int (length (os_chunk st))
      in if n \<noteq> end' - start + 1 then (os_out st, Failed (ShortRead n (end' - start + 1)))
         else (if os_chunk st \<noteq> [] \<and> accepts (length (os_out st)) then os_out st @ [os_chunk st]
               else os_out st, Done))"

function span_loop :: "(nat \<Rightarrow> bool) \<Rightarrow> (piece \<Rightarrow> recv) \<Rightarrow> int \<Rightarrow> int \<Rightarrow> piece list \<Rightarrow> piece list \<Rightarrow>
    out_state \<Rightarrow> bytes list \<times> span_result" where
  "span_loop accepts fetch start end' todo running st =
     (case refill todo running of
        (todo', []) \<Rightarrow> span_finish accepts start end' st
      | (todo', p # running') \<Rightarrow>
          (case recv_rows accepts p start end' (p_lo p) [] st (fetch p) of
             (st', Inl r) \<Rightarrow> (os_out st', r)
           | (st', Inr next') \<Rightarrow>
               if next' > p_hi p then span_loop accepts fetch start end' todo' running' st'
               else (os_out st', Failed (RowMissing p next'))))"
  by pat_completeness auto
termination
  by (relation "measure (\<lambda>(a, f, s, e, todo, running, st). length todo + length running)")
    (auto simp: refill_def Let_def Cons_eq_append_conv dest!: arg_cong [where f = length])

declare span_loop.simps [simp del]

definition stream_span :: "(nat \<Rightarrow> bool) \<Rightarrow> (piece \<Rightarrow> recv) \<Rightarrow> meta \<Rightarrow> int \<Rightarrow> int \<Rightarrow> bytes list \<times> span_result" where
  "stream_span accepts fetch m start end' =
     span_loop accepts fetch start end' (plan m start end' PART_ROWS) []
       \<lparr>os_out = [], os_sent = 0, os_chunk = []\<rparr>"

section \<open>Reassembly of one piece\<close>

text \<open>What arrives for a piece are rows of its file, each with its own number.\<close>

definition row_ok :: "(int \<Rightarrow> bytes) \<Rightarrow> piece \<Rightarrow> int \<times> bytes \<Rightarrow> bool" where
  "row_ok content p r \<longleftrightarrow>
     p_lo p \<le> fst r \<and> fst r \<le> p_hi p \<and> snd r = row_of content (p_file_id p) (fst r)"

definition rows_from :: "(int \<Rightarrow> bytes) \<Rightarrow> piece \<Rightarrow> recv \<Rightarrow> bool" where
  "rows_from content p rx \<longleftrightarrow> (\<forall>r. Inr r \<in> set rx \<longrightarrow> row_ok content p r)"

definition early_ok :: "(int \<Rightarrow> bytes) \<Rightarrow> piece \<Rightarrow> (int \<times> bytes) list \<Rightarrow> bool" where
  "early_ok content p early \<longleftrightarrow> (\<forall>no data. map_of early no = Some data \<longrightarrow> row_ok content p (no, data))"

definition piece_ok :: "piece \<Rightarrow> bool" where
  "piece_ok p \<longleftrightarrow> 0 \<le> p_lo p \<and> p_lo p \<le> p_hi p \<and> p_hi p < I32_MAX"

text \<open>The bytes of rows \<open>[lo, next)\<close> of a piece.\<close>

definition upto_row :: "(int \<Rightarrow> bytes) \<Rightarrow> int \<Rightarrow> int \<Rightarrow> piece \<Rightarrow> int \<Rightarrow> bytes" where
  "upto_row content start end' p next' =
     window_rows content start end' (p_file_id p) (p_base p) [p_lo p..next' - 1]"

lemma upto_row_first [simp]: "upto_row content s e p (p_lo p) = []"
  by (simp add: upto_row_def window_rows_def)

lemma upto_row_all: "upto_row content s e p (p_hi p + 1) = piece_bytes content s e p"
  by (simp add: upto_row_def piece_bytes_def)

lemma put_row_step:
  assumes "row_ok content p (no, data)"
  shows "put_row chunk p no data s e =
    chunk @ window_rows content s e (p_file_id p) (p_base p) [no]"
  using assms row_slice_window [of "p_base p" no data s e]
  by (auto simp: put_row_def window_rows_def row_ok_def split: option.splits)

lemma upto_row_step:
  "p_lo p \<le> no \<Longrightarrow> upto_row content s e p (no + 1) =
    upto_row content s e p no @ window_rows content s e (p_file_id p) (p_base p) [no]"
  by (simp add: upto_row_def upto_rec2 window_rows_append)

lemma upto_row_prefix: "n \<le> k \<Longrightarrow> prefix (upto_row content s e p n) (upto_row content s e p k)"
proof (cases "p_lo p \<le> n")
  case True
  assume "n \<le> k"
  with True have "[p_lo p..k - 1] = [p_lo p..n - 1] @ [n..k - 1]"
    using upto_split1 [of "p_lo p" n "k - 1"] by (cases "n \<le> k - 1") simp_all
  then show ?thesis by (simp add: upto_row_def window_rows_append prefix_def)
next
  case False
  then show ?thesis by (simp add: upto_row_def window_rows_def)
qed

lemma next_row: "piece_ok p \<Longrightarrow> p_lo p \<le> no \<Longrightarrow> no \<le> p_hi p \<Longrightarrow> as_i32 (no + 1) = no + 1"
  by (rule as_i32_id) (auto simp: piece_ok_def I32_MAX_def)

lemma drain_early_spec:
  assumes "drain_early p s e next' early chunk = (next'', early', chunk')"
    and "piece_ok p" and "early_ok content p early" and "p_lo p \<le> next'" and "next' \<le> p_hi p + 1"
    and "pre @ chunk = acc @ upto_row content s e p next'"
  shows "next' \<le> next'' \<and> next'' \<le> p_hi p + 1 \<and> early_ok content p early' \<and>
    pre @ chunk' = acc @ upto_row content s e p next'' \<and>
    map_of early' next'' = None \<and>
    (\<forall>no. no \<in> dom (map_of early) \<longrightarrow> no < next'' \<and> next' \<le> no \<or> no \<in> dom (map_of early'))"
  using assms
proof (induction p s e next' early chunk arbitrary: next'' early' chunk' rule: drain_early.induct)
  case (1 p s e next' early chunk)
  show ?case
  proof (cases "map_of early next'")
    case None
    with "1.prems" show ?thesis by (subst (asm) drain_early.simps) simp
  next
    case (Some data)
    have row: "row_ok content p (next', data)"
      using "1.prems"(3) Some by (simp add: early_ok_def)
    then have hi: "next' \<le> p_hi p" by (simp add: row_ok_def)
    have nx: "as_i32 (next' + 1) = next' + 1"
      using "1.prems"(2,4) hi by (rule next_row)
    have ok: "early_ok content p (AList.delete next' early)"
      using "1.prems"(3) by (simp add: early_ok_def delete_conv' fun_upd_def)
    have "drain_early p s e (as_i32 (next' + 1)) (AList.delete next' early)
        (put_row chunk p next' data s e) = (next'', early', chunk')"
      using "1.prems"(1) Some by (subst (asm) drain_early.simps) simp
    moreover have "pre @ put_row chunk p next' data s e = acc @ upto_row content s e p (next' + 1)"
      using "1.prems"(4,6) row by (simp add: put_row_step upto_row_step flip: append_assoc)
    ultimately have "next' + 1 \<le> next'' \<and> next'' \<le> p_hi p + 1 \<and> early_ok content p early' \<and>
        pre @ chunk' = acc @ upto_row content s e p next'' \<and> map_of early' next'' = None \<and>
        (\<forall>no. no \<in> dom (map_of (AList.delete next' early)) \<longrightarrow>
           no < next'' \<and> next' + 1 \<le> no \<or> no \<in> dom (map_of early'))"
      using "1.IH" [OF Some] "1.prems"(2,4) ok hi by (simp add: nx)
    then show ?thesis by (auto simp: delete_conv')
  qed
qed

text \<open>
  The receive loop keeps the bytes of the rows below the next wanted number, in
  order; whatever it sends is a prefix of the piece's bytes after \<open>acc\<close>; and a
  row that arrived is written by the end or still held.
\<close>

definition st_ok :: "out_state \<Rightarrow> bytes \<Rightarrow> bool" where
  "st_ok st bs \<longleftrightarrow> concat (os_out st) @ os_chunk st = bs \<and> os_sent st = int (length (concat (os_out st))) \<and>
     (\<forall>b \<in> set (os_out st). CHUNK \<le> length b)"

lemma st_ok_prefix:
  assumes "st_ok st (acc @ upto_row content s e p n)" and "n \<le> p_hi p + 1"
  shows "prefix (concat (os_out st)) (acc @ piece_bytes content s e p)"
proof -
  have "prefix (upto_row content s e p n) (piece_bytes content s e p)"
    using assms(2) by (auto simp: upto_row_all [symmetric] intro: upto_row_prefix)
  moreover have "prefix (concat (os_out st)) (acc @ upto_row content s e p n)"
    using assms(1) by (auto simp: st_ok_def intro: prefixI [OF sym])
  ultimately show ?thesis by (meson prefix_order.trans same_prefix_prefix)
qed

definition recv_post :: "(nat \<Rightarrow> bool) \<Rightarrow> (int \<Rightarrow> bytes) \<Rightarrow> piece \<Rightarrow> int \<Rightarrow> int \<Rightarrow> int \<Rightarrow>
    (int \<times> bytes) list \<Rightarrow> bytes \<Rightarrow> recv \<Rightarrow> out_state \<Rightarrow> span_result + int \<Rightarrow> bool" where
  "recv_post accepts content p s e next' early acc rx st' r =
     (case r of
        Inr k \<Rightarrow> next' \<le> k \<and> k \<le> p_hi p + 1 \<and> st_ok st' (acc @ upto_row content s e p k) \<and>
          (\<forall>no. no \<in> dom (map_of early) \<or> (\<exists>data. Inr (no, data) \<in> set rx) \<longrightarrow> no \<noteq> k)
      | Inl x \<Rightarrow> prefix (concat (os_out st')) (acc @ piece_bytes content s e p) \<and>
          (x = ClientGone \<and> (\<exists>n. \<not> accepts n) \<or> (\<exists>err. x = Failed err \<and> Inl err \<in> set rx)))"

lemma recv_post_weaken:
  assumes post: "recv_post accepts content p s e n2 early2 acc rx2 st' r" and le: "n1 \<le> n2"
    and dom: "\<And>no. no \<in> dom (map_of early1) \<or> (\<exists>data. Inr (no, data) \<in> set rx1) \<Longrightarrow>
      no < n2 \<or> no \<in> dom (map_of early2) \<or> (\<exists>data. Inr (no, data) \<in> set rx2)"
    and err: "\<And>err. Inl err \<in> set rx2 \<Longrightarrow> Inl err \<in> set rx1"
  shows "recv_post accepts content p s e n1 early1 acc rx1 st' r"
proof (cases r)
  case (Inl x)
  with post err show ?thesis by (auto simp: recv_post_def)
next
  case (Inr k)
  have "no \<noteq> k" if "no \<in> dom (map_of early1) \<or> (\<exists>data. Inr (no, data) \<in> set rx1)" for no
    using dom [OF that] post by (auto simp: recv_post_def Inr)
  with post le show ?thesis by (auto simp: recv_post_def Inr)
qed

lemma recv_post_row:
  assumes "recv_post accepts content p s e n2 early2 acc rx st' r" and "n + 1 \<le> n2"
    and "\<And>no. no \<in> dom (map_of early) \<Longrightarrow> no < n2 \<or> no \<in> dom (map_of early2)"
  shows "recv_post accepts content p s e n early acc (Inr (n, data) # rx) st' r"
proof (rule recv_post_weaken [OF assms(1)])
  show "no < n2 \<or> no \<in> dom (map_of early2) \<or> (\<exists>data. Inr (no, data) \<in> set rx)"
    if "no \<in> dom (map_of early) \<or> (\<exists>d. Inr (no, d) \<in> set (Inr (n, data) # rx))" for no
    using that assms(2,3) by auto
qed (use assms(2) in auto)

text \<open>A row in order is put into the chunk, with the early rows it releases.\<close>

lemma drain_row:
  assumes drain: "drain_early p s e (n + 1) early (put_row (os_chunk st) p n data s e) = (n2, early2, chunk)"
    and piece: "piece_ok p" and row: "row_ok content p (n, data)" and early: "early_ok content p early"
    and lo: "p_lo p \<le> n" and st: "st_ok st (acc @ upto_row content s e p n)"
  shows "n + 1 \<le> n2" and "n2 \<le> p_hi p + 1" and "early_ok content p early2"
    and "concat (os_out st) @ chunk = acc @ upto_row content s e p n2" and "map_of early2 n2 = None"
    and "no \<in> dom (map_of early) \<Longrightarrow> no < n2 \<or> no \<in> dom (map_of early2)"
proof -
  have "concat (os_out st) @ put_row (os_chunk st) p n data s e = acc @ upto_row content s e p (n + 1)"
    using lo st row by (simp add: put_row_step upto_row_step st_ok_def flip: append_assoc)
  then have "n + 1 \<le> n2 \<and> n2 \<le> p_hi p + 1 \<and> early_ok content p early2 \<and>
      concat (os_out st) @ chunk = acc @ upto_row content s e p n2 \<and> map_of early2 n2 = None \<and>
      (\<forall>no. no \<in> dom (map_of early) \<longrightarrow> no < n2 \<and> n + 1 \<le> no \<or> no \<in> dom (map_of early2))"
    using lo row by (intro drain_early_spec [OF drain piece early]) (auto simp: row_ok_def)
  then show "n + 1 \<le> n2" "n2 \<le> p_hi p + 1" "early_ok content p early2"
    "concat (os_out st) @ chunk = acc @ upto_row content s e p n2" "map_of early2 n2 = None"
    "no \<in> dom (map_of early) \<Longrightarrow> no < n2 \<or> no \<in> dom (map_of early2)"
    by blast+
qed

lemma recv_rows_spec:
  assumes "recv_rows accepts p s e next' early st rx = (st', r)"
    and "piece_ok p" and "rows_from content p rx" and "early_ok content p early"
    and "p_lo p \<le> next'" and "next' \<le> p_hi p + 1" and "map_of early next' = None"
    and "st_ok st (acc @ upto_row content s e p next')"
  shows "recv_post accepts content p s e next' early acc rx st' r"
  using assms
proof (induction rx arbitrary: next' early st)
  case Nil
  then show ?case by (auto simp: recv_post_def)
next
  case (Cons x rx)
  have rx: "rows_from content p rx" using Cons.prems(3) by (simp add: rows_from_def)
  consider (err) err where "x = Inl err" | (ahead) no data where "x = Inr (no, data)" "no \<noteq> next'"
    | (row) data where "x = Inr (next', data)" by (cases x) auto
  then show ?case
  proof cases
    case err
    with Cons.prems st_ok_prefix [OF Cons.prems(8,6)] show ?thesis by (auto simp: recv_post_def)
  next
    case (ahead no data)
    have "row_ok content p (no, data)" using Cons.prems(3) by (simp add: rows_from_def ahead)
    then have "recv_post accepts content p s e next' (AList.update no data early) acc rx st' r"
      using Cons.prems ahead rx by (intro Cons.IH) (auto simp: early_ok_def update_conv')
    then show ?thesis
      by (rule recv_post_weaken) (auto simp: ahead update_conv' dom_def split: if_splits)
  next
    case (row data)
    have ok: "row_ok content p (next', data)" using Cons.prems(3) by (simp add: rows_from_def row)
    then have nx: "as_i32 (next' + 1) = next' + 1"
      using next_row [OF Cons.prems(2,5)] by (simp add: row_ok_def)
    obtain n2 early2 chunk where drain:
      "drain_early p s e (next' + 1) early (put_row (os_chunk st) p next' data s e) = (n2, early2, chunk)"
      by (cases "drain_early p s e (next' + 1) early (put_row (os_chunk st) p next' data s e)")
    note d = drain_row [OF drain Cons.prems(2) ok Cons.prems(4,5,8)]
    have weaken: "recv_post accepts content p s e next' early acc (x # rx) st' r"
      if "recv_post accepts content p s e n2 early2 acc rx st' r"
      unfolding row by (rule recv_post_row [OF that d(1,6)])
    note step = Cons.prems(1) [unfolded row, simplified recv_rows.simps nx drain, simplified]
    have lo: "p_lo p \<le> n2" using d(1) Cons.prems(5) by simp
    have sent: "os_sent st = int (length (concat (os_out st)))" "\<forall>b \<in> set (os_out st). CHUNK \<le> length b"
      using Cons.prems(8) by (simp_all add: st_ok_def)
    consider "length chunk < CHUNK" | "CHUNK \<le> length chunk" "accepts (length (os_out st))"
      | "CHUNK \<le> length chunk" "\<not> accepts (length (os_out st))" by fastforce
    then show ?thesis
    proof cases
      case 1
      then show ?thesis
        using step d(2-5) lo sent by (intro weaken Cons.IH [OF _ Cons.prems(2) rx]) (auto simp: st_ok_def)
    next
      case 2
      let ?st = "\<lparr>os_out = os_out st @ [chunk], os_sent = os_sent st + int (length chunk), os_chunk = []\<rparr>"
      have "st_ok ?st (acc @ upto_row content s e p n2)"
        using sent 2 by (simp add: st_ok_def d(4) [symmetric])
      then show ?thesis
        using 2 step d(2,3,5) lo sent(1) by (intro weaken Cons.IH [OF _ Cons.prems(2) rx]) auto
    next
      case 3
      then have "os_out st' = os_out st" "r = Inl ClientGone" using step by auto
      with st_ok_prefix [OF Cons.prems(8,6)] 3(2) show ?thesis by (auto simp: recv_post_def)
    qed
  qed
qed

section \<open>The whole span\<close>

text \<open>Everything arrived for a piece: each of its rows, and no error.\<close>

definition all_rows :: "piece \<Rightarrow> recv \<Rightarrow> bool" where
  "all_rows p rx \<longleftrightarrow>
     (\<forall>no. p_lo p \<le> no \<and> no \<le> p_hi p \<longrightarrow> (\<exists>data. Inr (no, data) \<in> set rx)) \<and> (\<forall>err. Inl err \<notin> set rx)"

lemma refill_append: "refill todo running = (todo', running') \<Longrightarrow> running' @ todo' = running @ todo"
  by (auto simp: refill_def Let_def)

lemma refill_Nil: "refill todo running = (todo', []) \<Longrightarrow> todo = [] \<and> running = []"
  by (auto simp: refill_def Let_def PARTS_INFLIGHT_def)

lemma refill_bound:
  "refill todo running = (todo', running') \<Longrightarrow> length running \<le> PARTS_INFLIGHT \<Longrightarrow> length running' \<le> PARTS_INFLIGHT"
  by (auto simp: refill_def Let_def)

definition span_post :: "(nat \<Rightarrow> bool) \<Rightarrow> (int \<Rightarrow> bytes) \<Rightarrow> (piece \<Rightarrow> recv) \<Rightarrow> int \<Rightarrow> int \<Rightarrow>
    piece list \<Rightarrow> bytes \<Rightarrow> bytes list \<Rightarrow> span_result \<Rightarrow> bool" where
  "span_post accepts content fetch s e ps acc out r \<longleftrightarrow>
     prefix (concat out) (acc @ concat (map (piece_bytes content s e) ps)) \<and>
     (r = Done \<and> (\<forall>n. accepts n) \<longrightarrow> concat out = acc @ concat (map (piece_bytes content s e) ps)) \<and>
     ((\<forall>p \<in> set ps. all_rows p (fetch p)) \<and> (\<forall>n. accepts n) \<and>
        int (length (acc @ concat (map (piece_bytes content s e) ps))) = e - s + 1 \<longrightarrow> r = Done)"

lemma span_finish_post:
  assumes "st_ok st acc" and "span_finish accepts s e st = (out, r)"
  shows "span_post accepts content fetch s e [] acc out r"
  using assms
  by (auto simp: span_post_def span_finish_def st_ok_def Let_def split: if_splits)

text \<open>A part that ends the span: by an error or the client, or by a missing row.\<close>

lemma span_stopped:
  assumes post: "recv_post accepts content p s e n early acc (fetch p) st (Inl x)"
  shows "span_post accepts content fetch s e (p # ps) acc (os_out st) x"
proof -
  have "prefix (concat (os_out st)) (acc @ piece_bytes content s e p)" using post by (simp add: recv_post_def)
  from prefix_order.trans [OF this] post show ?thesis
    unfolding span_post_def recv_post_def sum.case by (auto simp: all_rows_def)
qed

lemma span_missing:
  assumes post: "recv_post accepts content p s e (p_lo p) [] acc (fetch p) st (Inr k)" and missing: "\<not> k > p_hi p"
  shows "span_post accepts content fetch s e (p # ps) acc (os_out st) (Failed (RowMissing p k))"
proof -
  have k: "st_ok st (acc @ upto_row content s e p k)" "k \<le> p_hi p + 1" "p_lo p \<le> k"
    using post by (simp_all add: recv_post_def)
  have "\<not> all_rows p (fetch p)"
    using post missing k(3) by (auto simp: recv_post_def all_rows_def intro!: exI [where x = k])
  moreover have "prefix (concat (os_out st)) (acc @ piece_bytes content s e p)" by (rule st_ok_prefix [OF k(1,2)])
  from prefix_order.trans [OF this] have "prefix (concat (os_out st)) (acc @ concat (map (piece_bytes content s e) (p # ps)))"
    by simp
  ultimately show ?thesis by (auto simp: span_post_def)
qed

lemma span_loop_spec:
  assumes "span_loop accepts fetch s e todo running st = (out, r)"
    and "\<forall>p \<in> set (running @ todo). piece_ok p \<and> rows_from content p (fetch p)"
    and "st_ok st acc"
  shows "span_post accepts content fetch s e (running @ todo) acc out r"
  using assms
proof (induction accepts fetch s e todo running st arbitrary: acc rule: span_loop.induct)
  case (1 accepts fetch s e todo running st)
  obtain todo' running' where refill: "refill todo running = (todo', running')" by fastforce
  show ?case
  proof (cases running')
    case Nil
    with refill refill_Nil have "todo = []" "running = []" by auto
    moreover have "span_finish accepts s e st = (out, r)"
      using "1.prems"(1) refill Nil by (subst (asm) span_loop.simps) simp
    ultimately show ?thesis using span_finish_post [OF "1.prems"(3)] by simp
  next
    case (Cons p ps)
    have split: "running @ todo = p # ps @ todo'"
      using refill_append [OF refill] Cons by simp
    have p: "piece_ok p" "rows_from content p (fetch p)" using "1.prems"(2) by (auto simp: split)
    obtain st' r' where recv: "recv_rows accepts p s e (p_lo p) [] st (fetch p) = (st', r')" by fastforce
    have post: "recv_post accepts content p s e (p_lo p) [] acc (fetch p) st' r'"
      using p "1.prems"(3) by (intro recv_rows_spec [OF recv]) (auto simp: early_ok_def piece_ok_def)
    show ?thesis
    proof (cases r')
      case (Inl x)
      then have "out = os_out st'" "r = x"
        using "1.prems"(1) refill Cons recv by (subst (asm) span_loop.simps, simp)+
      with span_stopped [of accepts content p s e _ _ acc fetch st' x] post show ?thesis by (simp add: Inl split)
    next
      case (Inr k)
      show ?thesis
      proof (cases "k > p_hi p")
        case True
        with post have "k = p_hi p + 1" by (simp add: recv_post_def Inr)
        then have ok: "st_ok st' (acc @ piece_bytes content s e p)"
          using post by (simp add: recv_post_def Inr upto_row_all)
        have "span_loop accepts fetch s e todo' ps st' = (out, r)"
          using "1.prems"(1) refill Cons recv Inr True by (subst (asm) span_loop.simps) simp
        then have "span_post accepts content fetch s e (ps @ todo') (acc @ piece_bytes content s e p) out r"
          using "1.prems"(2) ok
          by (intro "1.IH" [OF refill [symmetric] Cons recv [symmetric] Inr True]) (auto simp: split)
        then show ?thesis by (simp add: span_post_def split)
      next
        case False
        then have res: "out = os_out st'" "r = Failed (RowMissing p k)"
          using "1.prems"(1) refill Cons recv Inr by (subst (asm) span_loop.simps, simp)+
        with span_missing [of accepts content p s e acc fetch st' k] post False show ?thesis by (simp add: Inr split)
      qed
    qed
  qed
qed

lemma plan_piece_ok:
  assumes "meta_ok content m" and "start \<le> end'" and "p \<in> set (plan m start end' step)"
  shows "piece_ok p"
proof -
  obtain f base len where seg: "(f, base, len) \<in> set (segments m)"
    and p: "p \<in> set (plan_segment start end' step (f, base, len))"
    using assms(3) by (auto simp: plan_conv)
  then have "p_file_id p = f" and "fits_file (content f)"
    using assms(1) by (auto simp: plan_segment_def meta_ok_def split: if_splits)
  then have "row_count (content (p_file_id p)) \<le> I32_MAX" using row_count_le by simp
  with plan_piece_bounds [OF assms] show ?thesis by (auto simp: piece_ok_def)
qed

lemma stream_span_post:
  assumes "meta_ok content m" and "0 \<le> start" and "start \<le> end'" and "end' < m_size m"
    and "\<forall>p \<in> set (plan m start end' PART_ROWS). rows_from content p (fetch p)"
    and "stream_span accepts fetch m start end' = (out, r)"
  shows "span_post accepts content fetch start end' (plan m start end' PART_ROWS) [] out r"
  using span_loop_spec [of accepts fetch start end' "plan m start end' PART_ROWS" "[]" _ out r content "[]"]
    assms plan_piece_ok [OF assms(1,3)]
  by (simp add: stream_span_def st_ok_def)

section \<open>Properties of the streamed read\<close>

text \<open>
  C7. Whatever order the rows arrive in and whichever of them are missing, as
  long as they are rows of the files the metadata names, the response carries a
  prefix of the requested bytes, and if the read ends without an error and the
  client took every buffer, exactly the requested bytes: never a wrong or a
  short body.
\<close>

theorem stream_span_never_wrong:
  assumes "meta_ok content m" and "0 \<le> start" and "start \<le> end'" and "end' < m_size m"
    and "\<forall>p \<in> set (plan m start end' PART_ROWS). rows_from content p (fetch p)"
    and "stream_span accepts fetch m start end' = (out, r)"
  shows "prefix (concat out) (take (nat (end' - start + 1)) (drop (nat start) (object_bytes content m))) \<and>
    (r = Done \<and> (\<forall>n. accepts n) \<longrightarrow>
       concat out = take (nat (end' - start + 1)) (drop (nat start) (object_bytes content m)))"
  using stream_span_post [OF assms] by (simp add: span_post_def plan_bytes [OF assms(1-4)])

text \<open>
  C8. If every row of every piece arrives, in any order and with any repetition,
  and the client takes every buffer, the read ends without an error and the
  response is exactly the requested bytes.
\<close>

theorem stream_span_complete:
  assumes "meta_ok content m" and "0 \<le> start" and "start \<le> end'" and "end' < m_size m"
    and "\<forall>p \<in> set (plan m start end' PART_ROWS). rows_from content p (fetch p) \<and> all_rows p (fetch p)"
    and "\<forall>n. accepts n"
  shows "\<exists>out. stream_span accepts fetch m start end' = (out, Done) \<and>
    concat out = take (nat (end' - start + 1)) (drop (nat start) (object_bytes content m))"
proof -
  obtain out r where res: "stream_span accepts fetch m start end' = (out, r)" by fastforce
  have "span_post accepts content fetch start end' (plan m start end' PART_ROWS) [] out r"
    using assms(5) by (intro stream_span_post [OF assms(1-4) _ res]) auto
  moreover have "int (length (take (nat (end' - start + 1)) (drop (nat start) (object_bytes content m)))) = end' - start + 1"
    using assms(1-4) by (auto simp: meta_ok_def)
  ultimately show ?thesis
    using assms(5,6) res by (simp add: span_post_def plan_bytes [OF assms(1-4)])
qed

text \<open>A table that returns a piece's rows in descending order.\<close>

definition fetch_down :: "(int \<Rightarrow> bytes) \<Rightarrow> piece \<Rightarrow> recv" where
  "fetch_down content p = map (\<lambda>no. Inr (no, row_of content (p_file_id p) no)) (rev [p_lo p..p_hi p])"

lemma fetch_down_rows: "rows_from content p (fetch_down content p) \<and> all_rows p (fetch_down content p)"
  by (auto simp: rows_from_def all_rows_def fetch_down_def row_ok_def image_iff)

theorem stream_span_never_wrong_witness:
  "prefix (concat (fst (stream_span (\<lambda>_. False) (fetch_down sample_content) sample_meta 1 3))) [11, 12, 13]"
proof -
  have "object_bytes sample_content sample_meta = [10, 11, 12, 13, 14]"
    by (simp add: object_bytes_def sample_content_def sample_meta_def segments_def)
  moreover have "m_size sample_meta = 5" by (simp add: sample_meta_def)
  moreover obtain out r where "stream_span (\<lambda>_. False) (fetch_down sample_content) sample_meta 1 3 = (out, r)"
    by fastforce
  ultimately show ?thesis
    using stream_span_never_wrong [OF sample_meta_ok, of 1 3 "fetch_down sample_content" "\<lambda>_. False" out r]
      fetch_down_rows by simp
qed

theorem stream_span_complete_witness:
  "\<exists>out. stream_span (\<lambda>_. True) (fetch_down sample_content) sample_meta 1 3 = (out, Done) \<and>
    concat out = [11, 12, 13]"
proof -
  have "object_bytes sample_content sample_meta = [10, 11, 12, 13, 14]"
    by (simp add: object_bytes_def sample_content_def sample_meta_def segments_def)
  moreover have "m_size sample_meta = 5" by (simp add: sample_meta_def)
  ultimately show ?thesis
    using stream_span_complete [OF sample_meta_ok, of 1 3 "fetch_down sample_content" "\<lambda>_. True"]
      fetch_down_rows by simp
qed

end
