(* ===== verification/Chunks.thy ===== *)
theory Chunks
  imports Span "HOL-Library.Multiset"
begin

text \<open>
  The table \<^verbatim>\<open>s3p.chunks\<close> and the three statements that touch it: the binary COPY,
  the DELETE by file ids and the SELECT of a row range (\<^verbatim>\<open>src/db.rs\<close>, \<^verbatim>\<open>schema.sql\<close>).
  The locale \<open>file_table\<close> is what the object store needs of it: a file is added
  whole, dropped whole, and files do not interfere. Its client lemmas keep the
  table in step with a list of references (file id, length).
\<close>

section \<open>The table\<close>

type_synonym chunk_row = "int \<times> int \<times> bytes"

text \<open>COPY inserts all the rows, or fails on the primary key \<^verbatim>\<open>(file_id, no)\<close>.\<close>

definition copy_in :: "chunk_row list \<Rightarrow> chunk_row list \<Rightarrow> chunk_row list option" where
  "copy_in chunks rows =
     (let keys = map (\<lambda>r. (fst r, fst (snd r)))
      in if distinct (keys rows) \<and> list_all (\<lambda>k. k \<notin> set (keys chunks)) (keys rows)
         then Some (chunks @ rows) else None)"

definition delete_files :: "chunk_row list \<Rightarrow> int list \<Rightarrow> chunk_row list" where
  "delete_files chunks ids = filter (\<lambda>r. fst r \<notin> set ids) chunks"

definition select_range :: "chunk_row list \<Rightarrow> int \<Rightarrow> int \<Rightarrow> int \<Rightarrow> (int \<times> bytes) list" where
  "select_range chunks file_id lo hi =
     map snd (filter (\<lambda>r. fst r = file_id \<and> lo \<le> fst (snd r) \<and> fst (snd r) \<le> hi) chunks)"

text \<open>The rows one query of a read returns, without errors.\<close>

definition fetch_part :: "chunk_row list \<Rightarrow> piece \<Rightarrow> recv" where
  "fetch_part chunks p = map Inr (select_range chunks (p_file_id p) (p_lo p) (p_hi p))"

section \<open>Files as rows\<close>

definition rows_of_file :: "chunk_row list \<Rightarrow> int \<Rightarrow> chunk_row list" where
  "rows_of_file chunks f = filter (\<lambda>r. fst r = f) chunks"

definition file_bytes :: "chunk_row list \<Rightarrow> int \<Rightarrow> bytes" where
  "file_bytes chunks f = concat (map (snd \<circ> snd) (rows_of_file chunks f))"

definition holds_file :: "chunk_row list \<Rightarrow> int \<Rightarrow> bytes \<Rightarrow> bool" where
  "holds_file chunks f data \<longleftrightarrow> rows_of_file chunks f = file_rows f data \<and> fits_file data"

definition no_file :: "chunk_row list \<Rightarrow> int \<Rightarrow> bool" where
  "no_file chunks f \<longleftrightarrow> rows_of_file chunks f = []"

definition add_file :: "chunk_row list \<Rightarrow> int \<Rightarrow> bytes \<Rightarrow> chunk_row list option" where
  "add_file chunks f data = copy_in chunks (file_rows f data)"

lemma file_rows_bytes: "concat (map (snd \<circ> snd) (file_rows f data)) = data"
proof -
  have "map (snd \<circ> snd) (file_rows f data) = pieces ROW_BYTES data"
    by (rule nth_equalityI) (simp_all add: file_rows_def)
  then show ?thesis by (simp add: concat_pieces)
qed

lemma holds_file_bytes: "holds_file chunks f data \<Longrightarrow> file_bytes chunks f = data"
  by (simp add: holds_file_def file_bytes_def file_rows_bytes)

lemma fst_file_rows: "r \<in> set (file_rows f data) \<Longrightarrow> fst r = f"
  by (auto simp: file_rows_def)

lemma rows_of_file_rows: "rows_of_file (file_rows f data) g = (if g = f then file_rows f data else [])"
  by (auto simp: rows_of_file_def fst_file_rows intro: filter_True filter_False)

lemma distinct_file_rows: "distinct (map (\<lambda>r. (fst r, fst (snd r))) (file_rows f data))"
  by (simp add: file_rows_def comp_def distinct_map inj_on_def)

lemma rows_of_file_append: "rows_of_file (xs @ ys) f = rows_of_file xs f @ rows_of_file ys f"
  by (simp add: rows_of_file_def)

lemma no_file_iff: "no_file chunks f \<longleftrightarrow> (\<forall>r \<in> set chunks. fst r \<noteq> f)"
  by (auto simp: no_file_def rows_of_file_def filter_empty_conv)

lemma add_file_absent: "no_file chunks f \<Longrightarrow> add_file chunks f data = Some (chunks @ file_rows f data)"
  using fst_file_rows [of _ f data]
  by (force simp: add_file_def copy_in_def Let_def distinct_file_rows list_all_iff no_file_iff)

lemma add_file_Some: "add_file chunks f data = Some chunks' \<Longrightarrow> chunks' = chunks @ file_rows f data"
  by (auto simp: add_file_def copy_in_def Let_def split: if_splits)

lemma rows_of_file_delete:
  "rows_of_file (delete_files chunks ids) f = (if f \<in> set ids then [] else rows_of_file chunks f)"
  by (auto simp: rows_of_file_def delete_files_def filter_empty_conv intro: filter_cong)

section \<open>The interface of a table of whole files\<close>

locale file_table =
  fixes holds :: "'t \<Rightarrow> 'f \<Rightarrow> 'd \<Rightarrow> bool"
    and absent :: "'t \<Rightarrow> 'f \<Rightarrow> bool"
    and add :: "'t \<Rightarrow> 'f \<Rightarrow> 'd \<Rightarrow> 't option"
    and dropf :: "'t \<Rightarrow> 'f list \<Rightarrow> 't"
    and fits :: "'d \<Rightarrow> bool"
    and len :: "'d \<Rightarrow> int"
  assumes add_absent: "absent t f \<Longrightarrow> fits d \<Longrightarrow> \<exists>t'. add t f d = Some t' \<and> holds t' f d"
    and add_frame: "add t f d = Some t' \<Longrightarrow> g \<noteq> f \<Longrightarrow> holds t' g e = holds t g e \<and> absent t' g = absent t g"
    and drop_in: "f \<in> set fs \<Longrightarrow> absent (dropf t fs) f"
    and drop_out: "f \<notin> set fs \<Longrightarrow> holds (dropf t fs) f d = holds t f d \<and> absent (dropf t fs) f = absent t f"
begin

text \<open>The table holds every referenced file with its length, and nothing else.\<close>

definition backed :: "'t \<Rightarrow> ('f \<times> int) list \<Rightarrow> bool" where
  "backed t refs \<longleftrightarrow> distinct (map fst refs) \<and>
     (\<forall>(f, n) \<in> set refs. \<exists>d. holds t f d \<and> len d = n) \<and>
     (\<forall>f. f \<notin> fst ` set refs \<longrightarrow> absent t f)"

lemma backed_holds: "backed t refs \<Longrightarrow> (f, n) \<in> set refs \<Longrightarrow> \<exists>d. holds t f d \<and> len d = n"
  unfolding backed_def by (drule conjunct2, drule conjunct1, drule (1) bspec) simp

lemma backed_absent: "backed t refs \<Longrightarrow> f \<notin> fst ` set refs \<Longrightarrow> absent t f"
  by (simp add: backed_def)

lemma backed_mset: "mset refs = mset refs' \<Longrightarrow> backed t refs = backed t refs'"
proof -
  assume eq: "mset refs = mset refs'"
  then have "distinct (map fst refs) = distinct (map fst refs')"
    by (metis mset_eq_imp_distinct_iff mset_map)
  with mset_eq_setD [OF eq] show ?thesis by (simp add: backed_def)
qed

lemma backed_add:
  assumes "backed t refs" and "f \<notin> fst ` set refs" and "fits d"
  obtains t' where "add t f d = Some t'" and "holds t' f d" and "backed t' ((f, len d) # refs)"
    and "\<And>g e. g \<in> fst ` set refs \<Longrightarrow> holds t g e \<Longrightarrow> holds t' g e"
proof -
  have "absent t f" using assms by (simp add: backed_def)
  then obtain t' where t': "add t f d = Some t'" "holds t' f d"
    using add_absent assms(3) by blast
  have frame: "holds t' g e = holds t g e \<and> absent t' g = absent t g" if "g \<noteq> f" for g e
    using add_frame [OF t'(1) that] .
  have "backed t' ((f, len d) # refs)"
    unfolding backed_def
  proof (intro conjI ballI allI impI)
    show "distinct (map fst ((f, len d) # refs))" using assms by (simp add: backed_def)
  next
    fix r assume "r \<in> set ((f, len d) # refs)"
    moreover obtain g n where "r = (g, n)" by (cases r)
    ultimately consider "r = (f, len d)" | g n where "r = (g, n)" "(g, n) \<in> set refs"
      by (metis set_ConsD)
    then show "case r of (g, n) \<Rightarrow> \<exists>d. holds t' g d \<and> len d = n"
    proof cases
      case 1
      with t'(2) show ?thesis by auto
    next
      case (2 g n)
      then have "g \<noteq> f" using assms(2) by force
      with backed_holds [OF assms(1) 2(2)] frame show ?thesis by (simp add: 2)
    qed
  next
    fix g assume "g \<notin> fst ` set ((f, len d) # refs)"
    then show "absent t' g" using assms frame by (auto simp: backed_def)
  qed
  with t' frame assms(2) that show thesis by metis
qed

lemma backed_drop:
  assumes "backed t (dead @ live)" and "set ids = fst ` set dead"
  shows "backed (dropf t ids) live"
    and "g \<in> fst ` set live \<Longrightarrow> holds t g e \<Longrightarrow> holds (dropf t ids) g e"
proof -
  have out: "g \<notin> set ids" if "g \<in> fst ` set live" for g
    using assms that by (auto simp: backed_def)
  then show "g \<in> fst ` set live \<Longrightarrow> holds t g e \<Longrightarrow> holds (dropf t ids) g e"
    using drop_out by blast
  show "backed (dropf t ids) live"
    unfolding backed_def
  proof (intro conjI ballI allI impI)
    show "distinct (map fst live)" using assms by (simp add: backed_def)
  next
    fix r assume r: "r \<in> set live"
    obtain g n where gn: "r = (g, n)" by (cases r)
    then have "g \<notin> set ids" using out r by force
    with backed_holds [OF assms(1), of g n] r gn drop_out
    show "case r of (g, n) \<Rightarrow> \<exists>d. holds (dropf t ids) g d \<and> len d = n" by simp
  next
    fix g assume g: "g \<notin> fst ` set live"
    show "absent (dropf t ids) g"
    proof (cases "g \<in> set ids")
      case True
      then show ?thesis by (rule drop_in)
    next
      case False
      then have "absent t g" using assms g by (auto simp: backed_def)
      with False show ?thesis using drop_out by blast
    qed
  qed
qed

lemma backed_distinct: "backed t refs \<Longrightarrow> distinct (map fst refs)"
  by (simp add: backed_def)

end

interpretation ct: file_table holds_file no_file add_file delete_files fits_file "\<lambda>d. int (length d)"
proof unfold_locales
  fix t f d assume "no_file t f" and "fits_file d"
  then show "\<exists>t'. add_file t f d = Some t' \<and> holds_file t' f d"
    by (simp add: add_file_absent holds_file_def rows_of_file_append rows_of_file_rows no_file_def)
next
  fix t f d t' g e assume "add_file t f d = Some t'" and "g \<noteq> f"
  then show "holds_file t' g e = holds_file t g e \<and> no_file t' g = no_file t g"
    by (auto dest!: add_file_Some simp: holds_file_def no_file_def rows_of_file_append rows_of_file_rows)
qed (auto simp: no_file_def holds_file_def rows_of_file_delete)

section \<open>Reading a stored file\<close>

lemma file_rows_row_of:
  assumes "r \<in> set (file_rows f data)"
  shows "0 \<le> fst (snd r) \<and> fst (snd r) < row_count data \<and> snd (snd r) = pieces ROW_BYTES data ! nat (fst (snd r))"
  using assms by (auto simp: file_rows_def row_count_def)

lemma fetch_part_rows:
  assumes "holds_file chunks (p_file_id p) (content (p_file_id p))"
  shows "rows_from content p (fetch_part chunks p)"
    and "0 \<le> p_lo p \<Longrightarrow> p_hi p < row_count (content (p_file_id p)) \<Longrightarrow> all_rows p (fetch_part chunks p)"
proof -
  let ?f = "p_file_id p"
  have sel: "set (select_range chunks ?f lo hi) =
      snd ` {r \<in> set (file_rows ?f (content ?f)). lo \<le> fst (snd r) \<and> fst (snd r) \<le> hi}" for lo hi
    using assms unfolding holds_file_def rows_of_file_def
    by (auto simp: select_range_def simp flip: assms [unfolded holds_file_def rows_of_file_def, THEN conjunct1])
  show "rows_from content p (fetch_part chunks p)"
    using file_rows_row_of [of _ ?f "content ?f"]
    by (fastforce simp: rows_from_def fetch_part_def sel row_ok_def row_of_def)
  show "all_rows p (fetch_part chunks p)" if "0 \<le> p_lo p" "p_hi p < row_count (content ?f)"
    unfolding all_rows_def
  proof (intro conjI allI impI)
    fix no assume "p_lo p \<le> no \<and> no \<le> p_hi p"
    moreover from this that have "(?f, no, pieces ROW_BYTES (content ?f) ! nat no) \<in> set (file_rows ?f (content ?f))"
      by (auto simp: file_rows_def row_count_def intro!: image_eqI [where x = "nat no"])
    ultimately have "(no, pieces ROW_BYTES (content ?f) ! nat no) \<in> set (select_range chunks ?f (p_lo p) (p_hi p))"
      unfolding sel by (force intro: image_eqI)
    then show "\<exists>data. Inr (no, data) \<in> set (fetch_part chunks p)"
      by (auto simp: fetch_part_def)
  qed (auto simp: fetch_part_def)
qed

end
