(* ===== verification/Utf8.thy ===== *)
theory Utf8
  imports Pgvs3_Prelude
begin

text \<open>
  Rust strings are sequences of Unicode scalar values; \<^verbatim>\<open>len\<close>, \<^verbatim>\<open>bytes\<close>, slicing and
  PostgreSQL's \<^verbatim>\<open>COLLATE "C"\<close> see their UTF-8 bytes (\<^verbatim>\<open>src/server.rs\<close>, \<^verbatim>\<open>schema.sql\<close>).
  Here: the encoding, and that it keeps the order and the prefixes of strings.
\<close>

type_synonym ustring = "nat list"

text \<open>\<open>char::from_u32\<close> takes exactly these.\<close>

definition is_char :: "nat \<Rightarrow> bool" where
  "is_char c \<longleftrightarrow> c < 0xD800 \<or> 0xE000 \<le> c \<and> c < 0x110000"

definition utf8_char :: "nat \<Rightarrow> nat list" where
  "utf8_char c =
     (if c < 0x80 then [c]
      else if c < 0x800 then [0xC0 + c div 0x40, 0x80 + c mod 0x40]
      else if c < 0x10000 then [0xE0 + c div 0x1000, 0x80 + c div 0x40 mod 0x40, 0x80 + c mod 0x40]
      else [0xF0 + c div 0x40000, 0x80 + c div 0x1000 mod 0x40, 0x80 + c div 0x40 mod 0x40, 0x80 + c mod 0x40])"

definition utf8 :: "ustring \<Rightarrow> nat list" where
  "utf8 s = concat (map utf8_char s)"

lemma utf8_Nil [simp]: "utf8 [] = []"
  by (simp add: utf8_def)

lemma utf8_Cons [simp]: "utf8 (c # s) = utf8_char c @ utf8 s"
  by (simp add: utf8_def)

lemma utf8_append: "utf8 (s @ t) = utf8 s @ utf8 t"
  by (simp add: utf8_def)

text \<open>Byte order, as \<^verbatim>\<open>COLLATE "C"\<close> and Rust compare strings.\<close>

fun bytes_less :: "nat list \<Rightarrow> nat list \<Rightarrow> bool" where
  "bytes_less _ [] = False"
| "bytes_less [] (_ # _) = True"
| "bytes_less (x # xs) (y # ys) = (x < y \<or> x = y \<and> bytes_less xs ys)"

lemma bytes_less_irrefl [simp]: "\<not> bytes_less xs xs"
  by (induction xs) auto

lemma bytes_less_trans: "bytes_less xs ys \<Longrightarrow> bytes_less ys zs \<Longrightarrow> bytes_less xs zs"
proof (induction xs ys arbitrary: zs rule: bytes_less.induct)
  case (2 y ys zs)
  then show ?case by (cases zs) auto
next
  case (3 x xs y ys zs)
  then show ?case by (cases zs) auto
qed simp

lemma bytes_less_linear: "bytes_less xs ys \<or> xs = ys \<or> bytes_less ys xs"
  by (induction xs ys rule: bytes_less.induct) (auto, metis bytes_less.simps(2) neq_Nil_conv)

lemma bytes_less_append [simp]: "bytes_less (p @ xs) (p @ ys) = bytes_less xs ys"
  by (induction p) auto

lemma bytes_less_append_right: "bytes_less xs ys \<Longrightarrow> length xs = length ys \<Longrightarrow> bytes_less (xs @ us) (ys @ vs)"
  by (induction xs ys rule: bytes_less.induct) auto

lemma bytes_less_head:
  "xs \<noteq> [] \<Longrightarrow> ys \<noteq> [] \<Longrightarrow> hd xs < hd ys \<Longrightarrow> bytes_less (xs @ us) (ys @ vs)"
  by (cases xs; cases ys) auto

section \<open>The encoding of one character\<close>

lemma utf8_char_nonempty [simp]: "utf8_char c \<noteq> []"
  by (simp add: utf8_char_def)

text \<open>Of two characters the smaller one has the smaller encoding, whatever follows.\<close>

lemma digits_less:
  fixes c d n :: nat
  assumes "c < d" and "0 < n"
  shows "c div n < d div n \<or> c div n = d div n \<and> c mod n < d mod n"
proof -
  have "c div n \<le> d div n" using assms by (simp add: div_le_mono)
  moreover have "c = c div n * n + c mod n" "d = d div n * n + d mod n" by simp_all
  ultimately show ?thesis using assms(1) by (metis add_less_cancel_left le_neq_implies_less)
qed

lemma utf8_char_less:
  assumes "c < d" and "d < 0x110000"
  shows "bytes_less (utf8_char c @ us) (utf8_char d @ vs)"
proof -
  have two: "c div 0x40 < d div 0x40 \<or> c div 0x40 = d div 0x40 \<and> c mod 0x40 < d mod 0x40"
    by (rule digits_less) (use assms in auto)
  have three: "c div 0x40 div 0x40 < d div 0x40 div 0x40 \<or> c div 0x40 div 0x40 = d div 0x40 div 0x40 \<and>
      c div 0x40 mod 0x40 < d div 0x40 mod 0x40" if "c div 0x40 < d div 0x40"
    by (rule digits_less) (use that in auto)
  have four: "c div 0x40 div 0x40 div 0x40 < d div 0x40 div 0x40 div 0x40 \<or>
      c div 0x40 div 0x40 div 0x40 = d div 0x40 div 0x40 div 0x40 \<and>
      c div 0x40 div 0x40 mod 0x40 < d div 0x40 div 0x40 mod 0x40"
    if "c div 0x40 div 0x40 < d div 0x40 div 0x40"
    by (rule digits_less) (use that in auto)
  have e: "x div 0x40 div 0x40 = x div 0x1000" "x div 0x1000 div 0x40 = x div 0x40000" for x :: nat
    by (simp_all flip: div_mult2_eq)
  have up: "c div 0x1000 = d div 0x1000" if "c div 0x40 = d div 0x40"
    using that by (simp flip: e)
  have up': "c div 0x40000 = d div 0x40000" if "c div 0x1000 = d div 0x1000"
    using that by (simp flip: e(2))
  consider "d < 0x80" | "c < 0x80" "0x80 \<le> d" | "0x80 \<le> c" "d < 0x800" | "0x80 \<le> c" "c < 0x800" "0x800 \<le> d"
    | "0x800 \<le> c" "d < 0x10000" | "0x800 \<le> c" "c < 0x10000" "0x10000 \<le> d" | "0x10000 \<le> c"
    using assms by linarith
  then show ?thesis
  proof cases
    case 4
    then have "c div 0x40 < 0x20" by auto
    with 4 show ?thesis by (intro bytes_less_head) (auto simp: utf8_char_def)
  next
    case 6
    then have "c div 0x1000 < 0x10" by auto
    with 6 show ?thesis by (intro bytes_less_head) (auto simp: utf8_char_def)
  next
    case 2
    then show ?thesis by (intro bytes_less_head) (auto simp: utf8_char_def)
  next
    case 5
    then show ?thesis using two three assms by (auto simp: utf8_char_def e)
  next
    case 7
    then have "c div 0x40000 < d div 0x40000 \<or>
        c div 0x40000 = d div 0x40000 \<and> (c div 0x1000 mod 0x40 < d div 0x1000 mod 0x40 \<or>
        c div 0x1000 = d div 0x1000 \<and> (c div 0x40 mod 0x40 < d div 0x40 mod 0x40 \<or>
        c div 0x40 = d div 0x40 \<and> c mod 0x40 < d mod 0x40))"
      using two three four up up' unfolding e by metis
    with 7 assms show ?thesis by (auto simp: utf8_char_def)
  qed (use two assms in \<open>auto simp: utf8_char_def\<close>)
qed

lemma utf8_char_inj_append:
  assumes "c < 0x110000" and "d < 0x110000"
  shows "utf8_char c @ us = utf8_char d @ vs \<longleftrightarrow> c = d \<and> us = vs"
  using utf8_char_less [of c d us vs] utf8_char_less [of d c vs us] assms
  by (metis bytes_less_irrefl linorder_neq_iff same_append_eq)

section \<open>Order and prefixes of strings\<close>

text \<open>Comparing the bytes of two strings is comparing their characters.\<close>

lemma utf8_less:
  assumes "\<forall>c \<in> set s. c < 0x110000" and "\<forall>c \<in> set t. c < 0x110000"
  shows "bytes_less (utf8 s) (utf8 t) = bytes_less s t"
  using assms
proof (induction s t rule: bytes_less.induct)
  case (2 y ys)
  then show ?case using utf8_char_nonempty [of y] by (cases "utf8_char y") auto
next
  case (3 x xs y ys)
  consider "x < y" | "x = y" | "y < x" by linarith
  then show ?case
  proof cases
    case 1
    then show ?thesis using 3 utf8_char_less [of x y] by simp
  next
    case 2
    then show ?thesis using 3 by simp
  next
    case 3
    then have "bytes_less (utf8 (y # ys)) (utf8 (x # xs))"
      using utf8_char_less [of y x] 3 "3.prems" by simp
    then have "\<not> bytes_less (utf8 (x # xs)) (utf8 (y # ys))"
      using bytes_less_trans bytes_less_irrefl by blast
    with 3 show ?thesis by simp
  qed
qed simp

lemma utf8_inj:
  "\<forall>c \<in> set s. c < 0x110000 \<Longrightarrow> \<forall>c \<in> set t. c < 0x110000 \<Longrightarrow> utf8 s = utf8 t \<longleftrightarrow> s = t"
  using utf8_less [of s t] utf8_less [of t s] bytes_less_linear [of s t] by auto

end
