(* ===== verification/Store.thy ===== *)
theory Store
  imports Chunks Utf8
begin

text \<open>
  The tables of \<^verbatim>\<open>schema.sql\<close> and the transactions of \<^verbatim>\<open>src/db.rs\<close> over them. Each
  transaction is one function of the database; an error rolls it back, so it
  returns the state unchanged. The advisory lock on the key and the row locks
  make each transaction one atomic step; \<^verbatim>\<open>nextval\<close> is its own step, never rolled
  back. Times and the UUID of an upload are arguments.
\<close>

section \<open>Rows\<close>

text \<open>Rust strings and PostgreSQL texts are \<open>ustring\<close>s, lists of code points.\<close>

record object_row =
  o_bucket :: ustring
  o_key :: ustring
  o_file_id :: int
  o_size :: int
  o_etag :: bytes
  o_created :: int
  o_parts :: "int list option"
  o_part_ends :: "int list option"

record upload_row =
  up_id :: ustring
  up_bucket :: ustring
  up_key :: ustring
  up_created :: int

record part_row =
  pt_upload :: ustring
  pt_no :: int
  pt_file_id :: int
  pt_size :: int
  pt_sha :: bytes

record db =
  d_buckets :: "(ustring \<times> int) list"
  d_objects :: "object_row list"
  d_chunks :: "chunk_row list"
  d_uploads :: "upload_row list"
  d_parts :: "part_row list"
  d_next_id :: int

definition db_empty :: db where
  "db_empty = \<lparr>d_buckets = [], d_objects = [], d_chunks = [], d_uploads = [], d_parts = [], d_next_id = 1\<rparr>"

text \<open>What a failed transaction reports.\<close>

datatype db_error = NoBucket | IngestAborted | PreconditionFailed | SqlError | WriterGone

datatype put_condition = Unconditional | IfAbsent | IfMatch ustring

datatype writer_target = ToObject ustring ustring put_condition | ToPart ustring int

record object_write =
  w_file_id :: int
  w_size :: int
  w_etag :: bytes
  w_parts :: "(int list \<times> int list) option"
  w_condition :: put_condition

definition row_meta :: "object_row \<Rightarrow> meta" where
  "row_meta r = \<lparr>m_size = o_size r, m_etag = o_etag r, m_created = o_created r, m_file_id = o_file_id r,
     m_parts = o_parts r, m_part_ends = o_part_ends r\<rparr>"

section \<open>Hexadecimal digests\<close>

definition hex_digit :: "nat \<Rightarrow> nat" where
  "hex_digit d = (if d < 10 then 48 + d else 87 + d)"

definition hex :: "bytes \<Rightarrow> ustring" where
  "hex bs = concat (map (\<lambda>b. [hex_digit (unat b div 16), hex_digit (unat b mod 16)]) bs)"

section \<open>Queries\<close>

definition at_key :: "ustring \<Rightarrow> ustring \<Rightarrow> object_row \<Rightarrow> bool" where
  "at_key b k r \<longleftrightarrow> o_bucket r = b \<and> o_key r = k"

definition find_object :: "db \<Rightarrow> ustring \<Rightarrow> ustring \<Rightarrow> object_row option" where
  "find_object db b k = List.find (at_key b k) (d_objects db)"

definition bucket_exists :: "db \<Rightarrow> ustring \<Rightarrow> bool" where
  "bucket_exists db b \<longleftrightarrow> b \<in> fst ` set (d_buckets db)"

definition upload_exists :: "db \<Rightarrow> ustring \<Rightarrow> ustring \<Rightarrow> ustring \<Rightarrow> bool" where
  "upload_exists db uid b k \<longleftrightarrow> (\<exists>u \<in> set (d_uploads db). up_id u = uid \<and> up_bucket u = b \<and> up_key u = k)"

definition parts_of :: "db \<Rightarrow> ustring \<Rightarrow> part_row list" where
  "parts_of db uid = filter (\<lambda>p. pt_upload p = uid) (d_parts db)"

section \<open>Publishing and reaping\<close>

text \<open>The next value of the sequence behind \<^verbatim>\<open>objects.file_id\<close>; an \<open>int8\<close> sequence ends.\<close>

definition nextval :: "db \<Rightarrow> db_error + (int \<times> db)" where
  "nextval db = (if d_next_id db < 2 ^ 63
     then Inr (d_next_id db, db\<lparr>d_next_id := d_next_id db + 1\<rparr>) else Inl SqlError)"

definition written_row :: "int \<Rightarrow> ustring \<Rightarrow> ustring \<Rightarrow> object_write \<Rightarrow> object_row" where
  "written_row now b k w =
     \<lparr>o_bucket = b, o_key = k, o_file_id = w_file_id w, o_size = w_size w, o_etag = w_etag w,
      o_created = now, o_parts = map_option fst (w_parts w), o_part_ends = map_option snd (w_parts w)\<rparr>"

text \<open>
  INSERT ... ON CONFLICT (bucket, key) DO UPDATE: an error if the bucket is not
  there (foreign key) or another row has the file id (UNIQUE).
\<close>

definition upsert_object :: "int \<Rightarrow> ustring \<Rightarrow> ustring \<Rightarrow> object_write \<Rightarrow> db \<Rightarrow> db_error + db" where
  "upsert_object now b k w db =
     (let new = written_row now b k w
      in if \<not> bucket_exists db b then Inl SqlError
         else if \<exists>r \<in> set (d_objects db). \<not> at_key b k r \<and> o_file_id r = w_file_id w then Inl SqlError
         else Inr (db\<lparr>d_objects :=
           (case find_object db b k of
              None \<Rightarrow> d_objects db @ [new]
            | Some _ \<Rightarrow> map (\<lambda>r. if at_key b k r then new else r) (d_objects db))\<rparr>))"

definition dead_ids :: "int \<Rightarrow> int list option \<Rightarrow> int list" where
  "dead_ids file_id parts = (case parts of None \<Rightarrow> [] | Some ids \<Rightarrow> ids) @ [file_id]"

definition reap :: "int \<Rightarrow> int list option \<Rightarrow> db \<Rightarrow> db" where
  "reap file_id parts db = db\<lparr>d_chunks := delete_files (d_chunks db) (dead_ids file_id parts)\<rparr>"

definition write_allowed :: "put_condition \<Rightarrow> object_row option \<Rightarrow> bool" where
  "write_allowed c old =
     (case c of
        Unconditional \<Rightarrow> True
      | IfAbsent \<Rightarrow> old = None
      | IfMatch want \<Rightarrow> (case old of Some row \<Rightarrow> hex (o_etag row) = want | None \<Rightarrow> False))"

definition swap_object :: "int \<Rightarrow> ustring \<Rightarrow> ustring \<Rightarrow> object_write \<Rightarrow> db \<Rightarrow> db_error + db" where
  "swap_object now b k w db =
     (let old = find_object db b k
      in if \<not> write_allowed (w_condition w) old then Inl PreconditionFailed
         else
           (case upsert_object now b k w db of
              Inl e \<Rightarrow> Inl e
            | Inr db' \<Rightarrow>
                (case old of
                   None \<Rightarrow> Inr db'
                 | Some r \<Rightarrow> Inr (reap (o_file_id r) (o_parts r) db'))))"

text \<open>The part row replaces an earlier attempt at the same part, rows included.\<close>

definition commit_part :: "ustring \<Rightarrow> int \<Rightarrow> int \<Rightarrow> int \<Rightarrow> bytes \<Rightarrow> db \<Rightarrow> db_error + db" where
  "commit_part uid no file_id tot digest db =
     (let old = List.find (\<lambda>p. pt_upload p = uid \<and> pt_no p = no) (d_parts db);
          db1 = db\<lparr>d_parts := filter (\<lambda>p. \<not> (pt_upload p = uid \<and> pt_no p = no)) (d_parts db)\<rparr>;
          db2 = (case old of None \<Rightarrow> db1
                 | Some p \<Rightarrow> db1\<lparr>d_chunks := delete_files (d_chunks db1) [pt_file_id p]\<rparr>)
      in if uid \<notin> up_id ` set (d_uploads db2) then Inl SqlError
         else Inr (db2\<lparr>d_parts := d_parts db2 @
           [\<lparr>pt_upload = uid, pt_no = no, pt_file_id = file_id, pt_size = tot, pt_sha = digest\<rparr>]\<rparr>))"

text \<open>
  The transaction of one ingest: the COPY of the framed messages, then the
  publication of the object or the record of the part.
\<close>

definition ingest_tx :: "(bytes \<Rightarrow> bytes) \<Rightarrow> int \<Rightarrow> int \<Rightarrow> writer_target \<Rightarrow> ingest_msg list \<Rightarrow> db \<Rightarrow>
    (db_error + (int \<times> bytes)) \<times> db" where
  "ingest_tx sha now file_id target msgs db =
     (if (case target of ToObject b _ _ \<Rightarrow> \<not> bucket_exists db b | ToPart _ _ \<Rightarrow> False)
      then (Inl NoBucket, db)
      else
        (case ingest_stream sha file_id msgs of
           None \<Rightarrow> (Inl IngestAborted, db)
         | Some (stream, tot, digest) \<Rightarrow>
             (case Option.bind (copy_parse stream) (copy_in (d_chunks db)) of
                None \<Rightarrow> (Inl SqlError, db)
              | Some chunks \<Rightarrow>
                  (let tx = db\<lparr>d_chunks := chunks\<rparr>
                   in case (case target of
                        ToObject b k c \<Rightarrow>
                          swap_object now b k \<lparr>w_file_id = file_id, w_size = tot, w_etag = digest,
                            w_parts = None, w_condition = c\<rparr> tx
                      | ToPart uid no \<Rightarrow> commit_part uid no file_id tot digest tx) of
                     Inl e \<Rightarrow> (Inl e, db)
                   | Inr db' \<Rightarrow> (Inr (tot, digest), db')))))"

definition delete_tx :: "ustring \<Rightarrow> ustring \<Rightarrow> db \<Rightarrow> bool \<times> db" where
  "delete_tx b k db =
     (let old = find_object db b k;
          db1 = db\<lparr>d_objects := filter (\<lambda>r. \<not> at_key b k r) (d_objects db)\<rparr>
      in case old of
           None \<Rightarrow> (False, db1)
         | Some r \<Rightarrow> (True, reap (o_file_id r) (o_parts r) db1))"

section \<open>Buckets\<close>

definition create_bucket :: "int \<Rightarrow> ustring \<Rightarrow> db \<Rightarrow> db" where
  "create_bucket now b db =
     (if bucket_exists db b then db else db\<lparr>d_buckets := d_buckets db @ [(b, now)]\<rparr>)"

datatype bucket_deletion = BucketDeleted | BucketNotEmpty | BucketNotFound

definition delete_bucket :: "ustring \<Rightarrow> db \<Rightarrow> bucket_deletion \<times> db" where
  "delete_bucket b db =
     (if \<not> bucket_exists db b then (BucketNotFound, db)
      else if (\<exists>r \<in> set (d_objects db). o_bucket r = b) \<or> (\<exists>u \<in> set (d_uploads db). up_bucket u = b)
      then (BucketNotEmpty, db)
      else (BucketDeleted, db\<lparr>d_buckets := filter (\<lambda>x. fst x \<noteq> b) (d_buckets db)\<rparr>))"

section \<open>Multipart uploads\<close>

text \<open>A second Create of the key returns the id of the upload in progress.\<close>

definition create_upload :: "ustring \<Rightarrow> int \<Rightarrow> ustring \<Rightarrow> ustring \<Rightarrow> db \<Rightarrow> (db_error + ustring option) \<times> db" where
  "create_upload uuid now b k db =
     (if \<not> bucket_exists db b then (Inr None, db)
      else
        (case List.find (\<lambda>u. up_bucket u = b \<and> up_key u = k) (d_uploads db) of
           Some u \<Rightarrow> (Inr (Some (up_id u)), db)
         | None \<Rightarrow>
             if uuid \<in> up_id ` set (d_uploads db) then (Inl SqlError, db)
             else (Inr (Some uuid), db\<lparr>d_uploads := d_uploads db @
                     [\<lparr>up_id = uuid, up_bucket = b, up_key = k, up_created = now\<rparr>]\<rparr>)))"

datatype completed = CompleteDone ustring ustring bytes int | InvalidPart | NoSuchUpload

text \<open>The loop over the listed parts and the recorded ones; \<open>size\<close> is an \<open>i64\<close> sum.\<close>

fun complete_scan :: "(int \<times> ustring) list \<Rightarrow> part_row list \<Rightarrow> int \<Rightarrow>
    (int list \<times> int list \<times> int \<times> bytes) option" where
  "complete_scan (w # ws) (r # rs) size' =
     (if fst w \<noteq> pt_no r \<or> snd w \<noteq> hex (pt_sha r) then None
      else
        (let size'' = as_i64 (size' + pt_size r)
         in case complete_scan ws rs size'' of
              None \<Rightarrow> None
            | Some (ids, ends, tot, shas) \<Rightarrow>
                Some (pt_file_id r # ids, size'' # ends, tot, pt_sha r @ shas)))"
| "complete_scan _ _ size' = Some ([], [], size', [])"

text \<open>DELETE FROM uploads, whose parts go with it (ON DELETE CASCADE).\<close>

definition drop_upload :: "ustring \<Rightarrow> db \<Rightarrow> db" where
  "drop_upload uid db =
     db\<lparr>d_uploads := filter (\<lambda>u. up_id u \<noteq> uid) (d_uploads db),
        d_parts := filter (\<lambda>p. pt_upload p \<noteq> uid) (d_parts db)\<rparr>"

definition complete_tx :: "(bytes \<Rightarrow> bytes) \<Rightarrow> int \<Rightarrow> ustring \<Rightarrow> ustring \<Rightarrow> ustring \<Rightarrow> (int \<times> ustring) list \<Rightarrow>
    db \<Rightarrow> (db_error + (completed \<times> (int list \<times> int list))) \<times> db" where
  "complete_tx sha now uid req_bucket req_key listed db =
     (case List.find (\<lambda>u. up_id u = uid) (d_uploads db) of
        None \<Rightarrow> (Inr (NoSuchUpload, [], []), db)
      | Some up \<Rightarrow>
          if up_bucket up \<noteq> req_bucket \<or> up_key up \<noteq> req_key then (Inr (NoSuchUpload, [], []), db)
          else
            (let rows = sort_key pt_no (parts_of db uid);
                 want = sort_key fst listed
             in if want = [] \<or> length want \<noteq> length rows then (Inr (InvalidPart, [], []), db)
                else
                  (case complete_scan want rows 0 of
                     None \<Rightarrow> (Inr (InvalidPart, [], []), db)
                   | Some (ids, ends, size', shas) \<Rightarrow>
                       (let etag = sha shas
                        in case swap_object now (up_bucket up) (up_key up)
                               \<lparr>w_file_id = ids ! 0, w_size = size', w_etag = etag,
                                w_parts = Some (ids, ends), w_condition = Unconditional\<rparr> db of
                             Inl e \<Rightarrow> (Inl e, db)
                           | Inr db' \<Rightarrow>
                               (Inr (CompleteDone (up_bucket up) (up_key up) etag size', ids, ends),
                                drop_upload uid db')))))"

definition abort_upload :: "ustring \<Rightarrow> ustring \<Rightarrow> ustring \<Rightarrow> db \<Rightarrow> bool \<times> db" where
  "abort_upload uid b k db =
     (if \<not> upload_exists db uid b k then (False, db)
      else
        (let ids = map pt_file_id (parts_of db uid);
             db1 = drop_upload uid db
         in (True, db1\<lparr>d_chunks := delete_files (d_chunks db1) ids\<rparr>)))"

end
