(* ===== verification/Store_Inv.thy ===== *)
theory Store_Inv
  imports Store
begin

text \<open>
  The invariant of the database and what its transactions do to the objects and
  parts it stands for. The invariant: the chunk table holds exactly the files the
  object rows and the part rows refer to, each whole (an instance of
  \<open>file_table\<close>), and the keys the schema declares are unique. The abstract state
  forgets file ids and rows: it maps keys to bytes and digests.
\<close>

section \<open>The files a row refers to\<close>

definition object_refs :: "object_row \<Rightarrow> (int \<times> int) list" where
  "object_refs r = map (\<lambda>(f, b, l). (f, l)) (segments (row_meta r))"

definition part_ref :: "part_row \<Rightarrow> int \<times> int" where
  "part_ref p = (pt_file_id p, pt_size p)"

definition refs :: "db \<Rightarrow> (int \<times> int) list" where
  "refs db = concat (map object_refs (d_objects db)) @ map part_ref (d_parts db)"

definition okey :: "object_row \<Rightarrow> ustring \<times> ustring" where
  "okey r = (o_bucket r, o_key r)"

definition ukey :: "upload_row \<Rightarrow> ustring \<times> ustring" where
  "ukey u = (up_bucket u, up_key u)"

definition pkey :: "part_row \<Rightarrow> ustring \<times> int" where
  "pkey p = (pt_upload p, pt_no p)"

text \<open>Both arrays of a multipart row, or neither; \<open>file_id\<close> is the first part.\<close>

definition row_shape :: "object_row \<Rightarrow> bool" where
  "row_shape r \<longleftrightarrow>
     (case (o_parts r, o_part_ends r) of
        (None, None) \<Rightarrow> True
      | (Some ids, Some ends) \<Rightarrow> length ids = length ends \<and> ids \<noteq> [] \<and> hd ids = o_file_id r
      | _ \<Rightarrow> False) \<and>
     sum_list (map snd (object_refs r)) = o_size r"

definition db_ok :: "db \<Rightarrow> bool" where
  "db_ok db \<longleftrightarrow>
     ct.backed (d_chunks db) (refs db) \<and>
     (\<forall>f \<in> fst ` set (refs db). 0 < f \<and> f < d_next_id db) \<and>
     1 \<le> d_next_id db \<and> d_next_id db \<le> 2 ^ 63 \<and>
     distinct (map fst (d_buckets db)) \<and>
     distinct (map okey (d_objects db)) \<and>
     (\<forall>r \<in> set (d_objects db). row_shape r \<and> bucket_exists db (o_bucket r)) \<and>
     distinct (map up_id (d_uploads db)) \<and> distinct (map ukey (d_uploads db)) \<and>
     (\<forall>u \<in> set (d_uploads db). bucket_exists db (up_bucket u)) \<and>
     distinct (map pkey (d_parts db)) \<and>
     (\<forall>p \<in> set (d_parts db). pt_upload p \<in> up_id ` set (d_uploads db))"

lemma at_key_okey: "at_key b k r \<longleftrightarrow> okey r = (b, k)"
  by (simp add: at_key_def okey_def)

lemma find_object_Some:
  "distinct (map okey (d_objects db)) \<Longrightarrow>
    find_object db b k = Some r \<longleftrightarrow> r \<in> set (d_objects db) \<and> okey r = (b, k)"
  by (simp add: find_object_def find_unique [of okey _ _ "(b, k)"] at_key_okey)

lemma find_object_None: "find_object db b k = None \<longleftrightarrow> (\<forall>r \<in> set (d_objects db). okey r \<noteq> (b, k))"
  by (simp add: find_object_def find_None at_key_okey)

lemma segment_scan_ids: "map fst (segment_scan prev xs) = map fst xs"
  by (induction prev xs rule: segment_scan.induct) auto

lemma object_refs_single:
  "o_parts r = None \<Longrightarrow> object_refs r = [(o_file_id r, o_size r)]"
  by (simp add: object_refs_def segments_def row_meta_def)

lemma object_refs_parts:
  assumes "o_parts r = Some ids" and "o_part_ends r = Some ends" and "length ids = length ends"
  shows "map fst (object_refs r) = ids"
proof -
  have "map fst (object_refs r) = map fst (segment_scan 0 (zip ids ends))"
    using assms by (simp add: object_refs_def segments_def row_meta_def comp_def case_prod_unfold)
  then show ?thesis using assms(3) by (simp add: segment_scan_ids)
qed

lemma row_shape_ids:
  assumes "row_shape r"
  shows "set (dead_ids (o_file_id r) (o_parts r)) = fst ` set (object_refs r)"
    and "o_file_id r \<in> fst ` set (object_refs r)"
proof -
  have "set (dead_ids (o_file_id r) (o_parts r)) = fst ` set (object_refs r) \<and>
    o_file_id r \<in> fst ` set (object_refs r)"
  proof (cases "o_parts r")
    case None
    then show ?thesis by (simp add: object_refs_single dead_ids_def)
  next
    case (Some ids)
    with assms obtain ends where "o_part_ends r = Some ends" "length ids = length ends"
      and ids: "ids \<noteq> []" "hd ids = o_file_id r"
      by (auto simp: row_shape_def split: option.splits)
    with Some have "fst ` set (object_refs r) = set ids"
      using object_refs_parts by (metis list.set_map)
    moreover have "o_file_id r \<in> set ids" using ids hd_in_set by metis
    ultimately show ?thesis using Some by (auto simp: dead_ids_def)
  qed
  then show "set (dead_ids (o_file_id r) (o_parts r)) = fst ` set (object_refs r)"
    and "o_file_id r \<in> fst ` set (object_refs r)" by auto
qed

lemma object_bytes_refs: "object_bytes content (row_meta r) = concat (map (content \<circ> fst) (object_refs r))"
  by (simp add: object_bytes_def object_refs_def comp_def case_prod_unfold)

section \<open>The table after an addition and a deletion\<close>

lemma copy_file:
  assumes "ct.backed c rs" and "f \<notin> fst ` set rs" and "fits_file d"
  obtains c' where "copy_in c (file_rows f d) = Some c'" and "file_bytes c' f = d"
    and "ct.backed c' ((f, int (length d)) # rs)"
    and "\<And>g. g \<in> fst ` set rs \<Longrightarrow> file_bytes c' g = file_bytes c g"
proof -
  obtain c' where c': "add_file c f d = Some c'" "holds_file c' f d"
    "ct.backed c' ((f, int (length d)) # rs)"
    "\<And>g e. g \<in> fst ` set rs \<Longrightarrow> holds_file c g e \<Longrightarrow> holds_file c' g e"
    by (rule ct.backed_add [OF assms]) blast
  have "file_bytes c' g = file_bytes c g" if g: "g \<in> fst ` set rs" for g
  proof -
    obtain e where "holds_file c g e" using ct.backed_holds [OF assms(1)] g by force
    with c'(4) [OF g this] show ?thesis by (simp add: holds_file_bytes)
  qed
  with c' that show thesis by (auto simp: add_file_def holds_file_bytes)
qed

lemma drop_files:
  assumes "ct.backed c (dead @ live)" and "set ids = fst ` set dead"
  shows "ct.backed (delete_files c ids) live"
    and "g \<in> fst ` set live \<Longrightarrow> file_bytes (delete_files c ids) g = file_bytes c g"
proof -
  show "ct.backed (delete_files c ids) live" by (rule ct.backed_drop [OF assms])
  assume g: "g \<in> fst ` set live"
  then obtain e where "holds_file c g e" using ct.backed_holds [OF assms(1)] by force
  with ct.backed_drop(2) [OF assms g this] show "file_bytes (delete_files c ids) g = file_bytes c g"
    by (simp add: holds_file_bytes)
qed

section \<open>Publishing a row\<close>

text \<open>The object rows at other keys; an upsert leaves them as they are.\<close>

definition others :: "db \<Rightarrow> ustring \<Rightarrow> ustring \<Rightarrow> object_row list" where
  "others db b k = filter (\<lambda>r. \<not> at_key b k r) (d_objects db)"

lemma others_None: "find_object db b k = None \<Longrightarrow> others db b k = d_objects db"
  by (auto simp: others_def find_object_None at_key_okey filter_id_conv)

lemma others_Some:
  assumes "distinct (map okey (d_objects db))" and "find_object db b k = Some r"
  obtains us vs where "d_objects db = us @ r # vs" and "others db b k = us @ vs" and "okey r = (b, k)"
proof -
  have r: "r \<in> set (d_objects db)" "okey r = (b, k)"
    using assms(2) by (simp_all add: find_object_Some [OF assms(1)])
  obtain us vs where "d_objects db = us @ r # vs" "others db b k = us @ vs"
    using filter_split_unique [OF assms(1) r(1), of "at_key b k"]
    by (auto simp: others_def at_key_okey r(2))
  with that r show thesis by blast
qed

lemma upsert_objects:
  assumes keys: "distinct (map okey (d_objects db))" and "upsert_object now b k w db = Inr db'"
  shows "db' = db\<lparr>d_objects := d_objects db'\<rparr>"
    and "mset (d_objects db') = add_mset (written_row now b k w) (mset (others db b k))"
proof -
  let ?new = "written_row now b k w"
  have db': "db' = db\<lparr>d_objects := (case find_object db b k of None \<Rightarrow> d_objects db @ [?new]
      | Some _ \<Rightarrow> map (\<lambda>r. if at_key b k r then ?new else r) (d_objects db))\<rparr>"
    using assms(2) by (simp add: upsert_object_def Let_def split: if_splits)
  then show "db' = db\<lparr>d_objects := d_objects db'\<rparr>" by simp
  show "mset (d_objects db') = add_mset ?new (mset (others db b k))"
  proof (cases "find_object db b k")
    case None
    then show ?thesis by (simp add: db' others_None)
  next
    case (Some r)
    then obtain us vs where objs: "d_objects db = us @ r # vs" "others db b k = us @ vs" and r: "okey r = (b, k)"
      using others_Some [OF keys] by blast
    with keys have "\<forall>x \<in> set (us @ vs). \<not> at_key b k x" by (force simp: at_key_okey)
    then have "map (\<lambda>x. if at_key b k x then ?new else x) us = us"
      "map (\<lambda>x. if at_key b k x then ?new else x) vs = vs"
      by (simp_all add: map_idI)
    then show ?thesis by (simp add: db' Some objs r at_key_okey)
  qed
qed

lemma dead_refs:
  assumes "distinct (map okey (d_objects db))"
  shows "mset (concat (map object_refs (d_objects db))) =
    mset (case find_object db b k of None \<Rightarrow> [] | Some r \<Rightarrow> object_refs r) +
    mset (concat (map object_refs (others db b k)))"
proof (cases "find_object db b k")
  case None
  then show ?thesis by (simp add: others_None)
next
  case (Some r)
  then obtain us vs where "d_objects db = us @ r # vs" "others db b k = us @ vs"
    using others_Some [OF assms] by blast
  with Some show ?thesis by simp
qed

lemma distinct_middle: "distinct (map f (xs @ ys @ zs @ ws)) \<Longrightarrow> f ` set ys \<inter> f ` set zs = {}"
  by auto

text \<open>
  A permitted swap succeeds: the row is published, the files of the row it
  replaces are gone, every other file is as it was.
\<close>

text \<open>The file of the new row is no other row's, so the unique constraint holds.\<close>

lemma swap_unique:
  assumes shapes: "\<forall>r \<in> set (d_objects db). row_shape r" and shape: "row_shape (written_row now b k w)"
    and backed: "ct.backed (d_chunks db) (dead @ object_refs (written_row now b k w) @
      concat (map object_refs (others db b k)) @ rest)"
  shows "\<not> (\<exists>r \<in> set (d_objects db). \<not> at_key b k r \<and> o_file_id r = w_file_id w)"
proof (intro notI, elim bexE conjE)
  fix r assume r: "r \<in> set (d_objects db)" "\<not> at_key b k r" and eq: "o_file_id r = w_file_id w"
  then have other: "r \<in> set (others db b k)" by (simp add: others_def)
  have "o_file_id r \<in> fst ` set (object_refs r)" using row_shape_ids(2) shapes r by simp
  moreover have "set (object_refs r) \<subseteq> set (concat (map object_refs (others db b k)))" using other by auto
  ultimately have "o_file_id r \<in> fst ` set (concat (map object_refs (others db b k)))" by (meson image_mono subsetD)
  moreover have "w_file_id w \<in> fst ` set (object_refs (written_row now b k w))"
    using row_shape_ids(2) [OF shape] by (simp add: written_row_def)
  moreover have "fst ` set (object_refs (written_row now b k w)) \<inter> fst ` set (concat (map object_refs (others db b k))) = {}"
    by (rule distinct_middle [OF ct.backed_distinct [OF backed]])
  ultimately show False using eq by (metis disjoint_iff)
qed

text \<open>Reaping the replaced row leaves every other file as it is.\<close>

lemma reap_replaced:
  assumes shapes: "\<forall>r \<in> set (d_objects db). row_shape r" and keys: "distinct (map okey (d_objects db))"
    and live: "ct.backed (d_chunks db) ((case find_object db b k of None \<Rightarrow> [] | Some r \<Rightarrow> object_refs r) @ live)"
    and chunks: "d_chunks db1 = d_chunks db"
    and db': "db' = (case find_object db b k of None \<Rightarrow> db1 | Some r \<Rightarrow> reap (o_file_id r) (o_parts r) db1)"
  shows "ct.backed (d_chunks db') live" and "f \<in> fst ` set live \<Longrightarrow> file_bytes (d_chunks db') f = file_bytes (d_chunks db) f"
proof -
  have "ct.backed (d_chunks db') live \<and> (\<forall>f \<in> fst ` set live. file_bytes (d_chunks db') f = file_bytes (d_chunks db) f)"
  proof (cases "find_object db b k")
    case None
    with live show ?thesis by (simp add: db' chunks)
  next
    case (Some r)
    then have "row_shape r" using shapes find_object_Some [OF keys] by blast
    then have "set (dead_ids (o_file_id r) (o_parts r)) = fst ` set (object_refs r)" by (rule row_shape_ids)
    with drop_files [of "d_chunks db" "object_refs r" live] live Some show ?thesis
      by (simp add: db' reap_def chunks)
  qed
  then show "ct.backed (d_chunks db') live"
    and "f \<in> fst ` set live \<Longrightarrow> file_bytes (d_chunks db') f = file_bytes (d_chunks db) f" by blast+
qed

lemma swap_object_spec:
  assumes keys: "distinct (map okey (d_objects db))"
    and shapes: "\<forall>r \<in> set (d_objects db). row_shape r"
    and bucket: "bucket_exists db b"
    and shape: "row_shape (written_row now b k w)"
    and backed: "ct.backed (d_chunks db)
      (object_refs (written_row now b k w) @ concat (map object_refs (d_objects db)) @ rest)"
    and allowed: "write_allowed (w_condition w) (find_object db b k)"
  obtains db' where "swap_object now b k w db = Inr db'"
    and "db' = db\<lparr>d_objects := d_objects db', d_chunks := d_chunks db'\<rparr>"
    and "mset (d_objects db') = add_mset (written_row now b k w) (mset (others db b k))"
    and "ct.backed (d_chunks db')
      (object_refs (written_row now b k w) @ concat (map object_refs (others db b k)) @ rest)"
    and "\<And>f. f \<in> fst ` set (object_refs (written_row now b k w) @ concat (map object_refs (others db b k)) @ rest) \<Longrightarrow>
      file_bytes (d_chunks db') f = file_bytes (d_chunks db) f"
proof -
  let ?new = "written_row now b k w"
  let ?live = "object_refs ?new @ concat (map object_refs (others db b k)) @ rest"
  let ?old = "case find_object db b k of None \<Rightarrow> [] | Some r \<Rightarrow> object_refs r"
  have "mset (object_refs ?new @ concat (map object_refs (d_objects db)) @ rest) = mset (?old @ ?live)"
    by (simp add: dead_refs [OF keys, of b k])
  then have live: "ct.backed (d_chunks db) (?old @ ?live)"
    using backed ct.backed_mset by blast
  with swap_unique [OF shapes shape live] bucket obtain db1 where up: "upsert_object now b k w db = Inr db1"
    unfolding upsert_object_def Let_def by simp
  note db1 = upsert_objects [OF keys up]
  obtain objs where objs: "db1 = db\<lparr>d_objects := objs\<rparr>" using db1(1) by blast
  define db' where "db' = (case find_object db b k of None \<Rightarrow> db1 | Some r \<Rightarrow> reap (o_file_id r) (o_parts r) db1)"
  have "d_chunks db1 = d_chunks db" by (simp add: objs)
  note reaped = reap_replaced [OF shapes keys live this db'_def]
  have "swap_object now b k w db = Inr db'"
    using allowed by (simp add: swap_object_def Let_def up db'_def split: option.split)
  moreover have "db' = db\<lparr>d_objects := d_objects db', d_chunks := d_chunks db'\<rparr>"
    by (simp add: db'_def reap_def objs split: option.split)
  moreover have "d_objects db' = d_objects db1"
    by (simp add: db'_def reap_def split: option.split)
  ultimately show thesis using that db1(2) reaped by metis
qed

lemma swap_object_denied:
  "\<not> write_allowed (w_condition w) (find_object db b k) \<Longrightarrow> swap_object now b k w db = Inl PreconditionFailed"
  by (simp add: swap_object_def)

section \<open>Lookups of other keys\<close>

lemma find_other_map:
  "(b', k') \<noteq> (b, k) \<Longrightarrow> okey new = (b, k) \<Longrightarrow>
    List.find (at_key b' k') (map (\<lambda>r. if at_key b k r then new else r) rs) = List.find (at_key b' k') rs"
  by (induction rs) (auto simp: at_key_okey)

lemma find_other_append:
  "(b', k') \<noteq> (b, k) \<Longrightarrow> okey new = (b, k) \<Longrightarrow>
    List.find (at_key b' k') (rs @ [new]) = List.find (at_key b' k') rs"
  by (induction rs) (auto simp: at_key_okey)

lemma find_other_filter:
  "(b', k') \<noteq> (b, k) \<Longrightarrow>
    List.find (at_key b' k') (filter (\<lambda>r. \<not> at_key b k r) rs) = List.find (at_key b' k') rs"
  by (induction rs) (auto simp: at_key_okey)

lemma find_swap_other:
  assumes "swap_object now b k w db = Inr db'" and other: "(b', k') \<noteq> (b, k)"
  shows "find_object db' b' k' = find_object db b' k'"
proof -
  have new: "okey (written_row now b k w) = (b, k)" by (simp add: written_row_def okey_def)
  obtain db1 where up: "upsert_object now b k w db = Inr db1" and objs: "d_objects db' = d_objects db1"
    using assms(1) by (auto simp: swap_object_def Let_def reap_def split: if_splits sum.splits option.splits)
  have "List.find (at_key b' k') (d_objects db1) = List.find (at_key b' k') (d_objects db)"
    using up find_other_map [OF other new] find_other_append [OF other new]
    by (auto simp: upsert_object_def Let_def split: if_splits option.splits)
  then show ?thesis by (simp add: find_object_def objs)
qed

lemma find_ingest_other:
  assumes "ingest_tx sha now fid (ToObject b k c) msgs db = (Inr res, db')" and "(b', k') \<noteq> (b, k)"
  shows "find_object db' b' k' = find_object db b' k'"
proof -
  obtain w chunks where "swap_object now b k w (db\<lparr>d_chunks := chunks\<rparr>) = Inr db'"
    using assms(1) by (auto simp: ingest_tx_def Let_def split: if_splits option.splits sum.splits prod.splits)
  from find_swap_other [OF this assms(2)] show ?thesis by (simp add: find_object_def)
qed

lemma find_part_tx_objects:
  "ingest_tx sha now fid (ToPart uid no) msgs db = (res, db') \<Longrightarrow> d_objects db' = d_objects db"
  by (auto simp: ingest_tx_def commit_part_def Let_def split: if_splits option.splits sum.splits prod.splits)

lemma find_delete_other:
  "(b', k') \<noteq> (b, k) \<Longrightarrow> find_object (snd (delete_tx b k db)) b' k' = find_object db b' k'"
  by (simp add: delete_tx_def Let_def reap_def find_object_def find_other_filter split: option.split)

lemma find_delete_same: "find_object (snd (delete_tx b k db)) b k = None"
  by (auto simp: delete_tx_def Let_def reap_def find_object_def find_None split: option.split)

end
