(* ===== verification/Store_Spec.thy ===== *)
theory Store_Spec
  imports Store_Inv
begin

text \<open>
  The abstract object store and the refinement: each transaction of the database
  acts on the abstract state as the S3 operation says, keeps the invariant, and
  on an error changes nothing.
\<close>

section \<open>The abstract store\<close>

text \<open>An object or a part is its bytes and its digest; an upload is its target.\<close>

record abs_store =
  a_buckets :: "ustring set"
  a_objects :: "ustring \<times> ustring \<Rightarrow> (bytes \<times> bytes) option"
  a_uploads :: "ustring \<Rightarrow> (ustring \<times> ustring) option"
  a_parts :: "ustring \<times> int \<Rightarrow> (bytes \<times> bytes) option"

definition stored_object :: "db \<Rightarrow> object_row \<Rightarrow> bytes \<times> bytes" where
  "stored_object db r = (object_bytes (file_bytes (d_chunks db)) (row_meta r), o_etag r)"

definition find_upload :: "db \<Rightarrow> ustring \<Rightarrow> upload_row option" where
  "find_upload db uid = List.find (\<lambda>u. up_id u = uid) (d_uploads db)"

definition find_part :: "db \<Rightarrow> ustring \<Rightarrow> int \<Rightarrow> part_row option" where
  "find_part db uid no = List.find (\<lambda>p. pt_upload p = uid \<and> pt_no p = no) (d_parts db)"

definition abs_of :: "db \<Rightarrow> abs_store" where
  "abs_of db = \<lparr>
     a_buckets = fst ` set (d_buckets db),
     a_objects = (\<lambda>(b, k). map_option (stored_object db) (find_object db b k)),
     a_uploads = (\<lambda>uid. map_option ukey (find_upload db uid)),
     a_parts = (\<lambda>(uid, no). map_option (\<lambda>p. (file_bytes (d_chunks db) (pt_file_id p), pt_sha p))
       (find_part db uid no))\<rparr>"

lemma find_part_Some:
  "distinct (map pkey (d_parts db)) \<Longrightarrow>
    find_part db uid no = Some p \<longleftrightarrow> p \<in> set (d_parts db) \<and> pkey p = (uid, no)"
  unfolding find_part_def by (rule find_unique [where key = pkey]) (auto simp: pkey_def)

lemma find_upload_Some:
  "distinct (map up_id (d_uploads db)) \<Longrightarrow>
    find_upload db uid = Some u \<longleftrightarrow> u \<in> set (d_uploads db) \<and> up_id u = uid"
  unfolding find_upload_def by (rule find_unique [where key = up_id]) auto

text \<open>Files whose bytes a step keeps.\<close>

definition keeps :: "db \<Rightarrow> db \<Rightarrow> (int \<times> int) list \<Rightarrow> bool" where
  "keeps db db' rs \<longleftrightarrow> (\<forall>f \<in> fst ` set rs. file_bytes (d_chunks db') f = file_bytes (d_chunks db) f)"

lemma keeps_append: "keeps db db' (xs @ ys) \<longleftrightarrow> keeps db db' xs \<and> keeps db db' ys"
  by (auto simp: keeps_def)

lemma stored_object_keeps: "keeps db db' (object_refs r) \<Longrightarrow> stored_object db' r = stored_object db r"
  by (auto simp: keeps_def stored_object_def object_bytes_refs intro!: arg_cong [where f = concat])

lemma keeps_concat: "keeps db db' (concat (map g xs)) \<longleftrightarrow> (\<forall>x \<in> set xs. keeps db db' (g x))"
  by (induction xs) (simp_all add: keeps_append, simp add: keeps_def)

lemma keeps_refl: "d_chunks db' = d_chunks db \<Longrightarrow> keeps db db' rs"
  by (simp add: keeps_def)

section \<open>What a step does to the abstract maps\<close>

lemma abs_objects_other:
  assumes keys: "distinct (map okey (d_objects db))" "distinct (map okey (d_objects db'))"
    and rows: "\<And>r. okey r \<noteq> (b, k) \<Longrightarrow> r \<in> set (d_objects db') \<longleftrightarrow> r \<in> set (d_objects db)"
    and keeps: "keeps db db' (concat (map object_refs (others db b k)))"
    and other: "bk \<noteq> (b, k)"
  shows "a_objects (abs_of db') bk = a_objects (abs_of db) bk"
proof -
  obtain b' k' where bk: "bk = (b', k')" by (cases bk)
  have same: "find_object db' b' k' = find_object db b' k'"
    unfolding find_object_def
    by (rule find_same [where key = okey and k = "(b', k')", OF keys(2,1)])
      (use other rows in \<open>auto simp: at_key_okey bk\<close>)
  show ?thesis
  proof (cases "find_object db b' k'")
    case None
    then show ?thesis by (simp add: bk abs_of_def same)
  next
    case (Some r)
    then have "r \<in> set (d_objects db)" "okey r = bk" by (simp_all add: find_object_Some [OF keys(1)] bk)
    then have "r \<in> set (others db b k)" using other by (simp add: others_def at_key_okey)
    then have "stored_object db' r = stored_object db r"
      using keeps by (intro stored_object_keeps) (simp add: keeps_concat)
    then show ?thesis by (simp add: bk abs_of_def same Some)
  qed
qed

lemma abs_objects_write:
  assumes "distinct (map okey (d_objects db))" and "distinct (map okey (d_objects db'))"
    and "set (d_objects db') = insert new (set (others db b k))" and "okey new = (b, k)"
    and "keeps db db' (concat (map object_refs (others db b k)))"
  shows "a_objects (abs_of db') = (a_objects (abs_of db))((b, k) \<mapsto> stored_object db' new)"
proof (rule ext)
  fix bk
  have "find_object db' b k = Some new" using assms(3,4) by (simp add: find_object_Some [OF assms(2)])
  moreover have "r \<in> set (d_objects db') \<longleftrightarrow> r \<in> set (d_objects db)" if "okey r \<noteq> (b, k)" for r
    using that assms(3,4) by (auto simp: others_def at_key_okey)
  ultimately show "a_objects (abs_of db') bk = ((a_objects (abs_of db))((b, k) \<mapsto> stored_object db' new)) bk"
    using abs_objects_other [OF assms(1,2) _ assms(5), of bk]
    by (cases "bk = (b, k)") (simp add: abs_of_def, simp)
qed

lemma abs_objects_delete:
  assumes "distinct (map okey (d_objects db))" and "distinct (map okey (d_objects db'))"
    and "set (d_objects db') = set (others db b k)"
    and "keeps db db' (concat (map object_refs (others db b k)))"
  shows "a_objects (abs_of db') = (a_objects (abs_of db))((b, k) := None)"
proof (rule ext)
  fix bk
  have "find_object db' b k = None"
    unfolding find_object_None using assms(3) by (auto simp: others_def at_key_okey)
  moreover have "r \<in> set (d_objects db') \<longleftrightarrow> r \<in> set (d_objects db)" if "okey r \<noteq> (b, k)" for r
    using that assms(3) by (auto simp: others_def at_key_okey)
  ultimately show "a_objects (abs_of db') bk = ((a_objects (abs_of db))((b, k) := None)) bk"
    using abs_objects_other [OF assms(1,2) _ assms(4), of bk]
    by (cases "bk = (b, k)") (simp add: abs_of_def, simp)
qed

lemma abs_objects_same:
  assumes "d_objects db' = d_objects db" and "keeps db db' (concat (map object_refs (d_objects db)))"
    and "distinct (map okey (d_objects db))"
  shows "a_objects (abs_of db') = a_objects (abs_of db)"
proof -
  have "map_option (stored_object db') (find_object db' b k) = map_option (stored_object db) (find_object db b k)" for b k
  proof -
    have "find_object db' b k = find_object db b k" using assms(1) by (simp add: find_object_def)
    moreover have "stored_object db' r = stored_object db r" if "find_object db b k = Some r" for r
      using that assms(2) by (intro stored_object_keeps) (simp add: keeps_concat find_object_Some [OF assms(3)])
    ultimately show ?thesis by (cases "find_object db b k") simp_all
  qed
  then show ?thesis by (simp add: abs_of_def)
qed

lemma abs_parts_same:
  assumes "d_parts db' = d_parts db" and "keeps db db' (map part_ref (d_parts db))"
    and "distinct (map pkey (d_parts db))"
  shows "a_parts (abs_of db') = a_parts (abs_of db)"
proof -
  have "find_part db' u n = find_part db u n" for u n by (simp add: find_part_def assms(1))
  moreover have "file_bytes (d_chunks db') (pt_file_id p) = file_bytes (d_chunks db) (pt_file_id p)"
    if "find_part db u n = Some p" for u n p
    using that assms(2) by (force simp: keeps_def find_part_Some [OF assms(3)] part_ref_def)
  ultimately have "map_option (\<lambda>p. (file_bytes (d_chunks db') (pt_file_id p), pt_sha p)) (find_part db' u n) =
      map_option (\<lambda>p. (file_bytes (d_chunks db) (pt_file_id p), pt_sha p)) (find_part db u n)" for u n
    by (cases "find_part db u n") simp_all
  then show ?thesis by (simp add: abs_of_def)
qed

lemma abs_of_objectsI:
  "d_buckets db' = d_buckets db \<Longrightarrow> d_uploads db' = d_uploads db \<Longrightarrow> a_parts (abs_of db') = a_parts (abs_of db) \<Longrightarrow>
    a_objects (abs_of db') = X \<Longrightarrow> abs_of db' = (abs_of db)\<lparr>a_objects := X\<rparr>"
  by (simp add: abs_of_def find_upload_def)

section \<open>A write of one object\<close>

lemma db_okD:
  assumes "db_ok db"
  shows "ct.backed (d_chunks db) (refs db)" "distinct (map okey (d_objects db))"
    "\<forall>r \<in> set (d_objects db). row_shape r" "\<forall>r \<in> set (d_objects db). bucket_exists db (o_bucket r)"
    "distinct (map pkey (d_parts db))" "distinct (map up_id (d_uploads db))"
    "\<forall>f \<in> fst ` set (refs db). 0 < f \<and> f < d_next_id db"
  using assms by (auto simp: db_ok_def)

lemma mset_concat_map: "mset (concat (map g xs)) = sum_mset (image_mset (\<lambda>x. mset (g x)) (mset xs))"
  by (induction xs) simp_all

lemma mset_object_refs:
  "mset objs = add_mset new (mset os) \<Longrightarrow>
    mset (concat (map object_refs objs)) = mset (object_refs new @ concat (map object_refs os))"
  by (simp add: mset_concat_map)

lemma okeys_write:
  assumes "distinct (map okey (d_objects db))" and "mset objs = add_mset new (mset (others db b k))"
    and "okey new = (b, k)"
  shows "distinct (map okey objs)"
proof -
  have "mset (map okey objs) = mset (map okey (new # others db b k))" using assms(2) by simp
  moreover have "distinct (map okey (new # others db b k))"
    using assms(1,3) by (auto simp: others_def at_key_okey distinct_map_filter)
  ultimately show ?thesis by (metis mset_eq_imp_distinct_iff)
qed

text \<open>A file id handed out and not yet used.\<close>

definition fresh_id :: "db \<Rightarrow> int \<Rightarrow> bool" where
  "fresh_id db f \<longleftrightarrow> 0 < f \<and> f < d_next_id db \<and> f \<notin> fst ` set (refs db)"

text \<open>What every write has to show of the database it leaves.\<close>

lemma db_ok_write:
  assumes ok: "db_ok db"
    and db': "db' = db\<lparr>d_objects := objs, d_chunks := chunks, d_parts := parts, d_uploads := ups\<rparr>"
    and backed: "ct.backed chunks (refs db')"
    and ids: "fst ` set (refs db') \<subseteq> {f. fresh_id db f} \<union> fst ` set (refs db)"
    and objs: "distinct (map okey objs)" "\<forall>r \<in> set objs. row_shape r \<and> bucket_exists db (o_bucket r)"
    and ups: "distinct (map up_id ups)" "distinct (map ukey ups)" "\<forall>u \<in> set ups. bucket_exists db (up_bucket u)"
    and parts: "distinct (map pkey parts)" "\<forall>p \<in> set parts. pt_upload p \<in> up_id ` set ups"
  shows "db_ok db'"
proof -
  have "\<forall>f \<in> fst ` set (refs db'). 0 < f \<and> f < d_next_id db'"
  proof
    fix f assume "f \<in> fst ` set (refs db')"
    then consider "fresh_id db f" | "f \<in> fst ` set (refs db)" using ids by blast
    then show "0 < f \<and> f < d_next_id db'"
      using db_okD(7) [OF ok] by cases (auto simp: fresh_id_def db')
  qed
  moreover have "bucket_exists db' x = bucket_exists db x" for x by (simp add: bucket_exists_def db')
  ultimately show ?thesis
    using ok backed objs ups parts unfolding db_ok_def by (simp add: db')
qed

text \<open>The swap seen from outside: the row is there, the other rows and files are as they were.\<close>

lemma publish_spec:
  fixes b k w now
  defines "new \<equiv> written_row now b k w"
  assumes keys: "distinct (map okey (d_objects tx))"
    and shapes: "\<forall>r \<in> set (d_objects tx). row_shape r"
    and bucket: "bucket_exists tx b" and shape: "row_shape new"
    and backed: "ct.backed (d_chunks tx) (object_refs new @ concat (map object_refs (d_objects tx)) @ rest)"
    and allowed: "write_allowed (w_condition w) (find_object tx b k)"
  obtains db' where "swap_object now b k w tx = Inr db'"
    and "db' = tx\<lparr>d_objects := d_objects db', d_chunks := d_chunks db'\<rparr>"
    and "distinct (map okey (d_objects db'))"
    and "set (d_objects db') = insert new (set (others tx b k))"
    and "ct.backed (d_chunks db') (concat (map object_refs (d_objects db')) @ rest)"
    and "keeps tx db' rest"
    and "find_object db' b k = Some new"
    and "a_objects (abs_of db') = (a_objects (abs_of tx))((b, k) \<mapsto> stored_object tx new)"
proof -
  have okey: "okey new = (b, k)" by (simp add: new_def written_row_def okey_def)
  let ?live = "object_refs new @ concat (map object_refs (others tx b k)) @ rest"
  obtain db' where db': "swap_object now b k w tx = Inr db'"
    "db' = tx\<lparr>d_objects := d_objects db', d_chunks := d_chunks db'\<rparr>"
    "mset (d_objects db') = add_mset new (mset (others tx b k))"
    "ct.backed (d_chunks db') ?live"
    "\<And>f. f \<in> fst ` set ?live \<Longrightarrow> file_bytes (d_chunks db') f = file_bytes (d_chunks tx) f"
    by (rule swap_object_spec [OF keys shapes bucket shape [unfolded new_def] backed [unfolded new_def] allowed])
      (simp add: new_def)
  have keep: "keeps tx db' ?live" using db'(5) by (simp add: keeps_def)
  have objs: "set (d_objects db') = insert new (set (others tx b k))"
    using db'(3) by (metis set_mset_add_mset_insert set_mset_mset)
  have keys': "distinct (map okey (d_objects db'))" by (rule okeys_write [OF keys db'(3) okey])
  have "mset (concat (map object_refs (d_objects db')) @ rest) = mset ?live"
    using mset_object_refs [OF db'(3)] by simp
  with db'(4) have backed': "ct.backed (d_chunks db') (concat (map object_refs (d_objects db')) @ rest)"
    using ct.backed_mset by blast
  have find: "find_object db' b k = Some new" using objs okey by (simp add: find_object_Some [OF keys'])
  have "stored_object db' new = stored_object tx new"
    using keep by (intro stored_object_keeps) (simp add: keeps_append)
  then have abs: "a_objects (abs_of db') = (a_objects (abs_of tx))((b, k) \<mapsto> stored_object tx new)"
    using abs_objects_write [OF keys keys' objs okey] keep by (simp add: keeps_append)
  from keep have "keeps tx db' rest" by (simp add: keeps_append)
  then show thesis by (rule that [OF db'(1,2) keys' objs backed' _ find abs])
qed

text \<open>The COPY of a fresh file, before anything refers to it.\<close>

lemma copy_tx:
  assumes ok: "db_ok db" and fresh: "fresh_id db fid" and fits: "fits_file data"
  obtains chunks where "copy_in (d_chunks db) (file_rows fid data) = Some chunks"
    and "file_bytes chunks fid = data"
    and "ct.backed chunks ((fid, int (length data)) # refs db)"
    and "keeps db (db\<lparr>d_chunks := chunks\<rparr>) (refs db)"
    and "abs_of (db\<lparr>d_chunks := chunks\<rparr>) = abs_of db"
proof -
  have fid: "fid \<notin> fst ` set (refs db)" using fresh by (simp add: fresh_id_def)
  obtain chunks where chunks: "copy_in (d_chunks db) (file_rows fid data) = Some chunks"
    "file_bytes chunks fid = data" "ct.backed chunks ((fid, int (length data)) # refs db)"
    "\<And>g. g \<in> fst ` set (refs db) \<Longrightarrow> file_bytes chunks g = file_bytes (d_chunks db) g"
    by (rule copy_file [OF db_okD(1) [OF ok] fid fits]) blast
  let ?tx = "db\<lparr>d_chunks := chunks\<rparr>"
  have keep: "keeps db ?tx (refs db)" using chunks(4) by (simp add: keeps_def)
  have "abs_of ?tx = (abs_of db)\<lparr>a_objects := a_objects (abs_of db)\<rparr>"
    using keep db_okD [OF ok]
    by (intro abs_of_objectsI abs_objects_same abs_parts_same) (simp_all add: refs_def keeps_append)
  with keep show thesis by (intro that [OF chunks(1-3)]) simp_all
qed

lemma put_tx_spec:
  assumes ok: "db_ok db" and fresh: "fresh_id db fid" and bucket: "bucket_exists db b"
    and fits: "fits_file (concat cs)"
    and allowed: "write_allowed c (find_object db b k)"
  obtains db' where
    "ingest_tx sha now fid (ToObject b k c) (map Data cs) db = (Inr (int (length (concat cs)), sha (concat cs)), db')"
    and "db_ok db'"
    and "abs_of db' = (abs_of db)\<lparr>a_objects := (a_objects (abs_of db))((b, k) \<mapsto> (concat cs, sha (concat cs)))\<rparr>"
    and "fst ` set (refs db') \<subseteq> insert fid (fst ` set (refs db))"
    and "d_next_id db' = d_next_id db" and "d_buckets db' = d_buckets db"
    and "find_object db' b k = Some (written_row now b k \<lparr>w_file_id = fid, w_size = int (length (concat cs)),
      w_etag = sha (concat cs), w_parts = None, w_condition = c\<rparr>)"
proof -
  let ?data = "concat cs"
  let ?w = "\<lparr>w_file_id = fid, w_size = int (length ?data), w_etag = sha ?data, w_parts = None, w_condition = c\<rparr>"
  let ?new = "written_row now b k ?w"
  have fid: "0 < fid" "fid < 2 ^ 63" using fresh ok by (auto simp: fresh_id_def db_ok_def)
  obtain chunks where chunks: "copy_in (d_chunks db) (file_rows fid ?data) = Some chunks"
    "file_bytes chunks fid = ?data" "ct.backed chunks ((fid, int (length ?data)) # refs db)"
    "keeps db (db\<lparr>d_chunks := chunks\<rparr>) (refs db)" "abs_of (db\<lparr>d_chunks := chunks\<rparr>) = abs_of db"
    by (rule copy_tx [OF ok fresh fits])
  define tx where "tx = db\<lparr>d_chunks := chunks\<rparr>"
  have tx [simp]: "d_objects tx = d_objects db" "d_chunks tx = chunks" "others tx b k = others db b k"
    "bucket_exists tx = bucket_exists db" "find_object tx b k = find_object db b k" "d_parts tx = d_parts db"
    by (simp_all add: tx_def others_def bucket_exists_def find_object_def fun_eq_iff)
  have new: "object_refs ?new = [(fid, int (length ?data))]" "o_bucket ?new = b" "o_etag ?new = sha ?data"
    by (simp_all add: object_refs_single written_row_def)
  then have shape: "row_shape ?new" by (simp add: row_shape_def written_row_def)
  obtain db' where db': "swap_object now b k ?w tx = Inr db'"
    "db' = tx\<lparr>d_objects := d_objects db', d_chunks := d_chunks db'\<rparr>"
    "distinct (map okey (d_objects db'))" "set (d_objects db') = insert ?new (set (others db b k))"
    "ct.backed (d_chunks db') (concat (map object_refs (d_objects db')) @ map part_ref (d_parts db))"
    "keeps tx db' (map part_ref (d_parts db))" "find_object db' b k = Some ?new"
    "a_objects (abs_of db') = (a_objects (abs_of tx))((b, k) \<mapsto> stored_object tx ?new)"
    by (rule publish_spec [of tx b now k ?w "map part_ref (d_parts db)"])
      (use db_okD [OF ok] bucket allowed shape chunks(3) in \<open>simp_all add: new(1) refs_def\<close>)
  obtain objs ch where db'_eq: "db' = db\<lparr>d_objects := objs, d_chunks := ch\<rparr>"
    by (subst (asm) db'(2)) (simp add: tx_def)
  have ids: "fst ` set (refs db') \<subseteq> insert fid (fst ` set (refs db))"
    using db'(4) by (auto simp: db'_eq refs_def new(1) others_def)
  have "db_ok db'"
    using ok shape bucket new(2) fresh db'(3-5) ids
    by (intro db_ok_write [OF ok, where objs = objs and chunks = ch and parts = "d_parts db" and ups = "d_uploads db"])
      (auto simp: db_ok_def db'_eq refs_def others_def)
  moreover have "abs_of db' = (abs_of tx)\<lparr>a_objects := (a_objects (abs_of db))((b, k) \<mapsto> (?data, sha ?data))\<rparr>"
    using db'(6,8) chunks(2,5) db_okD(5) [OF ok]
    by (intro abs_of_objectsI abs_parts_same)
      (simp_all add: db'_eq tx_def stored_object_def object_bytes_refs new)
  moreover have "ingest_tx sha now fid (ToObject b k c) (map Data cs) db = (Inr (int (length ?data), sha ?data), db')"
    using bucket fid fits chunks(1) db'(1)
    by (simp add: ingest_tx_def ingest_stream_framed copy_parse_framed tx_def [symmetric])
  ultimately show thesis
    using that [of db'] ids db'(7) chunks(5) by (simp add: db'_eq tx_def)
qed

section \<open>Deletion of one object\<close>

lemma delete_tx_spec:
  assumes ok: "db_ok db"
  obtains db' where "delete_tx b k db = (find_object db b k \<noteq> None, db')"
    and "db_ok db'"
    and "abs_of db' = (abs_of db)\<lparr>a_objects := (a_objects (abs_of db))((b, k) := None)\<rparr>"
    and "fst ` set (refs db') \<subseteq> fst ` set (refs db)"
    and "d_next_id db' = d_next_id db"
proof -
  let ?live = "concat (map object_refs (others db b k)) @ map part_ref (d_parts db)"
  let ?old = "case find_object db b k of None \<Rightarrow> [] | Some r \<Rightarrow> object_refs r"
  define chunks where "chunks = (case find_object db b k of None \<Rightarrow> d_chunks db
    | Some r \<Rightarrow> delete_files (d_chunks db) (dead_ids (o_file_id r) (o_parts r)))"
  define db' where "db' = db\<lparr>d_objects := others db b k, d_chunks := chunks\<rparr>"
  have run: "delete_tx b k db = (find_object db b k \<noteq> None, db')"
    by (simp add: delete_tx_def Let_def reap_def db'_def chunks_def others_def split: option.split)
  have "mset (refs db) = mset (?old @ ?live)"
    by (simp add: refs_def dead_refs [OF db_okD(2) [OF ok], of b k])
  then have backed: "ct.backed (d_chunks db) (?old @ ?live)" using db_okD(1) [OF ok] ct.backed_mset by blast
  have live: "ct.backed chunks ?live \<and> keeps db db' ?live"
  proof (cases "find_object db b k")
    case None
    with backed show ?thesis by (simp add: chunks_def db'_def keeps_def)
  next
    case (Some r)
    then have "row_shape r" using db_okD(3) [OF ok] find_object_Some [OF db_okD(2) [OF ok]] by blast
    then have "set (dead_ids (o_file_id r) (o_parts r)) = fst ` set (object_refs r)" by (rule row_shape_ids)
    with drop_files [of "d_chunks db" "object_refs r" ?live] backed Some show ?thesis
      by (simp add: chunks_def db'_def keeps_def)
  qed
  have keys: "distinct (map okey (others db b k))"
    using db_okD(2) [OF ok] by (simp add: others_def distinct_map_filter)
  have ids: "fst ` set (refs db') \<subseteq> fst ` set (refs db)" by (auto simp: db'_def refs_def others_def)
  have "db_ok db'"
    using ok live keys ids
    by (intro db_ok_write [OF ok, where objs = "others db b k" and chunks = chunks
          and parts = "d_parts db" and ups = "d_uploads db"])
      (auto simp: db_ok_def db'_def refs_def others_def)
  moreover have "abs_of db' = (abs_of db)\<lparr>a_objects := (a_objects (abs_of db))((b, k) := None)\<rparr>"
    using live db_okD(2,5) [OF ok] keys
    by (intro abs_of_objectsI abs_parts_same abs_objects_delete) (simp_all add: db'_def keeps_append)
  ultimately show thesis using that [OF run] ids by (simp add: db'_def)
qed

section \<open>Parts\<close>

definition other_parts :: "db \<Rightarrow> ustring \<Rightarrow> int \<Rightarrow> part_row list" where
  "other_parts db uid no = filter (\<lambda>p. \<not> (pt_upload p = uid \<and> pt_no p = no)) (d_parts db)"

lemma part_refs_split:
  assumes "distinct (map pkey (d_parts db))"
  shows "mset (map part_ref (d_parts db)) =
    mset (case find_part db uid no of None \<Rightarrow> [] | Some p \<Rightarrow> [part_ref p]) + mset (map part_ref (other_parts db uid no))"
proof (cases "find_part db uid no")
  case None
  then have "other_parts db uid no = d_parts db" by (simp add: find_part_def find_None other_parts_def)
  with None show ?thesis by simp
next
  case (Some p)
  then have p: "p \<in> set (d_parts db)" "pkey p = (uid, no)" by (simp_all add: find_part_Some [OF assms])
  then obtain us vs where "d_parts db = us @ p # vs" "other_parts db uid no = us @ vs"
    using filter_split_unique [OF assms p(1), of "\<lambda>p. pt_upload p = uid \<and> pt_no p = no"]
    by (auto simp: other_parts_def pkey_def)
  with Some show ?thesis by simp
qed

text \<open>The abstract parts after a step that replaces or drops some of them.\<close>

lemma abs_parts_eqI:
  assumes "distinct (map pkey (d_parts db))" and "distinct (map pkey (d_parts db'))"
    and "\<And>p. pkey p \<notin> K \<Longrightarrow> p \<in> set (d_parts db') \<longleftrightarrow> p \<in> set (d_parts db)"
    and "\<And>p. p \<in> set (d_parts db) \<Longrightarrow> pkey p \<notin> K \<Longrightarrow>
      file_bytes (d_chunks db') (pt_file_id p) = file_bytes (d_chunks db) (pt_file_id p)"
    and "un \<notin> K"
  shows "a_parts (abs_of db') un = a_parts (abs_of db) un"
proof -
  obtain u n where un: "un = (u, n)" by (cases un)
  have same: "find_part db' u n = find_part db u n"
    unfolding find_part_def
    by (rule find_same [where key = pkey and k = un, OF assms(2,1)])
      (use assms(3,5) in \<open>auto simp: pkey_def un\<close>)
  show ?thesis
  proof (cases "find_part db u n")
    case (Some p)
    then have "p \<in> set (d_parts db)" "pkey p = un" by (simp_all add: find_part_Some [OF assms(1)] un)
    with assms(4,5) show ?thesis by (simp add: abs_of_def un same Some)
  qed (simp add: abs_of_def un same)
qed

lemma abs_of_partsI:
  "d_buckets db' = d_buckets db \<Longrightarrow> d_uploads db' = d_uploads db \<Longrightarrow> a_objects (abs_of db') = a_objects (abs_of db) \<Longrightarrow>
    a_parts (abs_of db') = X \<Longrightarrow> abs_of db' = (abs_of db)\<lparr>a_parts := X\<rparr>"
  by (simp add: abs_of_def find_upload_def)

text \<open>The files after the record of a part replaced an earlier one.\<close>

lemma replace_part_files:
  fixes uid no
  assumes ok: "db_ok db" and backed: "ct.backed chunks ((fid, n) # refs db)"
  defines "live \<equiv> (fid, n) # concat (map object_refs (d_objects db)) @ map part_ref (other_parts db uid no)"
    and "chunks' \<equiv> (case find_part db uid no of None \<Rightarrow> chunks | Some p \<Rightarrow> delete_files chunks [pt_file_id p])"
  shows "ct.backed chunks' live"
    and "g \<in> fst ` set live \<Longrightarrow> file_bytes chunks' g = file_bytes chunks g"
proof -
  let ?old = "case find_part db uid no of None \<Rightarrow> [] | Some p \<Rightarrow> [part_ref p]"
  have "mset ((fid, n) # refs db) = mset (?old @ live)"
    using part_refs_split [OF db_okD(5) [OF ok], of uid no] by (simp add: refs_def live_def)
  then have live: "ct.backed chunks (?old @ live)" using backed ct.backed_mset by blast
  have "ct.backed chunks' live \<and> (\<forall>g \<in> fst ` set live. file_bytes chunks' g = file_bytes chunks g)"
  proof (cases "find_part db uid no")
    case None
    with live show ?thesis by (simp add: chunks'_def)
  next
    case (Some p)
    with live drop_files [of chunks "[part_ref p]" live "[pt_file_id p]"] show ?thesis
      by (simp add: chunks'_def part_ref_def)
  qed
  then show "ct.backed chunks' live"
    and "g \<in> fst ` set live \<Longrightarrow> file_bytes chunks' g = file_bytes chunks g" by auto
qed

lemma recorded_part_map:
  assumes keys: "distinct (map pkey (d_parts db))" "distinct (map pkey (d_parts db'))"
    and parts: "d_parts db' = other_parts db uid no @ [p]" and p: "pkey p = (uid, no)"
    and keep: "\<And>q. q \<in> set (other_parts db uid no) \<Longrightarrow>
      file_bytes (d_chunks db') (pt_file_id q) = file_bytes (d_chunks db) (pt_file_id q)"
  shows "a_parts (abs_of db') = (a_parts (abs_of db))((uid, no) \<mapsto> (file_bytes (d_chunks db') (pt_file_id p), pt_sha p))"
proof (rule ext)
  fix un
  have "find_part db' uid no = Some p"
    using find_part_Some [of db' uid no p] keys(2) p by (simp add: parts pkey_def)
  moreover have "a_parts (abs_of db') un = a_parts (abs_of db) un" if "un \<noteq> (uid, no)"
  proof (rule abs_parts_eqI [where K = "{(uid, no)}", OF keys])
    fix q assume "q \<in> set (d_parts db)" "pkey q \<notin> {(uid, no)}"
    then show "file_bytes (d_chunks db') (pt_file_id q) = file_bytes (d_chunks db) (pt_file_id q)"
      by (intro keep) (simp add: other_parts_def pkey_def)
  qed (use that p in \<open>auto simp: parts other_parts_def pkey_def\<close>)
  ultimately show "a_parts (abs_of db') un =
      ((a_parts (abs_of db))((uid, no) \<mapsto> (file_bytes (d_chunks db') (pt_file_id p), pt_sha p))) un"
    by (cases "un = (uid, no)") (simp_all add: abs_of_def)
qed

lemma put_part_spec:
  assumes ok: "db_ok db" and fresh: "fresh_id db fid" and upload: "uid \<in> up_id ` set (d_uploads db)"
    and fits: "fits_file (concat cs)"
  obtains db' where
    "ingest_tx sha now fid (ToPart uid no) (map Data cs) db = (Inr (int (length (concat cs)), sha (concat cs)), db')"
    and "db_ok db'"
    and "abs_of db' = (abs_of db)\<lparr>a_parts := (a_parts (abs_of db))((uid, no) \<mapsto> (concat cs, sha (concat cs)))\<rparr>"
    and "fst ` set (refs db') \<subseteq> insert fid (fst ` set (refs db))"
    and "d_next_id db' = d_next_id db"
proof -
  let ?data = "concat cs"
  let ?new = "\<lparr>pt_upload = uid, pt_no = no, pt_file_id = fid, pt_size = int (length ?data), pt_sha = sha ?data\<rparr>"
  let ?live = "(fid, int (length ?data)) # concat (map object_refs (d_objects db)) @ map part_ref (other_parts db uid no)"
  have fid: "0 < fid" "fid < 2 ^ 63" using fresh ok by (auto simp: fresh_id_def db_ok_def)
  obtain chunks where chunks: "copy_in (d_chunks db) (file_rows fid ?data) = Some chunks"
    "file_bytes chunks fid = ?data" "ct.backed chunks ((fid, int (length ?data)) # refs db)"
    "keeps db (db\<lparr>d_chunks := chunks\<rparr>) (refs db)" "abs_of (db\<lparr>d_chunks := chunks\<rparr>) = abs_of db"
    by (rule copy_tx [OF ok fresh fits])
  define tx where "tx = db\<lparr>d_chunks := chunks\<rparr>"
  define chunks' where "chunks' = (case find_part db uid no of None \<Rightarrow> chunks
    | Some p \<Rightarrow> delete_files chunks [pt_file_id p])"
  note live = replace_part_files [OF ok chunks(3), where uid = uid and no = no, folded chunks'_def]
  define db' where "db' = db\<lparr>d_parts := other_parts db uid no @ [?new], d_chunks := chunks'\<rparr>"
  have swap: "commit_part uid no fid (int (length ?data)) (sha ?data) tx = Inr db'"
    using upload
    by (simp add: commit_part_def Let_def tx_def db'_def chunks'_def other_parts_def find_part_def split: option.split)
  have keep: "file_bytes chunks' g = file_bytes (d_chunks db) g"
    if "g \<in> fst ` set (concat (map object_refs (d_objects db)) @ map part_ref (other_parts db uid no))" for g
  proof -
    have "g \<in> fst ` set (refs db)" using that by (auto simp: refs_def other_parts_def)
    then show ?thesis using live(2) [of g] chunks(4) that by (auto simp: keeps_def image_Un)
  qed
  have keys: "distinct (map pkey (other_parts db uid no @ [?new]))"
    using db_okD(5) [OF ok] by (auto simp: other_parts_def distinct_map_filter pkey_def)
  have ids: "fst ` set (refs db') \<subseteq> insert fid (fst ` set (refs db))"
    by (auto simp: db'_def refs_def other_parts_def part_ref_def)
  have "mset (refs db') = mset ?live" by (simp add: refs_def db'_def part_ref_def)
  then have "ct.backed chunks' (refs db')" using live(1) ct.backed_mset by blast
  then have ok': "db_ok db'"
    using ok keys ids fresh upload
    by (intro db_ok_write [OF ok, where objs = "d_objects db" and chunks = chunks'
          and parts = "d_parts db'" and ups = "d_uploads db"])
      (auto simp: db_ok_def db'_def other_parts_def)
  have "file_bytes (d_chunks db') (pt_file_id q) = file_bytes (d_chunks db) (pt_file_id q)"
    if "q \<in> set (other_parts db uid no)" for q
    using keep [of "pt_file_id q"] that by (force simp: db'_def part_ref_def image_Un)
  from recorded_part_map [OF db_okD(5) [OF ok] db_okD(5) [OF ok'] _ _ this, where p = ?new]
  have "a_parts (abs_of db') = (a_parts (abs_of db))((uid, no) \<mapsto> (?data, sha ?data))"
    using live(2) [of fid] chunks(2) by (simp add: db'_def pkey_def)
  moreover have "a_objects (abs_of db') = a_objects (abs_of db)"
    using keep db_okD(2) [OF ok] by (intro abs_objects_same) (simp_all add: db'_def keeps_def image_Un)
  ultimately have "abs_of db' = (abs_of db)\<lparr>a_parts := (a_parts (abs_of db))((uid, no) \<mapsto> (?data, sha ?data))\<rparr>"
    by (intro abs_of_partsI) (simp_all add: db'_def)
  moreover have "ingest_tx sha now fid (ToPart uid no) (map Data cs) db = (Inr (int (length ?data), sha ?data), db')"
    using fid fits chunks(1) swap
    by (simp add: ingest_tx_def ingest_stream_framed copy_parse_framed tx_def [symmetric])
  ultimately show thesis using that [of db'] ok' ids by (simp add: db'_def)
qed

end
