(* ===== verification/Multipart.thy ===== *)
theory Multipart
  imports Store_Spec
begin

text \<open>
  What the multipart transactions of \<^verbatim>\<open>src/db.rs\<close> do to the abstract store:
  Complete publishes the recorded parts in part order when the listing names
  each of them exactly once with its digest, and Abort drops them. Then the
  bucket transactions and the failures of a write.
\<close>

section \<open>The scan of the listed parts\<close>

fun scan_ends :: "int \<Rightarrow> part_row list \<Rightarrow> int list" where
  "scan_ends s [] = []"
| "scan_ends s (r # rs) = as_i64 (s + pt_size r) # scan_ends (as_i64 (s + pt_size r)) rs"

lemma length_scan_ends [simp]: "length (scan_ends s rs) = length rs"
  by (induction s rs rule: scan_ends.induct) auto

lemma complete_scan_eq:
  "length ws = length rs \<Longrightarrow>
    complete_scan ws rs s =
      (if map fst ws = map pt_no rs \<and> map snd ws = map (hex \<circ> pt_sha) rs
       then Some (map pt_file_id rs, scan_ends s rs, last (s # scan_ends s rs), concat (map pt_sha rs))
       else None)"
proof (induction ws rs s rule: complete_scan.induct)
  case (1 w ws r rs s)
  then show ?case by (auto simp: Let_def)
qed auto

lemma scan_ends_sums:
  assumes "0 \<le> s" and "\<forall>r \<in> set rs. 0 \<le> pt_size r" and "s + sum_list (map pt_size rs) < 2 ^ 63"
  shows "map (\<lambda>(f, b, l). (f, l)) (segment_scan s (zip (map pt_file_id rs) (scan_ends s rs))) = map part_ref rs"
    and "last (s # scan_ends s rs) = s + sum_list (map pt_size rs)"
proof -
  have "map (\<lambda>(f, b, l). (f, l)) (segment_scan s (zip (map pt_file_id rs) (scan_ends s rs))) = map part_ref rs \<and>
    last (s # scan_ends s rs) = s + sum_list (map pt_size rs)"
    using assms
  proof (induction rs arbitrary: s)
    case (Cons r rs)
    have "0 \<le> sum_list (map pt_size rs)" using Cons.prems(2) by (intro sum_list_nonneg) auto
    then have "as_i64 (s + pt_size r) = s + pt_size r"
      using Cons.prems by (intro as_i64_id) auto
    with Cons.IH [of "s + pt_size r"] Cons.prems show ?case by (simp add: part_ref_def)
  qed simp
  then show "map (\<lambda>(f, b, l). (f, l)) (segment_scan s (zip (map pt_file_id rs) (scan_ends s rs))) = map part_ref rs"
    and "last (s # scan_ends s rs) = s + sum_list (map pt_size rs)" by auto
qed

section \<open>Which listings complete an upload\<close>

text \<open>Every recorded part once, each with its digest in hexadecimal, in any order.\<close>

definition a_listing_ok :: "abs_store \<Rightarrow> ustring \<Rightarrow> (int \<times> ustring) list \<Rightarrow> bool" where
  "a_listing_ok a uid listed \<longleftrightarrow>
     listed \<noteq> [] \<and> distinct (map fst listed) \<and>
     fst ` set listed = {no. a_parts a (uid, no) \<noteq> None} \<and>
     (\<forall>(no, e) \<in> set listed. e = hex (snd (the (a_parts a (uid, no)))))"

text \<open>The object the parts make: their bytes in part order, the digest of their digests.\<close>

definition a_joined :: "(bytes \<Rightarrow> bytes) \<Rightarrow> abs_store \<Rightarrow> ustring \<Rightarrow> (int \<times> ustring) list \<Rightarrow> bytes \<times> bytes" where
  "a_joined sha a uid listed =
     (let parts = map (\<lambda>no. the (a_parts a (uid, no))) (sort (map fst listed))
      in (concat (map fst parts), sha (concat (map snd parts))))"

definition a_drop_upload :: "ustring \<Rightarrow> abs_store \<Rightarrow> abs_store" where
  "a_drop_upload uid a = a\<lparr>a_uploads := (a_uploads a)(uid := None),
     a_parts := (\<lambda>un. if fst un = uid then None else a_parts a un)\<rparr>"

definition sorted_parts :: "db \<Rightarrow> ustring \<Rightarrow> part_row list" where
  "sorted_parts db uid = sort_key pt_no (parts_of db uid)"

lemma set_sorted_parts: "set (sorted_parts db uid) = {p \<in> set (d_parts db). pt_upload p = uid}"
  by (auto simp: sorted_parts_def parts_of_def)

lemma distinct_part_nos:
  assumes "distinct (map pkey (d_parts db))"
  shows "distinct (map pt_no (sorted_parts db uid))"
proof -
  have "distinct (map pt_no (parts_of db uid))"
    using assms unfolding parts_of_def by (induction "d_parts db" rule: rev_induct) (auto simp: pkey_def distinct_map inj_on_def)
  then show ?thesis unfolding sorted_parts_def by (simp add: distinct_map inj_on_def)
qed

lemma sorted_part_lookup:
  assumes "distinct (map pkey (d_parts db))" and "p \<in> set (sorted_parts db uid)"
  shows "a_parts (abs_of db) (uid, pt_no p) = Some (file_bytes (d_chunks db) (pt_file_id p), pt_sha p)"
proof -
  have "find_part db uid (pt_no p) = Some p"
    using assms by (simp add: find_part_Some set_sorted_parts pkey_def)
  then show ?thesis by (simp add: abs_of_def)
qed

lemma part_numbers:
  assumes "distinct (map pkey (d_parts db))"
  shows "{no. a_parts (abs_of db) (uid, no) \<noteq> None} = pt_no ` set (sorted_parts db uid)"
proof -
  have "find_part db uid no \<noteq> None \<longleftrightarrow> no \<in> pt_no ` set (sorted_parts db uid)" for no
    using find_part_Some [OF assms, of uid no]
    by (auto simp: set_sorted_parts pkey_def image_iff)
  then show ?thesis by (auto simp: abs_of_def)
qed

lemma map_fst_sort_key: "map fst (sort_key fst xs) = sort (map fst xs)"
  by (rule properties_for_sort [symmetric]) simp_all

lemma digests_agree:
  assumes "distinct (map pkey (d_parts db))"
    and "map fst want = map pt_no (sorted_parts db uid)"
  shows "(\<forall>(no, e) \<in> set want. e = hex (snd (the (a_parts (abs_of db) (uid, no))))) \<longleftrightarrow>
    map snd want = map (hex \<circ> pt_sha) (sorted_parts db uid)"
proof -
  let ?rows = "sorted_parts db uid"
  have len: "length want = length ?rows" using assms(2) map_eq_imp_length_eq by blast
  have "snd (want ! i) = hex (snd (the (a_parts (abs_of db) (uid, fst (want ! i))))) \<longleftrightarrow>
    snd (want ! i) = hex (pt_sha (?rows ! i))" if i: "i < length ?rows" for i
  proof -
    have "fst (want ! i) = pt_no (?rows ! i)" using assms(2) i len by (metis nth_map)
    with sorted_part_lookup [OF assms(1) nth_mem [OF i]] show ?thesis by simp
  qed
  then show ?thesis by (auto simp: all_set_conv_all_nth list_eq_iff_nth_eq len case_prod_unfold)
qed

lemma listing_ok_iff:
  assumes "distinct (map pkey (d_parts db))"
  shows "a_listing_ok (abs_of db) uid listed \<longleftrightarrow>
    listed \<noteq> [] \<and> map fst (sort_key fst listed) = map pt_no (sorted_parts db uid) \<and>
    map snd (sort_key fst listed) = map (hex \<circ> pt_sha) (sorted_parts db uid)"
proof -
  let ?rows = "sorted_parts db uid" and ?want = "sort_key fst listed"
  have rows: "distinct (map pt_no ?rows)" "sorted (map pt_no ?rows)"
    by (simp_all add: distinct_part_nos [OF assms]) (simp add: sorted_parts_def)
  have nos: "distinct (map fst listed) \<and> fst ` set listed = pt_no ` set ?rows \<longleftrightarrow> map fst ?want = map pt_no ?rows"
  proof
    assume "distinct (map fst listed) \<and> fst ` set listed = pt_no ` set ?rows"
    then show "map fst ?want = map pt_no ?rows"
      using rows by (intro sorted_distinct_set_unique) (simp_all add: map_fst_sort_key)
  next
    assume eq: "map fst ?want = map pt_no ?rows"
    then have "distinct (map fst ?want)" "set (map fst ?want) = pt_no ` set ?rows" using rows by simp_all
    then show "distinct (map fst listed) \<and> fst ` set listed = pt_no ` set ?rows"
      by (simp add: map_fst_sort_key del: set_map) simp
  qed
  have "(\<forall>(no, e) \<in> set listed. e = hex (snd (the (a_parts (abs_of db) (uid, no))))) \<longleftrightarrow>
    (\<forall>(no, e) \<in> set ?want. e = hex (snd (the (a_parts (abs_of db) (uid, no)))))" by simp
  with digests_agree [OF assms, of ?want uid] nos show ?thesis
    unfolding a_listing_ok_def part_numbers [OF assms] by blast
qed

section \<open>Dropping an upload\<close>

definition kept_parts :: "db \<Rightarrow> ustring \<Rightarrow> part_row list" where
  "kept_parts db uid = filter (\<lambda>p. pt_upload p \<noteq> uid) (d_parts db)"

lemma part_refs_upload:
  "mset (map part_ref (d_parts db)) = mset (map part_ref (sorted_parts db uid)) + mset (map part_ref (kept_parts db uid))"
proof -
  have "mset (d_parts db) = mset (sorted_parts db uid) + mset (kept_parts db uid)"
    by (simp add: sorted_parts_def parts_of_def kept_parts_def)
  then show ?thesis by simp
qed

text \<open>The state after the rows of an upload are gone, whatever happened to the objects.\<close>

lemma drop_upload_ok:
  assumes ok: "db_ok db"
    and db': "db' = db\<lparr>d_objects := objs, d_chunks := chunks, d_parts := kept_parts db uid,
      d_uploads := filter (\<lambda>u. up_id u \<noteq> uid) (d_uploads db)\<rparr>"
    and objs: "distinct (map okey objs)" "\<forall>r \<in> set objs. row_shape r \<and> bucket_exists db (o_bucket r)"
    and backed: "ct.backed chunks (concat (map object_refs objs) @ map part_ref (kept_parts db uid))"
    and ids: "fst ` set (concat (map object_refs objs)) \<subseteq> fst ` set (refs db)"
  shows "db_ok db'" and "fst ` set (refs db') \<subseteq> fst ` set (refs db)"
proof -
  show sub: "fst ` set (refs db') \<subseteq> fst ` set (refs db)"
  proof -
    have "refs db' = concat (map object_refs objs) @ map part_ref (kept_parts db uid)"
      by (simp add: db' refs_def)
    moreover have "fst ` set (map part_ref (kept_parts db uid)) \<subseteq> fst ` set (refs db)"
      by (auto simp: refs_def kept_parts_def)
    ultimately show ?thesis using ids by (simp only: set_append image_Un Un_subset_iff)
  qed
  have "distinct (map up_id (filter (\<lambda>u. up_id u \<noteq> uid) (d_uploads db)))"
    and "distinct (map ukey (filter (\<lambda>u. up_id u \<noteq> uid) (d_uploads db)))"
    and "distinct (map pkey (kept_parts db uid))"
    using ok by (auto simp: db_ok_def kept_parts_def distinct_map_filter)
  moreover have "\<forall>p \<in> set (kept_parts db uid). pt_upload p \<in> up_id ` set (filter (\<lambda>u. up_id u \<noteq> uid) (d_uploads db))"
    using ok by (force simp: db_ok_def kept_parts_def)
  moreover have "ct.backed chunks (refs db')" using backed by (simp add: db' refs_def)
  moreover have "fst ` set (refs db') \<subseteq> {f. fresh_id db f} \<union> fst ` set (refs db)" using sub by blast
  moreover have "\<forall>u \<in> set (filter (\<lambda>u. up_id u \<noteq> uid) (d_uploads db)). bucket_exists db (up_bucket u)"
    using ok by (simp add: db_ok_def)
  ultimately show "db_ok db'" using objs by (intro db_ok_write [OF ok db'])
qed

lemma abs_uploads_drop:
  "d_uploads db' = filter (\<lambda>u. up_id u \<noteq> uid) (d_uploads db) \<Longrightarrow>
    a_uploads (abs_of db') = (a_uploads (abs_of db))(uid := None)"
proof (rule ext)
  fix x assume db': "d_uploads db' = filter (\<lambda>u. up_id u \<noteq> uid) (d_uploads db)"
  have e: "List.find (\<lambda>u. up_id u = x) (filter (\<lambda>u. up_id u \<noteq> uid) us) =
      (if x = uid then None else List.find (\<lambda>u. up_id u = x) us)" for us
    by (induction us) auto
  show "a_uploads (abs_of db') x = ((a_uploads (abs_of db))(uid := None)) x"
    unfolding abs_of_def find_upload_def db' abs_store.simps e by simp
qed

lemma abs_parts_drop:
  assumes "distinct (map pkey (d_parts db))" and db': "d_parts db' = kept_parts db uid"
    and keep: "keeps db db' (map part_ref (kept_parts db uid))"
  shows "a_parts (abs_of db') = (\<lambda>un. if fst un = uid then None else a_parts (abs_of db) un)"
proof (rule ext)
  fix un
  have dist: "distinct (map pkey (d_parts db'))" using assms(1) by (simp add: db' kept_parts_def distinct_map_filter)
  show "a_parts (abs_of db') un = (if fst un = uid then None else a_parts (abs_of db) un)"
  proof (cases "fst un = uid")
    case True
    then have "find_part db' (fst un) (snd un) = None"
      by (auto simp: find_part_def find_None db' kept_parts_def)
    with True show ?thesis by (simp add: abs_of_def case_prod_unfold)
  next
    case False
    have "a_parts (abs_of db') un = a_parts (abs_of db) un"
    proof (rule abs_parts_eqI [where K = "{un. fst un = uid}", OF assms(1) dist])
      fix p assume "p \<in> set (d_parts db)" "pkey p \<notin> {un. fst un = uid}"
      then have "p \<in> set (kept_parts db uid)" by (simp add: kept_parts_def pkey_def)
      then have "pt_file_id p \<in> fst ` set (map part_ref (kept_parts db uid))" by (force simp: part_ref_def)
      then show "file_bytes (d_chunks db') (pt_file_id p) = file_bytes (d_chunks db) (pt_file_id p)"
        using keep unfolding keeps_def by blast
    qed (use False in \<open>auto simp: db' kept_parts_def pkey_def\<close>)
    with False show ?thesis by simp
  qed
qed

lemma abs_of_dropI:
  assumes "d_buckets db' = d_buckets db" and "a_objects (abs_of db') = X"
    and "a_uploads (abs_of db') = (a_uploads (abs_of db))(uid := None)"
    and "a_parts (abs_of db') = (\<lambda>un. if fst un = uid then None else a_parts (abs_of db) un)"
  shows "abs_of db' = a_drop_upload uid ((abs_of db)\<lparr>a_objects := X\<rparr>)"
proof -
  have "a_buckets (abs_of db') = a_buckets (abs_of db)" using assms(1) by (simp add: abs_of_def)
  with assms(2-4) show ?thesis by (intro abs_store.equality) (simp_all add: a_drop_upload_def cong: if_cong)
qed

section \<open>Abort\<close>

lemma upload_exists_abs:
  "db_ok db \<Longrightarrow> upload_exists db uid b k \<longleftrightarrow> a_uploads (abs_of db) uid = Some (b, k)"
  using find_upload_Some [OF db_okD(6), of db uid]
  by (auto simp: upload_exists_def abs_of_def ukey_def)

lemma abort_spec:
  assumes ok: "db_ok db" and up: "a_uploads (abs_of db) uid = Some (b, k)"
  obtains db' where "abort_upload uid b k db = (True, db')" and "db_ok db'"
    and "abs_of db' = a_drop_upload uid (abs_of db)"
    and "fst ` set (refs db') \<subseteq> fst ` set (refs db)" and "d_next_id db' = d_next_id db"
proof -
  let ?live = "concat (map object_refs (d_objects db)) @ map part_ref (kept_parts db uid)"
  define chunks where "chunks = delete_files (d_chunks db) (map pt_file_id (parts_of db uid))"
  define db' where "db' = db\<lparr>d_objects := d_objects db, d_chunks := chunks, d_parts := kept_parts db uid,
    d_uploads := filter (\<lambda>u. up_id u \<noteq> uid) (d_uploads db)\<rparr>"
  have run: "abort_upload uid b k db = (True, db')"
    using up by (simp add: abort_upload_def upload_exists_abs [OF ok] drop_upload_def Let_def db'_def
        chunks_def kept_parts_def)
  have "mset (refs db) = mset (map part_ref (sorted_parts db uid) @ ?live)"
    using part_refs_upload [of db uid] by (simp add: refs_def)
  then have "ct.backed (d_chunks db) (map part_ref (sorted_parts db uid) @ ?live)"
    using db_okD(1) [OF ok] ct.backed_mset by blast
  moreover have "set (map pt_file_id (parts_of db uid)) = fst ` set (map part_ref (sorted_parts db uid))"
    by (auto simp: sorted_parts_def part_ref_def image_iff)
  ultimately have live: "ct.backed chunks ?live"
    "\<And>g. g \<in> fst ` set ?live \<Longrightarrow> file_bytes chunks g = file_bytes (d_chunks db) g"
    unfolding chunks_def by (rule drop_files)+
  then have keep: "keeps db db' ?live" by (simp add: keeps_def db'_def)
  have sub: "fst ` set (concat (map object_refs (d_objects db))) \<subseteq> fst ` set (refs db)"
    by (simp add: refs_def image_Un)
  have shapes: "\<forall>r \<in> set (d_objects db). row_shape r \<and> bucket_exists db (o_bucket r)"
    using db_okD(3,4) [OF ok] by blast
  note ok' = drop_upload_ok(1) [OF ok db'_def db_okD(2) [OF ok] shapes live(1) sub]
    and ids = drop_upload_ok(2) [OF ok db'_def db_okD(2) [OF ok] shapes live(1) sub]
  have "abs_of db' = a_drop_upload uid ((abs_of db)\<lparr>a_objects := a_objects (abs_of db)\<rparr>)"
    using keep db_okD(2,5) [OF ok]
    by (intro abs_of_dropI abs_objects_same abs_uploads_drop abs_parts_drop) (simp_all add: db'_def keeps_append)
  then show thesis using that [OF run ok'] ids by (simp add: db'_def)
qed

section \<open>Complete\<close>

text \<open>The row a completed upload publishes.\<close>

definition joined_row :: "(bytes \<Rightarrow> bytes) \<Rightarrow> int \<Rightarrow> ustring \<Rightarrow> ustring \<Rightarrow> part_row list \<Rightarrow> object_row" where
  "joined_row sha now b k rows =
     \<lparr>o_bucket = b, o_key = k, o_file_id = map pt_file_id rows ! 0, o_size = sum_list (map pt_size rows),
      o_etag = sha (concat (map pt_sha rows)), o_created = now,
      o_parts = Some (map pt_file_id rows), o_part_ends = Some (scan_ends 0 rows)\<rparr>"

lemma part_sizes:
  assumes "db_ok db" and "p \<in> set (d_parts db)"
  shows "pt_size p = int (length (file_bytes (d_chunks db) (pt_file_id p)))"
proof -
  have "(pt_file_id p, pt_size p) \<in> set (refs db)" using assms(2) by (auto simp: refs_def part_ref_def)
  from ct.backed_holds [OF db_okD(1) [OF assms(1)] this] show ?thesis by (auto dest: holds_file_bytes)
qed

lemma joined_row_refs:
  assumes "\<forall>r \<in> set rows. 0 \<le> pt_size r" and "sum_list (map pt_size rows) < 2 ^ 63" and "rows \<noteq> []"
  shows "object_refs (joined_row sha now b k rows) = map part_ref rows"
    and "row_shape (joined_row sha now b k rows)"
proof -
  show refs: "object_refs (joined_row sha now b k rows) = map part_ref rows"
    using scan_ends_sums(1) [of 0 rows] assms
    by (simp add: object_refs_def segments_def row_meta_def joined_row_def)
  have "snd \<circ> part_ref = pt_size" by (simp add: fun_eq_iff part_ref_def)
  then show "row_shape (joined_row sha now b k rows)"
    using assms(3) unfolding row_shape_def refs map_map by (simp add: joined_row_def hd_map hd_conv_nth)
qed

lemma joined_row_stored:
  assumes "object_refs (joined_row sha now b k rows) = map part_ref rows"
  shows "stored_object db (joined_row sha now b k rows) =
    (concat (map (file_bytes (d_chunks db) \<circ> pt_file_id) rows), sha (concat (map pt_sha rows)))"
  unfolding stored_object_def object_bytes_refs assms
  by (simp add: joined_row_def part_ref_def comp_def)

lemma a_joined_rows:
  assumes "distinct (map pkey (d_parts db))" and "a_listing_ok (abs_of db) uid listed"
  shows "a_joined sha (abs_of db) uid listed =
    (concat (map (file_bytes (d_chunks db) \<circ> pt_file_id) (sorted_parts db uid)),
     sha (concat (map pt_sha (sorted_parts db uid))))"
proof -
  let ?rows = "sorted_parts db uid"
  have nos: "sort (map fst listed) = map pt_no ?rows"
    using assms by (simp add: listing_ok_iff map_fst_sort_key)
  have e: "map (\<lambda>no. the (a_parts (abs_of db) (uid, no))) (map pt_no ?rows) =
      map (\<lambda>p. (file_bytes (d_chunks db) (pt_file_id p), pt_sha p)) ?rows"
    using sorted_part_lookup [OF assms(1)] by simp
  show ?thesis unfolding a_joined_def Let_def nos e by (simp add: comp_def)
qed

text \<open>Every way Complete refuses leaves the database as it was.\<close>

lemma complete_no_upload:
  assumes "db_ok db" and "a_uploads (abs_of db) uid \<noteq> Some (b, k)"
  shows "complete_tx sha now uid b k listed db = (Inr (NoSuchUpload, [], []), db)"
  using assms(2) by (auto simp: complete_tx_def abs_of_def find_upload_def ukey_def split: option.splits)

lemma complete_scan_sorted:
  assumes "distinct (map pkey (d_parts db))" and "length listed = length (sorted_parts db uid)" and "listed \<noteq> []"
  shows "complete_scan (sort_key fst listed) (sorted_parts db uid) 0 =
    (if a_listing_ok (abs_of db) uid listed
     then Some (map pt_file_id (sorted_parts db uid), scan_ends 0 (sorted_parts db uid),
       last (0 # scan_ends 0 (sorted_parts db uid)), concat (map pt_sha (sorted_parts db uid)))
     else None)"
  using assms(2,3) by (simp add: complete_scan_eq listing_ok_iff [OF assms(1)])

lemma complete_bad_listing:
  assumes "db_ok db" and "a_uploads (abs_of db) uid = Some (b, k)" and "\<not> a_listing_ok (abs_of db) uid listed"
  shows "complete_tx sha now uid b k listed db = (Inr (InvalidPart, [], []), db)"
proof -
  obtain u where u: "List.find (\<lambda>u. up_id u = uid) (d_uploads db) = Some u" "up_bucket u = b" "up_key u = k"
    using assms(2) by (auto simp: abs_of_def find_upload_def ukey_def)
  have "sort_key fst listed = [] \<longleftrightarrow> listed = []" by (metis length_0_conv length_sort)
  then show ?thesis
    using assms(3) complete_scan_sorted [OF db_okD(5) [OF assms(1)], of listed uid]
    by (auto simp: complete_tx_def u Let_def sorted_parts_def)
qed

text \<open>The swap of a completion: the parts' files become the object's.\<close>

lemma complete_swap:
  fixes sha now
  assumes ok: "db_ok db" and up: "a_uploads (abs_of db) uid = Some (b, k)"
    and rows: "sorted_parts db uid \<noteq> []" and fits: "sum_list (map pt_size (sorted_parts db uid)) < 2 ^ 63"
  defines "new \<equiv> joined_row sha now b k (sorted_parts db uid)"
  obtains db' where "swap_object now b k
      \<lparr>w_file_id = map pt_file_id (sorted_parts db uid) ! 0, w_size = sum_list (map pt_size (sorted_parts db uid)),
       w_etag = sha (concat (map pt_sha (sorted_parts db uid))),
       w_parts = Some (map pt_file_id (sorted_parts db uid), scan_ends 0 (sorted_parts db uid)),
       w_condition = Unconditional\<rparr> db = Inr db'"
    and "db' = db\<lparr>d_objects := d_objects db', d_chunks := d_chunks db'\<rparr>"
    and "distinct (map okey (d_objects db'))" and "set (d_objects db') = insert new (set (others db b k))"
    and "ct.backed (d_chunks db') (concat (map object_refs (d_objects db')) @ map part_ref (kept_parts db uid))"
    and "keeps db db' (map part_ref (kept_parts db uid))"
    and "find_object db' b k = Some new"
    and "a_objects (abs_of db') = (a_objects (abs_of db))((b, k) \<mapsto> stored_object db new)"
    and "object_refs new = map part_ref (sorted_parts db uid)" and "row_shape new" and "bucket_exists db b"
proof -
  let ?rows = "sorted_parts db uid"
  let ?w = "\<lparr>w_file_id = map pt_file_id ?rows ! 0, w_size = sum_list (map pt_size ?rows),
    w_etag = sha (concat (map pt_sha ?rows)), w_parts = Some (map pt_file_id ?rows, scan_ends 0 ?rows),
    w_condition = Unconditional\<rparr>"
  have w: "written_row now b k ?w = new" by (simp add: written_row_def new_def joined_row_def)
  have "\<forall>r \<in> set ?rows. 0 \<le> pt_size r" using part_sizes [OF ok] by (simp add: set_sorted_parts)
  note new = joined_row_refs [OF this fits rows, of sha now b k, folded new_def]
  obtain u where "u \<in> set (d_uploads db)" "up_bucket u = b"
    using up find_upload_Some [OF db_okD(6) [OF ok], of uid] by (auto simp: abs_of_def ukey_def)
  then have bucket: "bucket_exists db b" using ok by (auto simp: db_ok_def)
  have "mset (refs db) = mset (map part_ref ?rows @ concat (map object_refs (d_objects db)) @ map part_ref (kept_parts db uid))"
    using part_refs_upload [of db uid] by (simp add: refs_def)
  then have "ct.backed (d_chunks db) (object_refs new @ concat (map object_refs (d_objects db)) @ map part_ref (kept_parts db uid))"
    using db_okD(1) [OF ok] ct.backed_mset unfolding new(1) by blast
  then show thesis
    using publish_spec [of db b now k ?w "map part_ref (kept_parts db uid)" thesis, unfolded w]
      db_okD(2,3) [OF ok] bucket new that
    by (simp add: write_allowed_def)
qed

lemma joined_length:
  assumes "db_ok db" and "set rows \<subseteq> set (d_parts db)"
  shows "int (length (concat (map (file_bytes (d_chunks db) \<circ> pt_file_id) rows))) = sum_list (map pt_size rows)"
  using assms(2) by (induction rows) (simp_all add: part_sizes [OF assms(1)])

text \<open>What Complete returns once its checks passed and the swap succeeded.\<close>

lemma complete_run:
  assumes ok: "db_ok db" and up: "a_uploads (abs_of db) uid = Some (b, k)"
    and listing: "a_listing_ok (abs_of db) uid listed" and len: "length listed = length (sorted_parts db uid)"
    and fits: "sum_list (map pt_size (sorted_parts db uid)) < 2 ^ 63"
    and swap: "swap_object now b k
      \<lparr>w_file_id = map pt_file_id (sorted_parts db uid) ! 0, w_size = sum_list (map pt_size (sorted_parts db uid)),
       w_etag = sha (concat (map pt_sha (sorted_parts db uid))),
       w_parts = Some (map pt_file_id (sorted_parts db uid), scan_ends 0 (sorted_parts db uid)),
       w_condition = Unconditional\<rparr> db = Inr db1"
  shows "complete_tx sha now uid b k listed db =
      (Inr (CompleteDone b k (snd (a_joined sha (abs_of db) uid listed))
              (int (length (fst (a_joined sha (abs_of db) uid listed)))),
            map pt_file_id (sorted_parts db uid), scan_ends 0 (sorted_parts db uid)), drop_upload uid db1)"
proof -
  let ?rows = "sorted_parts db uid"
  have nonempty: "listed \<noteq> []" using listing by (simp add: a_listing_ok_def)
  then have want: "sort_key fst listed \<noteq> []" by (metis length_0_conv length_sort)
  obtain u where u: "List.find (\<lambda>u. up_id u = uid) (d_uploads db) = Some u" "up_bucket u = b" "up_key u = k"
    using up by (auto simp: abs_of_def find_upload_def ukey_def)
  have sub: "set ?rows \<subseteq> set (d_parts db)" by (auto simp: set_sorted_parts)
  have "last (0 # scan_ends 0 ?rows) = 0 + sum_list (map pt_size ?rows)"
    using fits sub part_sizes [OF ok] by (intro scan_ends_sums(2)) auto
  moreover have "int (length (fst (a_joined sha (abs_of db) uid listed))) = sum_list (map pt_size ?rows)"
    using joined_length [OF ok sub] by (simp add: a_joined_rows [OF db_okD(5) [OF ok] listing])
  moreover have "snd (a_joined sha (abs_of db) uid listed) = sha (concat (map pt_sha ?rows))"
    by (simp add: a_joined_rows [OF db_okD(5) [OF ok] listing])
  ultimately show ?thesis
    using complete_scan_sorted [OF db_okD(5) [OF ok] len nonempty] listing len want swap
    by (simp add: complete_tx_def u Let_def sorted_parts_def del: last.simps)
qed

text \<open>Complete moves references, it makes none.\<close>

lemma joined_refs_subset:
  assumes "set objs = insert new (set (others db b k))" and "object_refs new = map part_ref (sorted_parts db uid)"
  shows "set (concat (map object_refs objs)) \<subseteq> set (refs db)"
proof -
  have "set (map part_ref (sorted_parts db uid)) \<subseteq> set (refs db)" by (auto simp: refs_def set_sorted_parts)
  moreover have "set (concat (map object_refs (others db b k))) \<subseteq> set (refs db)" by (auto simp: refs_def others_def)
  moreover have "set (concat (map object_refs objs)) =
      set (map part_ref (sorted_parts db uid)) \<union> set (concat (map object_refs (others db b k)))"
    using assms by simp
  ultimately show ?thesis by (metis Un_least)
qed

lemma listing_rows:
  assumes "db_ok db" and "a_listing_ok (abs_of db) uid listed"
  shows "length listed = length (sorted_parts db uid)" and "sorted_parts db uid \<noteq> []"
proof -
  have match: "listed \<noteq> []" "map fst (sort_key fst listed) = map pt_no (sorted_parts db uid)"
    using assms(2) listing_ok_iff [OF db_okD(5) [OF assms(1)]] by auto
  then show "length listed = length (sorted_parts db uid)" by (metis length_map length_sort)
  with match(1) show "sorted_parts db uid \<noteq> []" by auto
qed

lemma sorted_parts_sum: "sum_list (map pt_size (sorted_parts db uid)) = sum_list (map pt_size (parts_of db uid))"
  unfolding sorted_parts_def by (metis mset_map mset_sort sum_mset_sum_list)

lemma complete_spec:
  assumes ok: "db_ok db" and up: "a_uploads (abs_of db) uid = Some (b, k)"
    and listing: "a_listing_ok (abs_of db) uid listed"
    and fits: "sum_list (map pt_size (parts_of db uid)) < 2 ^ 63"
  obtains db' where "complete_tx sha now uid b k listed db =
      (Inr (CompleteDone b k (snd (a_joined sha (abs_of db) uid listed))
              (int (length (fst (a_joined sha (abs_of db) uid listed)))),
            map pt_file_id (sorted_parts db uid), scan_ends 0 (sorted_parts db uid)), db')"
    and "db_ok db'"
    and "abs_of db' = a_drop_upload uid ((abs_of db)\<lparr>a_objects :=
      (a_objects (abs_of db))((b, k) \<mapsto> a_joined sha (abs_of db) uid listed)\<rparr>)"
    and "fst ` set (refs db') \<subseteq> fst ` set (refs db)" and "d_next_id db' = d_next_id db"
    and "find_object db' b k = Some (joined_row sha now b k (sorted_parts db uid))"
    and "set (refs db') \<subseteq> set (refs db)"
proof -
  let ?rows = "sorted_parts db uid"
  let ?new = "joined_row sha now b k ?rows"
  note len = listing_rows(1) [OF ok listing] and rows = listing_rows(2) [OF ok listing]
  have fits': "sum_list (map pt_size ?rows) < 2 ^ 63" using fits by (simp only: sorted_parts_sum)
  obtain db1 where db1: "swap_object now b k
      \<lparr>w_file_id = map pt_file_id ?rows ! 0, w_size = sum_list (map pt_size ?rows),
       w_etag = sha (concat (map pt_sha ?rows)), w_parts = Some (map pt_file_id ?rows, scan_ends 0 ?rows),
       w_condition = Unconditional\<rparr> db = Inr db1"
    "db1 = db\<lparr>d_objects := d_objects db1, d_chunks := d_chunks db1\<rparr>"
    "distinct (map okey (d_objects db1))" "set (d_objects db1) = insert ?new (set (others db b k))"
    "ct.backed (d_chunks db1) (concat (map object_refs (d_objects db1)) @ map part_ref (kept_parts db uid))"
    "keeps db db1 (map part_ref (kept_parts db uid))" "find_object db1 b k = Some ?new"
    "a_objects (abs_of db1) = (a_objects (abs_of db))((b, k) \<mapsto> stored_object db ?new)"
    "object_refs ?new = map part_ref ?rows" "row_shape ?new" "bucket_exists db b"
    by (rule complete_swap [OF ok up rows fits'])
  obtain objs ch where db1_eq: "db1 = db\<lparr>d_objects := objs, d_chunks := ch\<rparr>" using db1(2) by blast
  define db' where "db' = db\<lparr>d_objects := objs, d_chunks := ch, d_parts := kept_parts db uid,
    d_uploads := filter (\<lambda>u. up_id u \<noteq> uid) (d_uploads db)\<rparr>"
  have drop: "drop_upload uid db1 = db'" by (simp add: drop_upload_def db'_def db1_eq kept_parts_def)
  have pairs: "set (concat (map object_refs objs)) \<subseteq> set (refs db)"
    by (rule joined_refs_subset [OF _ db1(9)]) (use db1(4) in \<open>simp add: db1_eq\<close>)
  then have sub: "fst ` set (concat (map object_refs objs)) \<subseteq> fst ` set (refs db)" by (rule image_mono)
  have shapes: "\<forall>r \<in> set objs. row_shape r \<and> bucket_exists db (o_bucket r)"
    using db1(4,10,11) db_okD(3,4) [OF ok] by (auto simp: db1_eq others_def joined_row_def)
  have keys: "distinct (map okey objs)" using db1(3) by (simp add: db1_eq)
  have backed: "ct.backed ch (concat (map object_refs objs) @ map part_ref (kept_parts db uid))"
    using db1(5) by (simp add: db1_eq)
  note ok' = drop_upload_ok [OF ok db'_def keys shapes backed sub]
  have joined: "stored_object db ?new = a_joined sha (abs_of db) uid listed"
    by (simp only: joined_row_stored [OF db1(9)] a_joined_rows [OF db_okD(5) [OF ok] listing])
  have "a_objects (abs_of db') = a_objects (abs_of db1)"
    using db1(3) by (intro abs_objects_same) (simp_all add: db'_def db1_eq keeps_refl)
  then have "abs_of db' = a_drop_upload uid ((abs_of db)\<lparr>a_objects :=
      (a_objects (abs_of db))((b, k) \<mapsto> a_joined sha (abs_of db) uid listed)\<rparr>)"
    using db1(6,8) db_okD(5) [OF ok]
    by (intro abs_of_dropI abs_uploads_drop abs_parts_drop)
      (simp_all add: db'_def db1_eq joined keeps_def)
  moreover have "complete_tx sha now uid b k listed db =
      (Inr (CompleteDone b k (snd (a_joined sha (abs_of db) uid listed))
              (int (length (fst (a_joined sha (abs_of db) uid listed)))),
            map pt_file_id ?rows, scan_ends 0 ?rows), db')"
    unfolding drop [symmetric] by (rule complete_run [where sha = sha, OF ok up listing len fits' db1(1)])
  moreover have "find_object db' b k = Some ?new"
    using db1(7) by (simp add: find_object_def db'_def db1_eq)
  moreover have "set (refs db') \<subseteq> set (refs db)"
    using pairs by (auto simp: refs_def db'_def kept_parts_def)
  ultimately show thesis using that ok' by (simp add: db'_def)
qed

end
