(* ===== verification/Transactions.thy ===== *)
theory Transactions
  imports Multipart
begin

text \<open>
  Interleavings of the transactions. A state is the database and the file ids
  handed out to writers that have not finished; a step is one committed or rolled
  back transaction of any gateway. The simulation lemma takes every step to a
  step of the abstract store; the properties follow from it.
\<close>

section \<open>Buckets and upload creation\<close>

lemma abs_of_other_tables:
  assumes "d_objects db' = d_objects db" and "d_chunks db' = d_chunks db" and "d_parts db' = d_parts db"
  shows "a_objects (abs_of db') = a_objects (abs_of db)" and "a_parts (abs_of db') = a_parts (abs_of db)"
proof -
  have "stored_object db' = stored_object db" by (simp add: fun_eq_iff stored_object_def assms)
  then show "a_objects (abs_of db') = a_objects (abs_of db)" by (simp add: abs_of_def find_object_def assms)
  show "a_parts (abs_of db') = a_parts (abs_of db)" by (simp add: abs_of_def find_part_def assms)
qed

lemma abs_of_bucketsI:
  assumes "d_objects db' = d_objects db" and "d_chunks db' = d_chunks db" and "d_parts db' = d_parts db"
    and "d_uploads db' = d_uploads db"
  shows "abs_of db' = (abs_of db)\<lparr>a_buckets := fst ` set (d_buckets db')\<rparr>"
proof (rule abs_store.equality)
  show "a_uploads (abs_of db') = a_uploads ((abs_of db)\<lparr>a_buckets := fst ` set (d_buckets db')\<rparr>)"
    by (simp add: abs_of_def find_upload_def assms(4))
qed (simp_all add: abs_of_other_tables [OF assms(1-3)], simp add: abs_of_def)

lemma create_bucket_spec:
  assumes "db_ok db"
  shows "db_ok (create_bucket now b db)"
    and "abs_of (create_bucket now b db) = (abs_of db)\<lparr>a_buckets := insert b (a_buckets (abs_of db))\<rparr>"
    and "refs (create_bucket now b db) = refs db" and "d_next_id (create_bucket now b db) = d_next_id db"
proof -
  let ?db' = "create_bucket now b db"
  show "db_ok ?db'" and "refs ?db' = refs db" and "d_next_id ?db' = d_next_id db"
    using assms by (auto simp: create_bucket_def db_ok_def bucket_exists_def refs_def)
  have "fst ` set (d_buckets ?db') = insert b (a_buckets (abs_of db))"
    by (auto simp: create_bucket_def bucket_exists_def abs_of_def)
  then show "abs_of ?db' = (abs_of db)\<lparr>a_buckets := insert b (a_buckets (abs_of db))\<rparr>"
    using abs_of_bucketsI [of ?db' db] by (simp add: create_bucket_def)
qed

definition a_bucket_empty :: "abs_store \<Rightarrow> ustring \<Rightarrow> bool" where
  "a_bucket_empty a b \<longleftrightarrow> (\<forall>k. a_objects a (b, k) = None) \<and> (\<forall>u k. a_uploads a u \<noteq> Some (b, k))"

lemma bucket_empty_iff:
  assumes "db_ok db"
  shows "a_bucket_empty (abs_of db) b \<longleftrightarrow>
    \<not> ((\<exists>r \<in> set (d_objects db). o_bucket r = b) \<or> (\<exists>u \<in> set (d_uploads db). up_bucket u = b))"
proof -
  have "(\<forall>k. a_objects (abs_of db) (b, k) = None) \<longleftrightarrow> (\<forall>r \<in> set (d_objects db). o_bucket r \<noteq> b)"
    by (simp add: abs_of_def find_object_None okey_def) blast
  moreover have "(\<forall>u k. a_uploads (abs_of db) u \<noteq> Some (b, k)) \<longleftrightarrow> (\<forall>u \<in> set (d_uploads db). up_bucket u \<noteq> b)"
    using find_upload_Some [OF db_okD(6) [OF assms]] by (auto simp: abs_of_def ukey_def)
  ultimately show ?thesis by (auto simp: a_bucket_empty_def)
qed

lemma delete_bucket_spec:
  assumes ok: "db_ok db"
  shows "delete_bucket b db =
      (if b \<notin> a_buckets (abs_of db) then (BucketNotFound, db)
       else if \<not> a_bucket_empty (abs_of db) b then (BucketNotEmpty, db)
       else (BucketDeleted, db\<lparr>d_buckets := filter (\<lambda>x. fst x \<noteq> b) (d_buckets db)\<rparr>))"
    and "a_bucket_empty (abs_of db) b \<Longrightarrow> db_ok (db\<lparr>d_buckets := filter (\<lambda>x. fst x \<noteq> b) (d_buckets db)\<rparr>)"
    and "abs_of (db\<lparr>d_buckets := filter (\<lambda>x. fst x \<noteq> b) (d_buckets db)\<rparr>) =
      (abs_of db)\<lparr>a_buckets := a_buckets (abs_of db) - {b}\<rparr>"
proof -
  show "delete_bucket b db =
      (if b \<notin> a_buckets (abs_of db) then (BucketNotFound, db)
       else if \<not> a_bucket_empty (abs_of db) b then (BucketNotEmpty, db)
       else (BucketDeleted, db\<lparr>d_buckets := filter (\<lambda>x. fst x \<noteq> b) (d_buckets db)\<rparr>))"
    using bucket_empty_iff [OF ok, of b] by (simp add: delete_bucket_def bucket_exists_def abs_of_def)
  have "abs_of (db\<lparr>d_buckets := filter (\<lambda>x. fst x \<noteq> b) (d_buckets db)\<rparr>) =
      abs_of db\<lparr>a_buckets := fst ` set (filter (\<lambda>x. fst x \<noteq> b) (d_buckets db))\<rparr>"
    using abs_of_bucketsI [of "db\<lparr>d_buckets := filter (\<lambda>x. fst x \<noteq> b) (d_buckets db)\<rparr>" db] by simp
  moreover have "fst ` set (filter (\<lambda>x. fst x \<noteq> b) (d_buckets db)) = a_buckets (abs_of db) - {b}"
    by (auto simp: abs_of_def)
  ultimately show "abs_of (db\<lparr>d_buckets := filter (\<lambda>x. fst x \<noteq> b) (d_buckets db)\<rparr>) =
      (abs_of db)\<lparr>a_buckets := a_buckets (abs_of db) - {b}\<rparr>" by simp
  have other: "bucket_exists (db\<lparr>d_buckets := filter (\<lambda>x. fst x \<noteq> b) (d_buckets db)\<rparr>) x =
      (bucket_exists db x \<and> x \<noteq> b)" for x
    by (force simp: bucket_exists_def)
  assume "a_bucket_empty (abs_of db) b"
  with ok show "db_ok (db\<lparr>d_buckets := filter (\<lambda>x. fst x \<noteq> b) (d_buckets db)\<rparr>)"
    by (simp add: db_ok_def other bucket_empty_iff [OF ok] refs_def distinct_map_filter)
qed

lemma find_append: "List.find P (xs @ ys) = (case List.find P xs of None \<Rightarrow> List.find P ys | Some z \<Rightarrow> Some z)"
  by (induction xs) auto

lemma create_upload_new:
  assumes ok: "db_ok db" and bucket: "bucket_exists db b"
    and free: "List.find (\<lambda>u. up_bucket u = b \<and> up_key u = k) (d_uploads db) = None" and id': "uuid \<notin> up_id ` set (d_uploads db)"
  obtains db' where "create_upload uuid now b k db = (Inr (Some uuid), db')" and "db_ok db'" and "refs db' = refs db"
    and "d_next_id db' = d_next_id db" and "a_uploads (abs_of db) uuid = None" and "\<And>u. a_uploads (abs_of db) u \<noteq> Some (b, k)"
    and "abs_of db' = (abs_of db)\<lparr>a_uploads := (a_uploads (abs_of db))(uuid \<mapsto> (b, k))\<rparr>"
proof -
  let ?u = "\<lparr>up_id = uuid, up_bucket = b, up_key = k, up_created = now\<rparr>"
  define db' where "db' = db\<lparr>d_uploads := d_uploads db @ [?u]\<rparr>"
  have free': "\<forall>u \<in> set (d_uploads db). ukey u \<noteq> (b, k)" using free by (auto simp: find_None ukey_def)
  have none: "find_upload db uuid = None" using id' by (auto simp: find_upload_def find_None)
  have "db_ok db'"
    using ok bucket id' free' by (auto simp: db_ok_def db'_def refs_def bucket_exists_def ukey_def)
  moreover have "a_uploads (abs_of db) u \<noteq> Some (b, k)" for u
    using free' by (auto simp: abs_of_def find_upload_Some [OF db_okD(6) [OF ok]])
  moreover have "a_uploads (abs_of db') = (a_uploads (abs_of db))(uuid \<mapsto> (b, k))"
    using none by (auto simp: abs_of_def find_upload_def db'_def ukey_def find_append fun_eq_iff split: option.split)
  then have "abs_of db' = (abs_of db)\<lparr>a_uploads := (a_uploads (abs_of db))(uuid \<mapsto> (b, k))\<rparr>"
    using abs_of_other_tables [of db' db]
    by (intro abs_store.equality) (simp_all add: db'_def, simp add: abs_of_def)
  moreover have "create_upload uuid now b k db = (Inr (Some uuid), db')"
    using bucket free id' by (simp add: create_upload_def db'_def)
  ultimately show thesis using none that by (simp add: db'_def refs_def abs_of_def)
qed

lemma create_upload_spec:
  assumes ok: "db_ok db"
  obtains "create_upload uuid now b k db = (Inr None, db)" "b \<notin> a_buckets (abs_of db)"
  | id' where "create_upload uuid now b k db = (Inr (Some id'), db)" "a_uploads (abs_of db) id' = Some (b, k)"
  | "create_upload uuid now b k db = (Inl SqlError, db)" "a_uploads (abs_of db) uuid \<noteq> None"
  | db' where "create_upload uuid now b k db = (Inr (Some uuid), db')" "db_ok db'" "b \<in> a_buckets (abs_of db)"
    "a_uploads (abs_of db) uuid = None" "\<forall>u. a_uploads (abs_of db) u \<noteq> Some (b, k)"
    "abs_of db' = (abs_of db)\<lparr>a_uploads := (a_uploads (abs_of db))(uuid \<mapsto> (b, k))\<rparr>"
    "refs db' = refs db" "d_next_id db' = d_next_id db"
proof -
  note find = find_upload_Some [OF db_okD(6) [OF ok]]
  consider "\<not> bucket_exists db b"
    | u where "bucket_exists db b" "List.find (\<lambda>u. up_bucket u = b \<and> up_key u = k) (d_uploads db) = Some u"
    | "bucket_exists db b" "List.find (\<lambda>u. up_bucket u = b \<and> up_key u = k) (d_uploads db) = None"
        "uuid \<in> up_id ` set (d_uploads db)"
    | "bucket_exists db b" "List.find (\<lambda>u. up_bucket u = b \<and> up_key u = k) (d_uploads db) = None"
        "uuid \<notin> up_id ` set (d_uploads db)"
    by (cases "List.find (\<lambda>u. up_bucket u = b \<and> up_key u = k) (d_uploads db)") auto
  then show thesis
  proof cases
    case 1
    then show thesis by (intro that(1)) (simp_all add: create_upload_def bucket_exists_def abs_of_def)
  next
    case (2 u)
    then have "u \<in> set (d_uploads db)" "up_bucket u = b" "up_key u = k"
      by (auto simp: find_Some_iff)
    then have "find_upload db (up_id u) = Some u" by (simp add: find)
    then show thesis using 2 \<open>up_bucket u = b\<close> \<open>up_key u = k\<close>
      by (intro that(2) [of "up_id u"]) (simp_all add: create_upload_def abs_of_def ukey_def)
  next
    case 3
    then have "find_upload db uuid \<noteq> None" by (auto simp: find_upload_def find_None)
    then show thesis using 3 by (intro that(3)) (simp_all add: create_upload_def abs_of_def)
  next
    case 4
    have bucket: "b \<in> a_buckets (abs_of db)" using 4(1) by (simp add: bucket_exists_def abs_of_def)
    show thesis
      by (rule create_upload_new [OF ok 4, of now]) (rule that(4); (assumption | simp add: bucket))
  qed
qed

section \<open>Every outcome of a writer\<close>

text \<open>The precondition of a write, on the abstract object at the key.\<close>

definition a_allowed :: "put_condition \<Rightarrow> (bytes \<times> bytes) option \<Rightarrow> bool" where
  "a_allowed c old =
     (case c of
        Unconditional \<Rightarrow> True
      | IfAbsent \<Rightarrow> old = None
      | IfMatch want \<Rightarrow> (case old of Some (_, etag) \<Rightarrow> hex etag = want | None \<Rightarrow> False))"

lemma write_allowed_abs:
  "write_allowed c (find_object db b k) = a_allowed c (a_objects (abs_of db) (b, k))"
  by (auto simp: write_allowed_def a_allowed_def abs_of_def stored_object_def split: put_condition.split option.split)

lemma bucket_exists_abs: "bucket_exists db b \<longleftrightarrow> b \<in> a_buckets (abs_of db)"
  by (simp add: bucket_exists_def abs_of_def)

lemma messages_cases: "Abort \<in> set msgs \<or> (\<exists>cs. msgs = map Data cs)"
proof (induction msgs)
  case (Cons m msgs)
  then show ?case by (cases m) (auto intro: exI [of _ "_ # _"])
qed simp

lemma ingest_aborted: "Abort \<in> set msgs \<Longrightarrow> ingest_stream sha fid msgs = None"
  by (simp add: ingest_stream_def ingest_loop_Abort)

lemma ingest_tx_error: "ingest_tx sha now fid target msgs db = (Inl e, db') \<Longrightarrow> db' = db"
  by (auto simp: ingest_tx_def Let_def split: if_splits option.splits sum.splits prod.splits)

lemma put_tx_outcome:
  assumes ok: "db_ok db" and fresh: "fresh_id db fid" and fits: "fits_file (concat cs)"
  obtains "ingest_tx sha now fid (ToObject b k c) (map Data cs) db = (Inl NoBucket, db)" "b \<notin> a_buckets (abs_of db)"
  | "ingest_tx sha now fid (ToObject b k c) (map Data cs) db = (Inl PreconditionFailed, db)"
    "b \<in> a_buckets (abs_of db)" "\<not> a_allowed c (a_objects (abs_of db) (b, k))"
  | db' where "ingest_tx sha now fid (ToObject b k c) (map Data cs) db =
      (Inr (int (length (concat cs)), sha (concat cs)), db')"
    "b \<in> a_buckets (abs_of db)" "a_allowed c (a_objects (abs_of db) (b, k))" "db_ok db'"
    "abs_of db' = (abs_of db)\<lparr>a_objects := (a_objects (abs_of db))((b, k) \<mapsto> (concat cs, sha (concat cs)))\<rparr>"
    "fst ` set (refs db') \<subseteq> insert fid (fst ` set (refs db))" "d_next_id db' = d_next_id db"
proof (cases "bucket_exists db b")
  case False
  then show thesis by (intro that(1)) (simp_all add: ingest_tx_def bucket_exists_abs)
next
  case bucket: True
  show thesis
  proof (cases "write_allowed c (find_object db b k)")
    case True
    then show thesis
      using put_tx_spec [OF ok fresh bucket fits True, of sha now] that(3) bucket
      by (metis bucket_exists_abs write_allowed_abs)
  next
    case False
    have fid: "0 < fid" "fid < 2 ^ 63" using fresh ok by (auto simp: fresh_id_def db_ok_def)
    obtain chunks where "copy_in (d_chunks db) (file_rows fid (concat cs)) = Some chunks"
      by (rule copy_tx [OF ok fresh fits])
    with False bucket fid fits have "ingest_tx sha now fid (ToObject b k c) (map Data cs) db = (Inl PreconditionFailed, db)"
      by (simp add: ingest_tx_def ingest_stream_framed copy_parse_framed swap_object_def find_object_def)
    with False bucket show thesis by (intro that(2)) (simp_all add: bucket_exists_abs write_allowed_abs)
  qed
qed

lemma part_no_upload:
  "uid \<notin> up_id ` set (d_uploads db) \<Longrightarrow> ingest_stream sha fid msgs \<noteq> None \<Longrightarrow>
    ingest_tx sha now fid (ToPart uid no) msgs db = (Inl SqlError, db)"
  by (auto simp: ingest_tx_def commit_part_def Let_def split: option.splits)

lemma write_aborted:
  assumes "Abort \<in> set msgs"
  shows "ingest_tx sha now fid (ToObject b k c) msgs db = (Inl (if bucket_exists db b then IngestAborted else NoBucket), db)"
    and "ingest_tx sha now fid (ToPart uid no) msgs db = (Inl IngestAborted, db)"
  by (simp_all add: ingest_tx_def ingest_aborted [OF assms])

section \<open>Steps\<close>

text \<open>The state: the database and the file ids of the writers in flight.\<close>

type_synonym sys = "db \<times> int list"

definition msgs_bytes :: "ingest_msg list \<Rightarrow> bytes" where
  "msgs_bytes msgs = concat (map (\<lambda>m. case m of Data b \<Rightarrow> b | Abort \<Rightarrow> []) msgs)"

lemma msgs_bytes_Data [simp]: "msgs_bytes (map Data cs) = concat cs"
  by (simp add: msgs_bytes_def comp_def)

text \<open>
  A transaction with its arguments and its answer. The answer of a completion leaves out the file ids,
  which the metadata cache alone is told.
\<close>

datatype tx =
    TxBegin int
  | TxWrite writer_target "ingest_msg list" "db_error + (int \<times> bytes)"
  | TxDelete ustring ustring bool
  | TxCreateBucket ustring
  | TxDeleteBucket ustring bucket_deletion
  | TxCreateUpload ustring ustring ustring "db_error + ustring option"
  | TxComplete ustring ustring ustring "(int \<times> ustring) list" "db_error + completed"
  | TxAbort ustring ustring ustring bool

text \<open>
  The transactions of the gateways. The expiry, which a cron job of the database runs, is added in
  theory \<open>Expiry\<close>.
\<close>

inductive tx_step :: "(bytes \<Rightarrow> bytes) \<Rightarrow> tx \<Rightarrow> sys \<Rightarrow> sys \<Rightarrow> bool" for sha where
  tx_begin: "nextval db = Inr (f, db') \<Longrightarrow> tx_step sha (TxBegin f) (db, fl) (db', fl @ [f])"
| tx_writer: "f \<in> set fl \<Longrightarrow> fits_file (msgs_bytes msgs) \<Longrightarrow> ingest_tx sha now f target msgs db = (r, db') \<Longrightarrow>
    tx_step sha (TxWrite target msgs r) (db, fl) (db', remove1 f fl)"
| tx_delete: "delete_tx b k db = (found, db') \<Longrightarrow> tx_step sha (TxDelete b k found) (db, fl) (db', fl)"
| tx_create_bucket: "tx_step sha (TxCreateBucket b) (db, fl) (create_bucket now b db, fl)"
| tx_delete_bucket: "delete_bucket b db = (d, db') \<Longrightarrow> tx_step sha (TxDeleteBucket b d) (db, fl) (db', fl)"
| tx_create_upload: "create_upload uuid now b k db = (u, db') \<Longrightarrow>
    tx_step sha (TxCreateUpload uuid b k u) (db, fl) (db', fl)"
| tx_complete: "sum_list (map pt_size (parts_of db uid)) < 2 ^ 63 \<Longrightarrow>
    complete_tx sha now uid b k listed db = (c, db') \<Longrightarrow>
    tx_step sha (TxComplete uid b k listed (map_sum id fst c)) (db, fl) (db', fl)"
| tx_abort: "abort_upload uid b k db = (a, db') \<Longrightarrow> tx_step sha (TxAbort uid b k a) (db, fl) (db', fl)"

definition sys_step :: "(bytes \<Rightarrow> bytes) \<Rightarrow> sys \<Rightarrow> sys \<Rightarrow> bool" where
  "sys_step sha s s' \<longleftrightarrow> (\<exists>l. tx_step sha l s s')"

lemma sys_stepI: "tx_step sha l s s' \<Longrightarrow> sys_step sha s s'"
  by (auto simp: sys_step_def)

lemmas step_begin = tx_begin [THEN sys_stepI]
  and step_writer = tx_writer [THEN sys_stepI]
  and step_delete = tx_delete [THEN sys_stepI]
  and step_create_bucket = tx_create_bucket [THEN sys_stepI]
  and step_delete_bucket = tx_delete_bucket [THEN sys_stepI]
  and step_create_upload = tx_create_upload [THEN sys_stepI]
  and step_complete = tx_complete [THEN sys_stepI]
  and step_abort = tx_abort [THEN sys_stepI]

text \<open>
  What each of them promises of the abstract store: when it answers what, and the store behind it. A
  refusal leaves the store as it was.
\<close>

fun a_tx :: "(bytes \<Rightarrow> bytes) \<Rightarrow> tx \<Rightarrow> abs_store \<Rightarrow> abs_store \<Rightarrow> bool" where
  "a_tx sha (TxBegin f) a a' \<longleftrightarrow> a' = a"
| "a_tx sha (TxWrite (ToObject b k c) msgs r) a a' \<longleftrightarrow>
     (if b \<notin> a_buckets a then r = Inl NoBucket \<and> a' = a
      else if Abort \<in> set msgs then r = Inl IngestAborted \<and> a' = a
      else if \<not> a_allowed c (a_objects a (b, k)) then r = Inl PreconditionFailed \<and> a' = a
      else r = Inr (int (length (msgs_bytes msgs)), sha (msgs_bytes msgs)) \<and>
        a' = a\<lparr>a_objects := (a_objects a)((b, k) \<mapsto> (msgs_bytes msgs, sha (msgs_bytes msgs)))\<rparr>)"
| "a_tx sha (TxWrite (ToPart uid no) msgs r) a a' \<longleftrightarrow>
     (if Abort \<in> set msgs then r = Inl IngestAborted \<and> a' = a
      else if a_uploads a uid = None then r = Inl SqlError \<and> a' = a
      else r = Inr (int (length (msgs_bytes msgs)), sha (msgs_bytes msgs)) \<and>
        a' = a\<lparr>a_parts := (a_parts a)((uid, no) \<mapsto> (msgs_bytes msgs, sha (msgs_bytes msgs)))\<rparr>)"
| "a_tx sha (TxDelete b k found) a a' \<longleftrightarrow>
     found = (a_objects a (b, k) \<noteq> None) \<and> a' = a\<lparr>a_objects := (a_objects a)((b, k) := None)\<rparr>"
| "a_tx sha (TxCreateBucket b) a a' \<longleftrightarrow> a' = a\<lparr>a_buckets := insert b (a_buckets a)\<rparr>"
| "a_tx sha (TxDeleteBucket b d) a a' \<longleftrightarrow>
     (if b \<notin> a_buckets a then d = BucketNotFound \<and> a' = a
      else if \<not> a_bucket_empty a b then d = BucketNotEmpty \<and> a' = a
      else d = BucketDeleted \<and> a' = a\<lparr>a_buckets := a_buckets a - {b}\<rparr>)"
| "a_tx sha (TxCreateUpload uuid b k r) a a' \<longleftrightarrow>
     (if b \<notin> a_buckets a then r = Inr None \<and> a' = a
      else if \<exists>u. a_uploads a u = Some (b, k) then (\<exists>u. r = Inr (Some u) \<and> a_uploads a u = Some (b, k)) \<and> a' = a
      else if a_uploads a uuid \<noteq> None then r = Inl SqlError \<and> a' = a
      else r = Inr (Some uuid) \<and> a' = a\<lparr>a_uploads := (a_uploads a)(uuid \<mapsto> (b, k))\<rparr>)"
| "a_tx sha (TxComplete uid b k listed r) a a' \<longleftrightarrow>
     (if a_uploads a uid \<noteq> Some (b, k) then r = Inr NoSuchUpload \<and> a' = a
      else if \<not> a_listing_ok a uid listed then r = Inr InvalidPart \<and> a' = a
      else (case a_joined sha a uid listed of (data, digest) \<Rightarrow>
        r = Inr (CompleteDone b k digest (int (length data))) \<and>
        a' = a_drop_upload uid (a\<lparr>a_objects := (a_objects a)((b, k) \<mapsto> (data, digest))\<rparr>)))"
| "a_tx sha (TxAbort uid b k ok) a a' \<longleftrightarrow>
     (if a_uploads a uid = Some (b, k) then ok \<and> a' = a_drop_upload uid a else \<not> ok \<and> a' = a)"

text \<open>The call and its answer determine the store behind it.\<close>

lemma a_tx_functional: "a_tx sha l a a1 \<Longrightarrow> a_tx sha l a a2 \<Longrightarrow> a1 = a2"
  by (cases "(sha, l, a, a1)" rule: a_tx.cases) (auto split: if_splits prod.splits)

definition a_step :: "(bytes \<Rightarrow> bytes) \<Rightarrow> abs_store \<Rightarrow> abs_store \<Rightarrow> bool" where
  "a_step sha a a' \<longleftrightarrow> (\<exists>l. a_tx sha l a a')"

definition sys_ok :: "sys \<Rightarrow> bool" where
  "sys_ok s \<longleftrightarrow> db_ok (fst s) \<and> distinct (snd s) \<and> (\<forall>f \<in> set (snd s). fresh_id (fst s) f)"

lemma sys_ok_step:
  assumes "sys_ok (db, fl)" and "db_ok db'" and "fst ` set (refs db') \<subseteq> fst ` set (refs db)"
    and "d_next_id db' = d_next_id db"
  shows "sys_ok (db', fl)"
  using assms by (auto simp: sys_ok_def fresh_id_def)

lemma sys_ok_same_refs:
  "sys_ok (db, fl) \<Longrightarrow> db_ok db' \<Longrightarrow> refs db' = refs db \<Longrightarrow> d_next_id db' = d_next_id db \<Longrightarrow> sys_ok (db', fl)"
  by (rule sys_ok_step) simp_all

lemma sys_ok_writer:
  assumes "sys_ok (db, fl)" and "db_ok db'" and "fst ` set (refs db') \<subseteq> insert f (fst ` set (refs db))"
    and "d_next_id db' = d_next_id db"
  shows "sys_ok (db', remove1 f fl)"
  using assms by (auto simp: sys_ok_def fresh_id_def)

lemma nextval_step:
  assumes "sys_ok (db, fl)" and "nextval db = Inr (f, db')"
  shows "sys_ok (db', fl @ [f])" and "abs_of db' = abs_of db"
proof -
  have db': "db' = db\<lparr>d_next_id := d_next_id db + 1\<rparr>" and f: "f = d_next_id db" "d_next_id db < 2 ^ 63"
    using assms(2) by (auto simp: nextval_def split: if_splits)
  have refs: "refs db' = refs db" by (simp add: db' refs_def)
  have "db_ok db'"
    using assms(1) f unfolding db_ok_def refs by (force simp: sys_ok_def db_ok_def db' bucket_exists_def)
  have old: "fresh_id db' g \<and> g \<noteq> f" if "g \<in> set fl" for g
    using that assms(1) f unfolding sys_ok_def fresh_id_def refs by (auto simp: db')
  have "1 \<le> d_next_id db" and "f \<notin> fst ` set (refs db)"
    using assms(1) f(1) by (force simp: sys_ok_def db_ok_def)+
  then have "fresh_id db' f" using f unfolding fresh_id_def refs by (simp add: db')
  with old \<open>db_ok db'\<close> assms(1) show "sys_ok (db', fl @ [f])" by (auto simp: sys_ok_def)
  show "abs_of db' = abs_of db" using abs_of_bucketsI [of db' db] by (simp add: db', simp add: abs_of_def)
qed

section \<open>The simulation\<close>

lemma write_object_step:
  assumes ok: "sys_ok (db, fl)" and f: "f \<in> set fl" and fits: "fits_file (msgs_bytes msgs)"
    and run: "ingest_tx sha now f (ToObject b k c) msgs db = (r, db')"
  shows "sys_ok (db', remove1 f fl) \<and> a_tx sha (TxWrite (ToObject b k c) msgs r) (abs_of db) (abs_of db')"
proof -
  have db: "db_ok db" and fresh: "fresh_id db f" using ok f by (auto simp: sys_ok_def)
  have same: "sys_ok (db, remove1 f fl)" using ok by (auto simp: sys_ok_def)
  show ?thesis
  proof (cases "Abort \<in> set msgs")
    case True
    with run same show ?thesis by (auto simp: write_aborted bucket_exists_abs)
  next
    case False
    then obtain cs where cs: "msgs = map Data cs" using messages_cases by blast
    have fits': "fits_file (concat cs)" using fits by (simp add: cs)
    show ?thesis
      by (rule put_tx_outcome [OF db fresh fits', of sha now b k c])
        (use run same in \<open>auto simp: cs intro: sys_ok_writer [OF ok]\<close>)
  qed
qed

lemma write_part_step:
  assumes ok: "sys_ok (db, fl)" and f: "f \<in> set fl" and fits: "fits_file (msgs_bytes msgs)"
    and run: "ingest_tx sha now f (ToPart uid no) msgs db = (r, db')"
  shows "sys_ok (db', remove1 f fl) \<and> a_tx sha (TxWrite (ToPart uid no) msgs r) (abs_of db) (abs_of db')"
proof -
  have db: "db_ok db" and fresh: "fresh_id db f" using ok f by (auto simp: sys_ok_def)
  have same: "sys_ok (db, remove1 f fl)" using ok by (auto simp: sys_ok_def)
  have up: "uid \<in> up_id ` set (d_uploads db) \<longleftrightarrow> a_uploads (abs_of db) uid \<noteq> None"
    by (auto simp: abs_of_def find_upload_def find_None)
  show ?thesis
  proof (cases "Abort \<in> set msgs")
    case True
    with run same show ?thesis by (auto simp: write_aborted)
  next
    case False
    then obtain cs where cs: "msgs = map Data cs" using messages_cases by blast
    have fits': "fits_file (concat cs)" using fits by (simp add: cs)
    show ?thesis
    proof (cases "uid \<in> up_id ` set (d_uploads db)")
      case True
      show ?thesis
        by (rule put_part_spec [OF db fresh True fits', of sha now no])
          (use run up True in \<open>auto simp: cs intro: sys_ok_writer [OF ok]\<close>)
    next
      case no_upload: False
      have "0 < f" "f < 2 ^ 63" using fresh db by (auto simp: fresh_id_def db_ok_def)
      then have "ingest_stream sha f msgs \<noteq> None" using fits' by (simp add: cs ingest_stream_framed)
      with part_no_upload [OF no_upload] run up no_upload False same show ?thesis by (auto simp: cs)
    qed
  qed
qed

lemma writer_step:
  assumes "sys_ok (db, fl)" and "f \<in> set fl" and "fits_file (msgs_bytes msgs)"
    and "ingest_tx sha now f target msgs db = (r, db')"
  shows "sys_ok (db', remove1 f fl) \<and> a_tx sha (TxWrite target msgs r) (abs_of db) (abs_of db')"
  using write_object_step [OF assms(1-3)] write_part_step [OF assms(1-3)] assms(4) by (cases target) simp_all

lemma complete_step:
  assumes ok: "db_ok db" and fits: "sum_list (map pt_size (parts_of db uid)) < 2 ^ 63"
    and run: "complete_tx sha now uid b k listed db = (c, db')"
  shows "db_ok db'" and "a_tx sha (TxComplete uid b k listed (map_sum id fst c)) (abs_of db) (abs_of db')"
    and "set (refs db') \<subseteq> set (refs db)" and "d_next_id db' = d_next_id db"
proof -
  have "db_ok db' \<and> a_tx sha (TxComplete uid b k listed (map_sum id fst c)) (abs_of db) (abs_of db') \<and>
    set (refs db') \<subseteq> set (refs db) \<and> d_next_id db' = d_next_id db"
  proof (cases "a_uploads (abs_of db) uid = Some (b, k) \<and> a_listing_ok (abs_of db) uid listed")
    case True
    then have up: "a_uploads (abs_of db) uid = Some (b, k)" and listing: "a_listing_ok (abs_of db) uid listed" by auto
    show ?thesis
      using run up listing
      by (cases rule: complete_spec [OF ok up listing fits, of sha now]) (auto split: prod.split)
  next
    case False
    then show ?thesis
      using run ok complete_no_upload [OF ok, of uid b k] complete_bad_listing [OF ok, of uid b k listed]
      by (cases "a_uploads (abs_of db) uid = Some (b, k)") auto
  qed
  then show "db_ok db'" and "a_tx sha (TxComplete uid b k listed (map_sum id fst c)) (abs_of db) (abs_of db')"
    and "set (refs db') \<subseteq> set (refs db)" and "d_next_id db' = d_next_id db" by blast+
qed

lemma delete_bucket_step:
  assumes ok: "db_ok db" and run: "delete_bucket b db = (d, db')"
  shows "db_ok db'" and "a_tx sha (TxDeleteBucket b d) (abs_of db) (abs_of db')" and "refs db' = refs db"
    and "d_next_id db' = d_next_id db"
proof -
  let ?del = "db\<lparr>d_buckets := filter (\<lambda>x. fst x \<noteq> b) (d_buckets db)\<rparr>"
  note del = delete_bucket_spec [OF ok, of b]
  have "refs ?del = refs db" "d_next_id ?del = d_next_id db" by (simp_all add: refs_def)
  then have "db_ok db' \<and> a_tx sha (TxDeleteBucket b d) (abs_of db) (abs_of db') \<and> refs db' = refs db \<and>
      d_next_id db' = d_next_id db"
    using run del(2) ok unfolding del(1) a_tx.simps
    by (cases "b \<in> a_buckets (abs_of db)"; cases "a_bucket_empty (abs_of db) b") (use del(3) in auto)
  then show "db_ok db'" and "a_tx sha (TxDeleteBucket b d) (abs_of db) (abs_of db')" and "refs db' = refs db"
    and "d_next_id db' = d_next_id db" by blast+
qed

lemma create_upload_step:
  assumes ok: "sys_ok (db, fl)" and run: "create_upload uuid now b k db = (u, db')"
  shows "sys_ok (db', fl) \<and> a_tx sha (TxCreateUpload uuid b k u) (abs_of db) (abs_of db')"
proof -
  have "db_ok db" using ok by (simp add: sys_ok_def)
  then show ?thesis
  proof (cases rule: create_upload_spec [of db uuid now b k])
    case (2 id')
    have "b \<in> a_buckets (abs_of db)"
      using 2(1) by (auto simp: create_upload_def bucket_exists_abs split: if_splits)
    with 2 run ok show ?thesis by auto
  next
    case 3
    then have "b \<in> a_buckets (abs_of db)" "\<forall>u. a_uploads (abs_of db) u \<noteq> Some (b, k)"
      using find_upload_Some [OF db_okD(6) [OF \<open>db_ok db\<close>]]
      by (auto simp: create_upload_def bucket_exists_abs abs_of_def ukey_def find_None split: if_splits option.splits)
    with 3 run ok show ?thesis by auto
  next
    case (4 db'')
    with run ok show ?thesis by (auto intro: sys_ok_same_refs)
  qed (use run ok in auto)
qed

lemma step_simulates:
  assumes "tx_step sha l s s'" and "sys_ok s"
  shows "sys_ok s' \<and> a_tx sha l (abs_of (fst s)) (abs_of (fst s'))"
  using assms
proof (cases rule: tx_step.cases)
  case (tx_begin db f db' fl)
  then show ?thesis using nextval_step assms(2) by simp
next
  case (tx_writer f fl msgs now target db r db')
  then show ?thesis using writer_step assms(2) by simp
next
  case (tx_delete b k db found db' fl)
  have "a_objects (abs_of db) (b, k) = None \<longleftrightarrow> find_object db b k = None" by (simp add: abs_of_def)
  moreover have "db_ok db" using tx_delete assms(2) by (simp add: sys_ok_def)
  ultimately show ?thesis
    by (elim delete_tx_spec [of db b k]) (use tx_delete assms(2) in \<open>auto intro: sys_ok_step\<close>)
next
  case (tx_create_bucket b db fl now)
  then have "db_ok db" using assms(2) by (simp add: sys_ok_def)
  from create_bucket_spec [OF this, of now b] show ?thesis
    using tx_create_bucket assms(2) sys_ok_step [of db fl "create_bucket now b db"] by simp
next
  case (tx_delete_bucket b db d db' fl)
  then have ok: "db_ok db" using assms(2) by (simp add: sys_ok_def)
  from delete_bucket_step [OF ok tx_delete_bucket(4)] show ?thesis
    using tx_delete_bucket(1-3) assms(2) sys_ok_step [of db fl db'] by simp
next
  case (tx_create_upload uuid now b k db u db' fl)
  then show ?thesis using create_upload_step assms(2) by simp
next
  case (tx_complete db uid now b k listed c db' fl)
  then have "db_ok db" using assms(2) by (simp add: sys_ok_def)
  note done' = complete_step [OF this tx_complete(4,5)]
  from sys_ok_step [OF _ done'(1) image_mono [OF done'(3)] done'(4)] done'(2) show ?thesis
    using tx_complete assms(2) by simp
next
  case (tx_abort uid b k db a db' fl)
  then have ok: "db_ok db" using assms(2) by (simp add: sys_ok_def)
  show ?thesis
  proof (cases "a_uploads (abs_of db) uid = Some (b, k)")
    case True
    then show ?thesis
      by (rule abort_spec [OF ok]) (use tx_abort assms(2) True in \<open>auto intro: sys_ok_step\<close>)
  next
    case False
    then show ?thesis using tx_abort assms(2) upload_exists_abs [OF ok] by (simp add: abort_upload_def)
  qed
qed

section \<open>Reachable states\<close>

abbreviation reachable :: "(bytes \<Rightarrow> bytes) \<Rightarrow> sys \<Rightarrow> bool" where
  "reachable sha s \<equiv> (sys_step sha)\<^sup>*\<^sup>* (db_empty, []) s"

lemma backed_Nil: "ct.backed [] []"
  by (simp add: ct.backed_def no_file_def rows_of_file_def)

lemma sys_ok_init: "sys_ok (db_empty, [])"
  by (simp add: sys_ok_def db_ok_def db_empty_def refs_def backed_Nil)

interpretation calls: labelled_simulation "tx_step sha" sys_ok "\<lambda>s. abs_of (fst s)" "a_tx sha" for sha
  by unfold_locales (simp_all add: step_simulates)

interpretation store: simulated_system "sys_step sha" sys_ok "\<lambda>s. abs_of (fst s)" "a_step sha" for sha
  by unfold_locales (auto simp: sys_step_def a_step_def dest: step_simulates)

lemma reachable_ok: "reachable sha s \<Longrightarrow> sys_ok s"
  by (rule store.run_ok [OF _ sys_ok_init])

lemma row_meta_ok:
  assumes ok: "db_ok db" and r: "r \<in> set (d_objects db)"
  shows "meta_ok (file_bytes (d_chunks db)) (row_meta r)"
proof -
  have held: "int (length (file_bytes (d_chunks db) f)) = l \<and> fits_file (file_bytes (d_chunks db) f)"
    if "(f, l) \<in> set (object_refs r)" for f l
  proof -
    have "(f, l) \<in> set (refs db)" using that r by (auto simp: refs_def)
    from ct.backed_holds [OF db_okD(1) [OF ok] this] obtain d where d: "holds_file (d_chunks db) f d" "int (length d) = l"
      by blast
    then show ?thesis using holds_file_bytes [OF d(1)] by (simp add: holds_file_def)
  qed
  have "int (length (concat (map (file_bytes (d_chunks db) \<circ> fst) rs))) = sum_list (map snd rs)"
    if "set rs \<subseteq> set (object_refs r)" for rs
    using that held by (induction rs) auto
  then have "int (length (object_bytes (file_bytes (d_chunks db)) (row_meta r))) = sum_list (map snd (object_refs r))"
    by (simp add: object_bytes_refs)
  also have "\<dots> = o_size r" using db_okD(3) [OF ok] r by (simp add: row_shape_def)
  finally have "int (length (object_bytes (file_bytes (d_chunks db)) (row_meta r))) = m_size (row_meta r)"
    by (simp add: row_meta_def)
  moreover have "\<forall>(f, b, l) \<in> set (segments (row_meta r)).
      int (length (file_bytes (d_chunks db) f)) = l \<and> fits_file (file_bytes (d_chunks db) f)"
    using held by (force simp: object_refs_def)
  ultimately show ?thesis by (simp add: meta_ok_def)
qed

section \<open>Properties of the store\<close>

text \<open>
  C1. Refinement, call by call. However the transactions of any number of gateways interleave
  and whatever their outcomes: the same calls with the same answers, one after the other, are
  a run of the abstract store, in which a write checks its bucket and its precondition, Complete its
  upload and its listing, and every operation answers and changes exactly what S3 says of it. That
  run ends in the store the database represents, and no other run of these calls and answers
  ends elsewhere. (The expiry of uploads is no transaction of a gateway.)
\<close>

theorem transactions_refine_store:
  assumes "run_of (tx_step sha) calls (db_empty, []) (db, fl)"
  shows "run_of (a_tx sha) calls (abs_of db_empty) (abs_of db) \<and>
    (\<forall>a. run_of (a_tx sha) calls (abs_of db_empty) a \<longrightarrow> a = abs_of db)"
proof -
  have run: "run_of (a_tx sha) calls (abs_of db_empty) (abs_of db)"
    using calls.labels_sim [OF assms sys_ok_init] by simp
  with run_of_functional [where step = "a_tx sha"] a_tx_functional show ?thesis by blast
qed

theorem transactions_refine_store_witness:
  "\<exists>db. run_of (a_tx (\<lambda>b. b)) [TxCreateBucket [98], TxBegin 1, TxDelete [98] [107] False, TxDeleteBucket [98] BucketDeleted]
    (abs_of db_empty) (abs_of db) \<and> d_next_id db = 2"
proof -
  let ?db1 = "create_bucket 0 [98] db_empty" and ?calls = "[TxCreateBucket [98], TxBegin 1, TxDelete [98] [107] False,
    TxDeleteBucket [98] BucketDeleted]"
  let ?db2 = "?db1\<lparr>d_next_id := 2\<rparr>" and ?db3 = "db_empty\<lparr>d_next_id := 2\<rparr>" and ?id = "\<lambda>b :: bytes. b"
  have s1: "tx_step ?id (TxCreateBucket [98]) (db_empty, []) (?db1, [])" by (rule tx_create_bucket)
  have s2: "tx_step ?id (TxBegin 1) (?db1, []) (?db2, [1])"
    using tx_begin [of ?db1 1 ?db2 ?id "[]"] by (simp add: nextval_def create_bucket_def db_empty_def bucket_exists_def)
  have s3: "tx_step ?id (TxDelete [98] [107] False) (?db2, [1]) (?db2, [1])"
    by (rule tx_delete) (simp add: delete_tx_def create_bucket_def db_empty_def bucket_exists_def find_object_def Let_def)
  have s4: "tx_step ?id (TxDeleteBucket [98] BucketDeleted) (?db2, [1]) (?db3, [1])"
    by (rule tx_delete_bucket) (simp add: delete_bucket_def create_bucket_def db_empty_def bucket_exists_def)
  have "run_of (tx_step ?id) ?calls (db_empty, []) (?db3, [1])"
    unfolding run_of.simps by (intro exI conjI) (rule s1, rule s2, rule s3, rule s4, rule refl)
  from transactions_refine_store [OF this] show ?thesis by (intro exI [of _ ?db3]) simp
qed

text \<open>No row of the chunk table is without an owner.\<close>

lemma db_ok_no_orphans: "db_ok db \<Longrightarrow> fst ` set (d_chunks db) \<subseteq> fst ` set (refs db)"
proof
  assume ok: "db_ok db"
  fix f assume "f \<in> fst ` set (d_chunks db)"
  then show "f \<in> fst ` set (refs db)" using ct.backed_absent [OF db_okD(1) [OF ok], of f] by (auto simp: no_file_iff)
qed

text \<open>A bucket, a file id, and one PUT.\<close>

definition sample_run :: db where
  "sample_run = snd (ingest_tx (\<lambda>b. b) 0 1 (ToObject [98] [107] Unconditional) [Data [10, 11]]
     ((create_bucket 0 [98] db_empty)\<lparr>d_next_id := 2\<rparr>))"

lemma sample_reachable: "reachable (\<lambda>b. b) (sample_run, [])"
proof -
  let ?db = "create_bucket 0 [98] db_empty"
  have "nextval ?db = Inr (1, ?db\<lparr>d_next_id := 2\<rparr>)"
    by (simp add: nextval_def create_bucket_def db_empty_def bucket_exists_def)
  then have "sys_step (\<lambda>b. b) (?db, []) (?db\<lparr>d_next_id := 2\<rparr>, [] @ [1])" by (rule step_begin)
  moreover have "sys_step (\<lambda>b. b) (?db\<lparr>d_next_id := 2\<rparr>, [1]) (sample_run, remove1 1 [1])"
    unfolding sample_run_def
    by (rule step_writer) (auto simp: msgs_bytes_def fits_file_def ROW_BYTES_def intro: prod.collapse [symmetric])
  ultimately show ?thesis
    using step_create_bucket [of "\<lambda>b. b" db_empty "[]" 0 "[98]"]
    by (auto intro: rtranclp.rtrancl_into_rtrancl)
qed

text \<open>
  C10. A PUT of a body, in a database of the invariant and under a fresh file id,
  has exactly one of three outcomes. The bucket is missing, or the precondition
  fails on the current object: nothing changes. Otherwise it reports the body's
  length and digest, the key maps to the body, everything else is unchanged and
  the invariant holds.
\<close>

theorem put_publishes_or_changes_nothing:
  assumes "db_ok db" and "fresh_id db fid" and "fits_file (concat cs)"
  shows "case ingest_tx sha now fid (ToObject b k c) (map Data cs) db of
      (Inl e, db') \<Rightarrow> db' = db \<and>
        (e = NoBucket \<and> b \<notin> a_buckets (abs_of db) \<or>
         e = PreconditionFailed \<and> b \<in> a_buckets (abs_of db) \<and> \<not> a_allowed c (a_objects (abs_of db) (b, k)))
    | (Inr (n, digest), db') \<Rightarrow>
        b \<in> a_buckets (abs_of db) \<and> a_allowed c (a_objects (abs_of db) (b, k)) \<and>
        n = int (length (concat cs)) \<and> digest = sha (concat cs) \<and> db_ok db' \<and>
        abs_of db' = (abs_of db)\<lparr>a_objects := (a_objects (abs_of db))((b, k) \<mapsto> (concat cs, digest))\<rparr>"
  by (rule put_tx_outcome [OF assms, of sha now b k c]) auto

text \<open>A database with one bucket, one object and one upload of two parts.\<close>

definition sample_db :: db where
  "sample_db = \<lparr>d_buckets = [([98], 0)],
     d_objects = [\<lparr>o_bucket = [98], o_key = [107], o_file_id = 1, o_size = 2, o_etag = [171],
       o_created = 0, o_parts = None, o_part_ends = None\<rparr>],
     d_chunks = [(1, 0, [10, 11]), (2, 0, [12]), (3, 0, [13, 14])],
     d_uploads = [\<lparr>up_id = [117], up_bucket = [98], up_key = [109], up_created = 0\<rparr>],
     d_parts = [\<lparr>pt_upload = [117], pt_no = 2, pt_file_id = 3, pt_size = 2, pt_sha = [2]\<rparr>,
       \<lparr>pt_upload = [117], pt_no = 1, pt_file_id = 2, pt_size = 1, pt_sha = [1]\<rparr>],
     d_next_id = 5\<rparr>"

lemma sample_file:
  "holds_file (d_chunks sample_db) 1 [10, 11]" "holds_file (d_chunks sample_db) 2 [12]"
  "holds_file (d_chunks sample_db) 3 [13, 14]"
  by (simp_all add: holds_file_def sample_db_def rows_of_file_def file_rows_def pieces.simps ROW_BYTES_def fits_file_def)

lemma sample_refs: "refs sample_db = [(1, 2), (3, 2), (2, 1)]"
  by (simp add: sample_db_def refs_def object_refs_single part_ref_def)

lemma sample_ok: "db_ok sample_db" "fresh_id sample_db 4"
proof -
  have backed: "ct.backed (d_chunks sample_db) [(1, 2), (3, 2), (2, 1)]"
  proof -
    have "\<exists>d. holds_file (d_chunks sample_db) 1 d \<and> int (length d) = 2"
      "\<exists>d. holds_file (d_chunks sample_db) 2 d \<and> int (length d) = 1"
      "\<exists>d. holds_file (d_chunks sample_db) 3 d \<and> int (length d) = 2"
      using sample_file by force+
    then show ?thesis by (simp add: ct.backed_def no_file_iff) (simp add: sample_db_def)
  qed
  then show "db_ok sample_db"
    unfolding db_ok_def sample_refs
    by (simp add: sample_db_def row_shape_def object_refs_single bucket_exists_def okey_def ukey_def pkey_def)
  show "fresh_id sample_db 4" by (simp add: fresh_id_def sample_refs) (simp add: sample_db_def)
qed

lemma sample_abs:
  "a_buckets (abs_of sample_db) = {[98]}"
  "a_uploads (abs_of sample_db) [117] = Some ([98], [109])"
  "a_parts (abs_of sample_db) ([117], no) =
    (if no = 1 then Some ([12], [1]) else if no = 2 then Some ([13, 14], [2]) else None)"
  "a_objects (abs_of sample_db) ([98], [122]) = None"
  "a_objects (abs_of sample_db) ([98], [107]) = Some ([10, 11], [171])"
  by (simp_all add: abs_of_def sample_db_def find_upload_def find_part_def ukey_def file_bytes_def rows_of_file_def
      find_object_def at_key_def stored_object_def object_bytes_refs object_refs_single)

theorem put_publishes_or_changes_nothing_witness:
  "\<exists>db'. ingest_tx (\<lambda>b. b) 9 4 (ToObject [98] [107] (IfMatch [97, 98])) (map Data [[7], [8]]) sample_db =
      (Inr (2, [7, 8]), db') \<and> db_ok db' \<and> a_objects (abs_of db') ([98], [107]) = Some ([7, 8], [7, 8])"
proof -
  let ?run = "ingest_tx (\<lambda>b. b) 9 4 (ToObject [98] [107] (IfMatch [97, 98])) (map Data [[7], [8]]) sample_db"
  obtain r db' where run: "?run = (r, db')" by fastforce
  have "a_allowed (IfMatch [97, 98]) (a_objects (abs_of sample_db) ([98], [107]))"
    by (simp add: a_allowed_def sample_abs hex_def hex_digit_def)
  with put_publishes_or_changes_nothing [OF sample_ok, where cs = "[[7], [8]]" and sha = "\<lambda>b. b"
      and now = 9 and b = "[98]" and k = "[107]" and c = "IfMatch [97, 98]", unfolded run]
  show ?thesis
    unfolding run by (cases r) (auto simp: fits_file_def ROW_BYTES_def sample_abs(1))
qed

text \<open>
  C22. Of two writers that create the same absent key with \<open>IfAbsent\<close>, the first to
  run its transaction wins; the other fails its precondition, changes nothing and
  leaves no chunk row of its file.
\<close>

theorem one_create_wins:
  assumes "db_ok db" and "fresh_id db f1" and "fresh_id db f2" and "f1 \<noteq> f2"
    and "b \<in> a_buckets (abs_of db)" and "a_objects (abs_of db) (b, k) = None"
    and "fits_file (concat cs1)" and "fits_file (concat cs2)"
  shows "case ingest_tx sha t1 f1 (ToObject b k IfAbsent) (map Data cs1) db of (r1, db1) \<Rightarrow>
    case ingest_tx sha t2 f2 (ToObject b k IfAbsent) (map Data cs2) db1 of (r2, db2) \<Rightarrow>
      r1 = Inr (int (length (concat cs1)), sha (concat cs1)) \<and> r2 = Inl PreconditionFailed \<and> db2 = db1 \<and>
      a_objects (abs_of db2) (b, k) = Some (concat cs1, sha (concat cs1)) \<and> no_file (d_chunks db2) f2"
proof (rule put_tx_outcome [OF assms(1,2,7), of sha t1 b k IfAbsent])
  fix db1
  assume run1: "ingest_tx sha t1 f1 (ToObject b k IfAbsent) (map Data cs1) db =
      (Inr (int (length (concat cs1)), sha (concat cs1)), db1)" and ok1: "db_ok db1"
    and abs1: "abs_of db1 = abs_of db\<lparr>a_objects := (a_objects (abs_of db))((b, k) \<mapsto> (concat cs1, sha (concat cs1)))\<rparr>"
    and refs1: "fst ` set (refs db1) \<subseteq> insert f1 (fst ` set (refs db))" and id1: "d_next_id db1 = d_next_id db"
  have fresh2: "fresh_id db1 f2" using assms(3,4) refs1 id1 by (auto simp: fresh_id_def)
  then have "no_file (d_chunks db1) f2"
    using ct.backed_absent [OF db_okD(1) [OF ok1]] by (simp add: fresh_id_def)
  then show ?thesis
    using run1 abs1 assms(5)
    by (cases rule: put_tx_outcome [OF ok1 fresh2 assms(8), of sha t2 b k IfAbsent]) (auto simp: a_allowed_def)
qed (use assms(5,6) in \<open>auto simp: a_allowed_def\<close>)

lemma sample_fresh: "db_ok (sample_db\<lparr>d_next_id := 6\<rparr>)" "fresh_id (sample_db\<lparr>d_next_id := 6\<rparr>) 4"
    "fresh_id (sample_db\<lparr>d_next_id := 6\<rparr>) 5" "abs_of (sample_db\<lparr>d_next_id := 6\<rparr>) = abs_of sample_db"
proof -
  let ?db = "sample_db\<lparr>d_next_id := 6\<rparr>"
  have "sys_ok (sample_db, [])" using sample_ok by (simp add: sys_ok_def)
  moreover have "nextval sample_db = Inr (5, ?db)" by (simp add: nextval_def sample_db_def)
  ultimately show "db_ok ?db" and "abs_of ?db = abs_of sample_db"
    and "fresh_id ?db 5" using nextval_step [of sample_db "[]" 5 ?db] by (simp_all add: sys_ok_def)
  show "fresh_id ?db 4" using sample_ok(2) by (simp add: fresh_id_def refs_def)
qed

theorem one_create_wins_witness:
  "case ingest_tx (\<lambda>b. b) 0 4 (ToObject [98] [122] IfAbsent) (map Data [[1]]) (sample_db\<lparr>d_next_id := 6\<rparr>) of (r1, db1) \<Rightarrow>
    case ingest_tx (\<lambda>b. b) 0 5 (ToObject [98] [122] IfAbsent) (map Data [[2]]) db1 of (r2, db2) \<Rightarrow>
      r1 = Inr (1, [1]) \<and> r2 = Inl PreconditionFailed \<and> db2 = db1 \<and>
      a_objects (abs_of db2) ([98], [122]) = Some ([1], [1]) \<and> no_file (d_chunks db2) 5"
  using one_create_wins [OF sample_fresh(1-3), where b = "[98]" and k = "[122]" and ?cs1.0 = "[[1]]"
    and ?cs2.0 = "[[2]]" and sha = "\<lambda>b. b" and ?t1.0 = 0 and ?t2.0 = 0]
  by (simp add: sample_fresh(4) sample_abs fits_file_def ROW_BYTES_def)

text \<open>
  C23. A part upload of an upload in progress reports the part's length and digest,
  records it under its number in place of an earlier attempt, and changes nothing
  else.
\<close>

theorem part_replaces_earlier:
  assumes "db_ok db" and "fresh_id db fid" and "fits_file (concat cs)" and "a_uploads (abs_of db) uid \<noteq> None"
  shows "\<exists>db'. ingest_tx sha now fid (ToPart uid no) (map Data cs) db =
      (Inr (int (length (concat cs)), sha (concat cs)), db') \<and> db_ok db' \<and>
    abs_of db' = (abs_of db)\<lparr>a_parts := (a_parts (abs_of db))((uid, no) \<mapsto> (concat cs, sha (concat cs)))\<rparr>"
proof -
  have "uid \<in> up_id ` set (d_uploads db)"
    using assms(4) by (auto simp: abs_of_def find_upload_Some [OF db_okD(6) [OF assms(1)]])
  from put_part_spec [OF assms(1,2) this assms(3)] show ?thesis by blast
qed

theorem part_replaces_earlier_witness:
  "\<exists>db'. ingest_tx (\<lambda>b. b) 0 4 (ToPart [117] 2) (map Data [[9], [9]]) sample_db = (Inr (2, [9, 9]), db') \<and> db_ok db' \<and>
    abs_of db' = (abs_of sample_db)\<lparr>a_parts := (a_parts (abs_of sample_db))(([117], 2) \<mapsto> ([9, 9], [9, 9]))\<rparr>"
  using part_replaces_earlier [OF sample_ok, where cs = "[[9], [9]]" and uid = "[117]" and no = 2
    and sha = "\<lambda>b. b" and now = 0]
  by (simp add: sample_abs fits_file_def ROW_BYTES_def)

text \<open>
  C11. Complete has exactly three outcomes. The upload is not one of this bucket and
  key, or the listing is not every recorded part exactly once with its digest:
  nothing changes. Otherwise, in whatever order the parts were listed and sent,
  the key maps to their bytes in part order under the digest of their digests,
  the upload is gone and nothing else changes.
\<close>

theorem complete_publishes_parts:
  assumes "db_ok db" and "sum_list (map pt_size (parts_of db uid)) < 2 ^ 63"
  shows "case complete_tx sha now uid b k listed db of (r, db') \<Rightarrow>
    if a_uploads (abs_of db) uid \<noteq> Some (b, k) then r = Inr (NoSuchUpload, [], []) \<and> db' = db
    else if \<not> a_listing_ok (abs_of db) uid listed then r = Inr (InvalidPart, [], []) \<and> db' = db
    else (\<exists>ids ends. r = Inr (CompleteDone b k (snd (a_joined sha (abs_of db) uid listed))
            (int (length (fst (a_joined sha (abs_of db) uid listed)))), ids, ends)) \<and>
      db_ok db' \<and>
      abs_of db' = a_drop_upload uid ((abs_of db)\<lparr>a_objects :=
        (a_objects (abs_of db))((b, k) \<mapsto> a_joined sha (abs_of db) uid listed)\<rparr>)"
proof -
  consider "a_uploads (abs_of db) uid \<noteq> Some (b, k)"
    | "a_uploads (abs_of db) uid = Some (b, k)" "\<not> a_listing_ok (abs_of db) uid listed"
    | "a_uploads (abs_of db) uid = Some (b, k)" "a_listing_ok (abs_of db) uid listed" by blast
  then show ?thesis
  proof cases
    case 3
    then show ?thesis
      by (cases rule: complete_spec [OF assms(1) 3 assms(2), of sha now]) simp
  qed (simp_all add: complete_no_upload [OF assms(1)] complete_bad_listing [OF assms(1)])
qed

theorem complete_publishes_parts_witness:
  "\<exists>db'. complete_tx (\<lambda>b. b) 0 [117] [98] [109] [(2, hex [2]), (1, hex [1])] sample_db =
      (Inr (CompleteDone [98] [109] [1, 2] 3, [2, 3], [1, 3]), db') \<and>
    a_objects (abs_of db') ([98], [109]) = Some ([12, 13, 14], [1, 2])"
proof -
  have listing: "a_listing_ok (abs_of sample_db) [117] [(2, hex [2]), (1, hex [1])]"
    by (auto simp: a_listing_ok_def sample_abs split: if_splits)
  have joined: "a_joined (\<lambda>b. b) (abs_of sample_db) [117] [(2, hex [2]), (1, hex [1])] = ([12, 13, 14], [1, 2])"
    by (simp add: a_joined_def sample_abs)
  obtain r db' where run: "complete_tx (\<lambda>b. b) 0 [117] [98] [109] [(2, hex [2]), (1, hex [1])] sample_db = (r, db')"
    by fastforce
  have "fst (complete_tx (\<lambda>b. b) 0 [117] [98] [109] [(2, hex [2]), (1, hex [1])] sample_db) =
      Inr (CompleteDone [98] [109] [1, 2] 3, [2, 3], [1, 3])"
    by code_simp
  with run complete_publishes_parts [OF sample_ok(1), where uid = "[117]" and b = "[98]" and k = "[109]"
      and listed = "[(2, hex [2]), (1, hex [1])]" and sha = "\<lambda>b. b" and now = 0]
  show ?thesis
    by (simp add: listing joined sample_abs a_drop_upload_def) (simp add: parts_of_def sample_db_def)
qed

text \<open>
  C24. Abort of an upload under its own bucket and key drops it and all its parts,
  and no chunk row of a file that nothing refers to any more is left; under any
  other bucket or key it changes nothing.
\<close>

theorem abort_drops_upload:
  assumes "db_ok db"
  shows "case abort_upload uid b k db of (found, db') \<Rightarrow>
    found = (a_uploads (abs_of db) uid = Some (b, k)) \<and>
    abs_of db' = (if found then a_drop_upload uid (abs_of db) else abs_of db) \<and>
    (found \<longrightarrow> (\<forall>p \<in> set (parts_of db uid). no_file (d_chunks db') (pt_file_id p)))"
proof (cases "a_uploads (abs_of db) uid = Some (b, k)")
  case True
  have "no_file (d_chunks (snd (abort_upload uid b k db))) (pt_file_id p)" if "p \<in> set (parts_of db uid)" for p
    using that True
    by (simp add: abort_upload_def upload_exists_abs [OF assms] Let_def drop_upload_def no_file_def rows_of_file_delete)
  then show ?thesis
    using True by (cases rule: abort_spec [OF assms True]) simp
next
  case False
  then show ?thesis by (simp add: abort_upload_def upload_exists_abs [OF assms])
qed

theorem abort_drops_upload_witness:
  "case abort_upload [117] [98] [109] sample_db of (found, db') \<Rightarrow>
    found \<and> abs_of db' = a_drop_upload [117] (abs_of sample_db)"
  using abort_drops_upload [OF sample_ok(1), of "[117]" "[98]" "[109]"]
  by (auto simp: sample_abs split: prod.splits)

text \<open>
  C25. DELETE reports whether the key was there, removes exactly that key from the
  store, and leaves no chunk row of the object's files.
\<close>

theorem delete_removes_object:
  assumes "db_ok db"
  shows "case delete_tx b k db of (found, db') \<Rightarrow>
    found = (a_objects (abs_of db) (b, k) \<noteq> None) \<and> db_ok db' \<and>
    abs_of db' = (abs_of db)\<lparr>a_objects := (a_objects (abs_of db))((b, k) := None)\<rparr> \<and>
    fst ` set (d_chunks db') \<subseteq> fst ` set (refs db')"
proof (rule delete_tx_spec [OF assms, of b k])
  fix db' assume run: "delete_tx b k db = (find_object db b k \<noteq> None, db')" and ok: "db_ok db'"
    and abs: "abs_of db' = (abs_of db)\<lparr>a_objects := (a_objects (abs_of db))((b, k) := None)\<rparr>"
  have "fst r \<in> fst ` set (refs db')" if "r \<in> set (d_chunks db')" for r
    using that ct.backed_absent [OF db_okD(1) [OF ok], of "fst r"] by (auto simp: no_file_iff)
  moreover have "(find_object db b k \<noteq> None) = (a_objects (abs_of db) (b, k) \<noteq> None)"
    by (simp add: abs_of_def)
  ultimately show ?thesis using run ok abs by auto
qed

theorem delete_removes_object_witness:
  "case delete_tx [98] [107] sample_db of (found, db') \<Rightarrow> found \<and> a_objects (abs_of db') ([98], [107]) = None"
  using delete_removes_object [OF sample_ok(1), of "[98]" "[107]"]
  by (auto simp: sample_abs split: prod.splits)

text \<open>
  DeleteBucket deletes a bucket exactly when it exists and holds neither
  objects nor uploads in progress, and then nothing else changes.
\<close>

theorem delete_bucket_only_empty:
  assumes "db_ok db"
  shows "case delete_bucket b db of (d, db') \<Rightarrow>
    d = (if b \<notin> a_buckets (abs_of db) then BucketNotFound
         else if a_bucket_empty (abs_of db) b then BucketDeleted else BucketNotEmpty) \<and>
    db_ok db' \<and>
    abs_of db' = (if d = BucketDeleted then (abs_of db)\<lparr>a_buckets := a_buckets (abs_of db) - {b}\<rparr> else abs_of db)"
  using assms delete_bucket_spec(2) [OF assms, of b]
  by (simp add: delete_bucket_spec(1,3) [OF assms])

theorem delete_bucket_only_empty_witness:
  "fst (delete_bucket [98] sample_db) = BucketNotEmpty"
proof -
  have "\<not> a_bucket_empty (abs_of sample_db) [98]"
    unfolding a_bucket_empty_def using sample_abs(2) by blast
  with delete_bucket_only_empty [OF sample_ok(1), of "[98]"] show ?thesis
    by (auto simp: sample_abs split: prod.splits)
qed

text \<open>
  CreateMultipartUpload is idempotent: a retried Create of the key, whatever
  UUID it drew, re-attaches to the upload in progress and changes nothing.
\<close>

theorem create_upload_reattaches:
  assumes "db_ok db" and "create_upload uuid now b k db = (Inr (Some id'), db')"
  shows "a_uploads (abs_of db') id' = Some (b, k) \<and> create_upload uuid' now' b k db' = (Inr (Some id'), db')"
proof -
  have ok': "db_ok db'" and up: "a_uploads (abs_of db') id' = Some (b, k)"
    by (cases rule: create_upload_spec [OF assms(1), of uuid now b k]; use assms in simp)+
  obtain u where u: "u \<in> set (d_uploads db')" "up_id u = id'" "ukey u = (b, k)"
    using up find_upload_Some [OF db_okD(6) [OF ok'], of id'] by (auto simp: abs_of_def)
  have "List.find (\<lambda>u. up_bucket u = b \<and> up_key u = k) (d_uploads db') = Some u"
    using u ok' find_unique [of ukey "d_uploads db'" "\<lambda>u. up_bucket u = b \<and> up_key u = k" "(b, k)" u]
    by (simp add: db_ok_def ukey_def)
  moreover have "bucket_exists db' b" using u ok' by (auto simp: db_ok_def ukey_def)
  ultimately show ?thesis using up u by (simp add: create_upload_def)
qed

theorem create_upload_reattaches_witness:
  "create_upload [120] 5 [98] [109] sample_db = (Inr (Some [117]), sample_db)"
proof -
  have "create_upload [119] 0 [98] [109] sample_db = (Inr (Some [117]), sample_db)"
    by (simp add: create_upload_def sample_db_def bucket_exists_def)
  from create_upload_reattaches [OF sample_ok(1) this] show ?thesis by blast
qed

lemma hex_digit_inj: "x < 16 \<Longrightarrow> y < 16 \<Longrightarrow> hex_digit x = hex_digit y \<longleftrightarrow> x = y"
  by (auto simp: hex_digit_def split: if_splits)

lemma hex_Cons: "hex (b # bs) = hex_digit (unat b div 16) # hex_digit (unat b mod 16) # hex bs"
  by (simp add: hex_def)

text \<open>
  Two digests have the same hexadecimal text only if they are the same bytes,
  so a matching ETag (If-Match, Complete) is a matching digest.
\<close>

theorem hex_injective: "hex xs = hex ys \<longleftrightarrow> xs = ys"
proof (induction xs arbitrary: ys)
  case Nil
  then show ?case by (cases ys) (simp_all add: hex_Cons, simp add: hex_def)
next
  case (Cons x xs)
  show ?case
  proof (cases ys)
    case Nil
    then show ?thesis by (simp add: hex_Cons) (simp add: hex_def)
  next
    case (Cons y ys')
    have less: "unat z < 256" for z :: byte
    proof -
      have "unat z < 2 ^ LENGTH(8)" by (rule unsigned_less)
      then show ?thesis by simp
    qed
    have "unat x div 16 < 16" "unat y div 16 < 16" using less [of x] less [of y] by auto
    then have "hex_digit (unat x div 16) = hex_digit (unat y div 16) \<and>
        hex_digit (unat x mod 16) = hex_digit (unat y mod 16) \<longleftrightarrow> x = y"
      by (simp add: hex_digit_inj) (metis div_mult_mod_eq word_unat_eq_iff)
    then show ?thesis using Cons.IH by (auto simp: Cons hex_Cons)
  qed
qed

end
