(* ===== verification/Column_Types.thy ===== *)
theory Column_Types
  imports Transactions
begin

text \<open>
  The types of the columns (\<^verbatim>\<open>schema.sql\<close>) as an invariant: the model's integers are
  unbounded, PostgreSQL's are not. What every reachable state stores fits its column, and
  a chunk row fits one page.
\<close>

definition int4 :: "int \<Rightarrow> bool" where
  "int4 x \<longleftrightarrow> - (2 ^ 31) \<le> x \<and> x < 2 ^ 31"

definition int8 :: "int \<Rightarrow> bool" where
  "int8 x \<longleftrightarrow> - (2 ^ 63) \<le> x \<and> x < 2 ^ 63"

definition chunk_typed :: "chunk_row \<Rightarrow> bool" where
  "chunk_typed r \<longleftrightarrow> (case r of (file_id, no, data) \<Rightarrow>
     int8 file_id \<and> int4 no \<and> data \<noteq> [] \<and> length data \<le> ROW_BYTES)"

definition object_typed :: "object_row \<Rightarrow> bool" where
  "object_typed r \<longleftrightarrow> int8 (o_file_id r) \<and> int8 (o_size r) \<and> 0 \<le> o_size r \<and>
     (\<forall>f \<in> set (case o_parts r of None \<Rightarrow> [] | Some ids \<Rightarrow> ids). int8 f) \<and>
     (\<forall>e \<in> set (case o_part_ends r of None \<Rightarrow> [] | Some ends \<Rightarrow> ends). int8 e)"

definition part_typed :: "part_row \<Rightarrow> bool" where
  "part_typed p \<longleftrightarrow> int8 (pt_file_id p) \<and> int8 (pt_size p) \<and> 0 \<le> pt_size p"

definition db_typed :: "db \<Rightarrow> bool" where
  "db_typed db \<longleftrightarrow> list_all chunk_typed (d_chunks db) \<and> list_all object_typed (d_objects db) \<and>
     list_all part_typed (d_parts db)"

section \<open>What the invariant of the store already bounds\<close>

lemma int8_as_i64 [simp]: "int8 (as_i64 x)"
  using signed_take_bit_int_less_exp [of 63 x] signed_take_bit_int_greater_eq_minus_exp [of 63 x]
  by (simp add: int8_def as_i64_def)

lemma ref_bounds:
  assumes "db_ok db" and "(f, n) \<in> set (refs db)"
  shows "int8 f" and "0 \<le> n" and "int8 n"
proof -
  from ct.backed_holds [OF db_okD(1) [OF assms(1)] assms(2)] obtain d where "holds_file (d_chunks db) f d" "int (length d) = n"
    by blast
  then show "0 \<le> n" and "int8 n" by (auto simp: holds_file_def fits_file_def ROW_BYTES_def int8_def)
  have "0 < f \<and> f < d_next_id db \<and> d_next_id db \<le> 2 ^ 63" using assms unfolding db_ok_def by force
  then show "int8 f" by (simp add: int8_def)
qed

lemma piece_length: "0 < n \<Longrightarrow> x \<in> set (pieces n xs) \<Longrightarrow> x \<noteq> [] \<and> length x \<le> n"
proof (induction n xs rule: pieces.induct)
  case (1 n xs)
  show ?case
  proof (cases "xs = []")
    case False
    with 1 show ?thesis by (auto simp: pieces_step)
  qed (use 1 in simp)
qed

lemma chunks_typed:
  assumes ok: "db_ok db" and r: "(f, no, data) \<in> set (d_chunks db)"
  shows "chunk_typed (f, no, data)"
proof -
  have "f \<in> fst ` set (refs db)"
    using ct.backed_absent [OF db_okD(1) [OF ok], of f] r by (force simp: no_file_iff)
  then obtain n where n: "(f, n) \<in> set (refs db)" by force
  from ct.backed_holds [OF db_okD(1) [OF ok] n] obtain d where d: "holds_file (d_chunks db) f d" by blast
  have "(f, no, data) \<in> set (rows_of_file (d_chunks db) f)" using r by (simp add: rows_of_file_def)
  then have row: "(f, no, data) \<in> set (file_rows f d)" using d by (simp add: holds_file_def)
  then obtain i where i: "no = int i" "i < length (pieces ROW_BYTES d)" "data = pieces ROW_BYTES d ! i"
    by (auto simp: file_rows_def)
  have "fits_file d" using d by (simp add: holds_file_def)
  from fits_file_row_count [OF this i(2)] have "int4 no" by (simp add: int4_def i(1))
  moreover have "data \<in> set (pieces ROW_BYTES d)" using i by simp
  moreover have "data \<noteq> [] \<and> length data \<le> ROW_BYTES" if "data \<in> set (pieces ROW_BYTES d)"
    using piece_length [OF _ that] by simp
  ultimately show ?thesis
    using ref_bounds(1) [OF ok n] by (simp add: chunk_typed_def)
qed

text \<open>A single-file row is bounded by its file; the size and ends of a multipart row are \<open>i64\<close> sums.\<close>

definition joined_i64 :: "object_row \<Rightarrow> bool" where
  "joined_i64 r \<longleftrightarrow>
     (case o_parts r of
        None \<Rightarrow> o_part_ends r = None
      | Some _ \<Rightarrow> int8 (o_size r) \<and> (\<forall>e \<in> set (the (o_part_ends r)). int8 e))"

lemma complete_scan_i64:
  "complete_scan ws rs n = Some (ids, ends, tot, shas) \<Longrightarrow> int8 n \<Longrightarrow> int8 tot \<and> (\<forall>e \<in> set ends. int8 e)"
  by (induction ws rs n arbitrary: ids ends shas rule: complete_scan.induct)
    (auto simp: Let_def split: if_splits option.splits)

lemma upsert_joined:
  assumes "\<forall>r \<in> set (d_objects db). joined_i64 r" and "joined_i64 (written_row now b k w)"
    and "upsert_object now b k w db = Inr db'"
  shows "\<forall>r \<in> set (d_objects db'). joined_i64 r"
  using assms by (auto simp: upsert_object_def Let_def split: if_splits option.splits)

lemma swap_joined:
  assumes "\<forall>r \<in> set (d_objects db). joined_i64 r" and "joined_i64 (written_row now b k w)"
    and "swap_object now b k w db = Inr db'"
  shows "\<forall>r \<in> set (d_objects db'). joined_i64 r"
  using assms upsert_joined [OF assms(1,2)]
  by (auto simp: swap_object_def reap_def Let_def split: if_splits option.splits sum.splits)

lemma ingest_tx_publishes:
  assumes "ingest_tx sha now f target msgs db = (Inr res, db')"
  obtains chunks tot digest where
    "(case target of
        ToObject b k c \<Rightarrow> swap_object now b k \<lparr>w_file_id = f, w_size = tot, w_etag = digest, w_parts = None, w_condition = c\<rparr>
          (db\<lparr>d_chunks := chunks\<rparr>)
      | ToPart uid no \<Rightarrow> commit_part uid no f tot digest (db\<lparr>d_chunks := chunks\<rparr>)) = Inr db'"
  using assms by (auto simp: ingest_tx_def Let_def split: if_splits option.splits sum.splits prod.splits)

lemma ingest_joined:
  assumes joined: "\<forall>r \<in> set (d_objects db). joined_i64 r" and run: "ingest_tx sha now f target msgs db = (r, db')"
  shows "\<forall>r \<in> set (d_objects db'). joined_i64 r"
proof (cases r)
  case (Inl e)
  with run have "db' = db" using ingest_tx_error by blast
  with joined show ?thesis by simp
next
  case (Inr res)
  obtain chunks tot digest where pub:
    "(case target of
        ToObject b k c \<Rightarrow> swap_object now b k \<lparr>w_file_id = f, w_size = tot, w_etag = digest, w_parts = None, w_condition = c\<rparr>
          (db\<lparr>d_chunks := chunks\<rparr>)
      | ToPart uid no \<Rightarrow> commit_part uid no f tot digest (db\<lparr>d_chunks := chunks\<rparr>)) = Inr db'"
    by (rule ingest_tx_publishes [OF run [unfolded Inr]]) blast
  have joined': "\<forall>r \<in> set (d_objects (db\<lparr>d_chunks := chunks\<rparr>)). joined_i64 r" using joined by simp
  show ?thesis
  proof (cases target)
    case (ToObject b k c)
    with pub show ?thesis
      by (intro swap_joined [OF joined']) (auto simp: joined_i64_def written_row_def)
  next
    case (ToPart uid no)
    with pub joined show ?thesis by (auto simp: commit_part_def Let_def split: if_splits option.splits)
  qed
qed

lemma complete_joined:
  assumes "\<forall>r \<in> set (d_objects db). joined_i64 r" and "complete_tx sha now uid b k listed db = (c, db')"
  shows "\<forall>r \<in> set (d_objects db'). joined_i64 r"
proof -
  have "joined_i64 (written_row now' b' k' \<lparr>w_file_id = ids ! 0, w_size = tot, w_etag = e, w_parts = Some (ids, ends),
      w_condition = Unconditional\<rparr>)" if "complete_scan ws rs 0 = Some (ids, ends, tot, shas)" for now' b' k' ws rs ids ends tot shas e
    using complete_scan_i64 [OF that] by (simp add: joined_i64_def written_row_def int8_def)
  then show ?thesis
    using assms swap_joined [OF assms(1)]
    by (fastforce simp: complete_tx_def drop_upload_def Let_def split: if_splits option.splits sum.splits prod.splits)
qed

lemma step_joined:
  assumes "sys_step sha s s'" and "\<forall>r \<in> set (d_objects (fst s)). joined_i64 r"
  shows "\<forall>r \<in> set (d_objects (fst s')). joined_i64 r"
  using assms(1) [unfolded sys_step_def] assms(2)
  by (elim exE tx_step.cases)
    (auto simp: nextval_def delete_tx_def reap_def create_bucket_def delete_bucket_def create_upload_def abort_upload_def
      drop_upload_def Let_def split: if_splits option.splits dest: ingest_joined complete_joined)

interpretation columns: invariant_system "sys_step sha" "\<lambda>s. \<forall>r \<in> set (d_objects (fst s)). joined_i64 r" for sha
  by unfold_locales (rule step_joined)

lemma objects_typed:
  assumes ok: "db_ok db" and r: "r \<in> set (d_objects db)" and joined: "joined_i64 r"
  shows "object_typed r"
proof -
  have shape: "row_shape r" using db_okD(3) [OF ok] r by blast
  have refs: "(f, n) \<in> set (refs db)" if "(f, n) \<in> set (object_refs r)" for f n
    using that r by (auto simp: refs_def)
  have ids: "int8 f" if "f \<in> fst ` set (object_refs r)" for f
    using that ref_bounds(1) [OF ok refs] by force
  have "o_size r = sum_list (map snd (object_refs r))" using shape by (simp add: row_shape_def)
  also have "0 \<le> \<dots>" using ref_bounds(2) [OF ok refs] by (intro sum_list_nonneg) auto
  finally have nonneg: "0 \<le> o_size r" .
  have "int8 (o_size r) \<and> (\<forall>e \<in> set (case o_part_ends r of None \<Rightarrow> [] | Some ends \<Rightarrow> ends). int8 e)"
  proof (cases "o_parts r")
    case None
    then have "(o_file_id r, o_size r) \<in> set (object_refs r)" by (simp add: object_refs_single)
    with None joined ref_bounds(3) [OF ok refs] show ?thesis by (simp add: joined_i64_def)
  next
    case (Some xs)
    with joined show ?thesis by (cases "o_part_ends r") (simp_all add: joined_i64_def)
  qed
  moreover have "int8 (o_file_id r)" using ids row_shape_ids(2) [OF shape] by blast
  moreover have "\<forall>f \<in> set (case o_parts r of None \<Rightarrow> [] | Some xs \<Rightarrow> xs). int8 f"
  proof
    fix f assume "f \<in> set (case o_parts r of None \<Rightarrow> [] | Some xs \<Rightarrow> xs)"
    then have "f \<in> set (dead_ids (o_file_id r) (o_parts r))" by (simp add: dead_ids_def)
    then show "int8 f" using ids row_shape_ids(1) [OF shape] by simp
  qed
  ultimately show ?thesis using nonneg by (simp add: object_typed_def)
qed

text \<open>
  C33. What is stored fits its column. However the transactions of any number of gateways
  interleave, no file id, row number, size or part offset ever leaves the range of its SQL
  type, no size is negative, and every chunk row is non-empty and at most one page.
\<close>

theorem stored_values_typed:
  assumes "reachable sha s"
  shows "db_typed (fst s)"
proof -
  have ok: "db_ok (fst s)" using reachable_ok [OF assms] by (cases s) (simp add: sys_ok_def)
  have joined: "\<forall>r \<in> set (d_objects (fst s)). joined_i64 r"
    by (rule columns.run_ok [OF assms]) (simp add: db_empty_def)
  have "part_typed p" if "p \<in> set (d_parts (fst s))" for p
  proof -
    have "(pt_file_id p, pt_size p) \<in> set (refs (fst s))" using that by (force simp: refs_def part_ref_def)
    from ref_bounds [OF ok this] show ?thesis by (simp add: part_typed_def)
  qed
  then show ?thesis
    using chunks_typed [OF ok] objects_typed [OF ok] joined by (auto simp: db_typed_def list_all_iff)
qed

theorem stored_values_typed_witness:
  "list_all chunk_typed (d_chunks sample_run) \<and> list_all object_typed (d_objects sample_run)"
  using stored_values_typed [OF sample_reachable] by (simp add: db_typed_def)

end
