(* ===== verification/Locking.thy ===== *)
theory Locking
  imports Store_Inv
begin

unbundle bit_operations_syntax

text \<open>
  Why a mutation of an object is one step (\<^verbatim>\<open>src/db.rs\<close>: \<^verbatim>\<open>lock_object_key\<close> and its callers
  \<^verbatim>\<open>swap_object\<close> and \<^verbatim>\<open>delete\<close>). Under READ COMMITTED each statement of a transaction sees what is
  committed then; between reading the old row and committing the new one other
  transactions may commit. The advisory lock of the key is taken before the read
  and held to the end of the transaction.
\<close>

section \<open>One transaction\<close>

text \<open>The lock of a key; the hash functions are PostgreSQL's. Two keys may share one.\<close>

definition lock_key :: "(ustring \<Rightarrow> 64 word) \<Rightarrow> (ustring \<Rightarrow> 64 word) \<Rightarrow> ustring \<times> ustring \<Rightarrow> 64 word" where
  "lock_key hash0 hash1 bk = (hash0 (fst bk) XOR hash1 (snd bk))"

datatype mutation = Swap int ustring ustring object_write | Delete ustring ustring

fun target_key :: "mutation \<Rightarrow> ustring \<times> ustring" where
  "target_key (Swap now b k w) = (b, k)"
| "target_key (Delete b k) = (b, k)"

text \<open>
  The statements behind the read of the old row, which is \<open>old\<close> from then on: the new row is
  written, or the row deleted, and the old row's files are reaped.
\<close>

definition swap_rest :: "int \<Rightarrow> ustring \<Rightarrow> ustring \<Rightarrow> object_write \<Rightarrow> object_row option \<Rightarrow> db \<Rightarrow> db_error + db" where
  "swap_rest now b k w old db =
     (if \<not> write_allowed (w_condition w) old then Inl PreconditionFailed
      else
        (case upsert_object now b k w db of
           Inl e \<Rightarrow> Inl e
         | Inr db' \<Rightarrow>
             (case old of
                None \<Rightarrow> Inr db'
              | Some r \<Rightarrow> Inr (reap (o_file_id r) (o_parts r) db'))))"

definition delete_rest :: "ustring \<Rightarrow> ustring \<Rightarrow> object_row option \<Rightarrow> db \<Rightarrow> db" where
  "delete_rest b k old db =
     (let db1 = db\<lparr>d_objects := filter (\<lambda>r. \<not> at_key b k r) (d_objects db)\<rparr>
      in case old of
           None \<Rightarrow> db1
         | Some r \<Rightarrow> reap (o_file_id r) (o_parts r) db1)"

fun finish :: "mutation \<Rightarrow> object_row option \<Rightarrow> db \<Rightarrow> db_error + db" where
  "finish (Swap now b k w) old db = swap_rest now b k w old db"
| "finish (Delete b k) old db = Inr (delete_rest b k old db)"

text \<open>The same mutation as one step.\<close>

fun mutate :: "mutation \<Rightarrow> db \<Rightarrow> db_error + db" where
  "mutate (Swap now b k w) db = swap_object now b k w db"
| "mutate (Delete b k) db = Inr (snd (delete_tx b k db))"

definition old_row :: "mutation \<Rightarrow> db \<Rightarrow> object_row option" where
  "old_row m db = find_object db (fst (target_key m)) (snd (target_key m))"

lemma finish_mutate: "finish m (old_row m db) db = mutate m db"
  by (cases m) (auto simp: swap_rest_def swap_object_def delete_rest_def delete_tx_def old_row_def Let_def
      split: option.split)

section \<open>Many transactions\<close>

text \<open>
  A transaction waits for its lock, holds it, has read the old row, or has ended with the
  error or success of its commit.
\<close>

datatype phase = Waiting | Holding | Looked "object_row option" | Ended "db_error option"

record lock_sys =
  lk_db :: db
  lk_txs :: "(mutation \<times> phase) list"

definition holds_lock :: "phase \<Rightarrow> bool" where
  "holds_lock p = (case p of Holding \<Rightarrow> True | Looked _ \<Rightarrow> True | _ \<Rightarrow> False)"

definition may_lock :: "(ustring \<times> ustring \<Rightarrow> 'l) \<Rightarrow> mutation \<Rightarrow> (mutation \<times> phase) list \<Rightarrow> bool" where
  "may_lock lock m txs \<longleftrightarrow>
     (\<forall>(m', p) \<in> set txs. holds_lock p \<longrightarrow> lock (target_key m') \<noteq> lock (target_key m))"

text \<open>
  Transactions start at any time, a client may go away before the commit, and other
  transactions change the other tables. None of them touches an object row.
\<close>

inductive lock_step :: "(ustring \<times> ustring \<Rightarrow> 'l) \<Rightarrow> lock_sys \<Rightarrow> lock_sys \<Rightarrow> bool" for lock where
  start: "lock_step lock \<lparr>lk_db = db, lk_txs = txs\<rparr> \<lparr>lk_db = db, lk_txs = txs @ [(m, Waiting)]\<rparr>"
| acquire: "may_lock lock m (xs @ ys) \<Longrightarrow>
    lock_step lock \<lparr>lk_db = db, lk_txs = xs @ (m, Waiting) # ys\<rparr> \<lparr>lk_db = db, lk_txs = xs @ (m, Holding) # ys\<rparr>"
| look: "lock_step lock \<lparr>lk_db = db, lk_txs = xs @ (m, Holding) # ys\<rparr>
    \<lparr>lk_db = db, lk_txs = xs @ (m, Looked (old_row m db)) # ys\<rparr>"
| commit: "finish m old db = Inr db' \<Longrightarrow>
    lock_step lock \<lparr>lk_db = db, lk_txs = xs @ (m, Looked old) # ys\<rparr> \<lparr>lk_db = db', lk_txs = xs @ (m, Ended None) # ys\<rparr>"
| refuse: "finish m old db = Inl e \<Longrightarrow>
    lock_step lock \<lparr>lk_db = db, lk_txs = xs @ (m, Looked old) # ys\<rparr> \<lparr>lk_db = db, lk_txs = xs @ (m, Ended (Some e)) # ys\<rparr>"
| rollback: "lock_step lock \<lparr>lk_db = db, lk_txs = xs @ (m, p) # ys\<rparr> \<lparr>lk_db = db, lk_txs = xs @ ys\<rparr>"
| other: "d_objects db' = d_objects db \<Longrightarrow>
    lock_step lock \<lparr>lk_db = db, lk_txs = txs\<rparr> \<lparr>lk_db = db', lk_txs = txs\<rparr>"

text \<open>The atomic view: a mutation at once, a refusal that changes nothing, or another table.\<close>

inductive atomic_step :: "db \<Rightarrow> db \<Rightarrow> bool" where
  atomic_commit: "mutate m db = Inr db' \<Longrightarrow> atomic_step db db'"
| atomic_other: "d_objects db' = d_objects db \<Longrightarrow> atomic_step db db'"

section \<open>The invariant\<close>

text \<open>Locks exclude each other, and what a lock holder has read is still what is stored.\<close>

definition held :: "(ustring \<times> ustring \<Rightarrow> 'l) \<Rightarrow> (mutation \<times> phase) list \<Rightarrow> 'l list" where
  "held lock txs = map (lock \<circ> target_key \<circ> fst) (filter (holds_lock \<circ> snd) txs)"

lemma held_simps [simp]:
  "held lock [] = []" "held lock (xs @ ys) = held lock xs @ held lock ys"
  "held lock ((m, p) # txs) = (if holds_lock p then lock (target_key m) # held lock txs else held lock txs)"
  by (simp_all add: held_def)

lemma holds_lock_simps [simp]:
  "\<not> holds_lock Waiting" "holds_lock Holding" "holds_lock (Looked old)" "\<not> holds_lock (Ended r)"
  by (simp_all add: holds_lock_def)

lemma may_lock_held: "may_lock lock m txs \<longleftrightarrow> lock (target_key m) \<notin> set (held lock txs)"
  by (force simp: may_lock_def held_def)

lemma looked_held: "(m, Looked old) \<in> set txs \<Longrightarrow> lock (target_key m) \<in> set (held lock txs)"
  by (force simp: held_def)

definition locks_ok :: "(ustring \<times> ustring \<Rightarrow> 'l) \<Rightarrow> lock_sys \<Rightarrow> bool" where
  "locks_ok lock s \<longleftrightarrow> distinct (held lock (lk_txs s)) \<and>
     (\<forall>(m, p) \<in> set (lk_txs s). \<forall>old. p = Looked old \<longrightarrow> old = old_row m (lk_db s))"

lemma locks_ok_read: "locks_ok lock s \<Longrightarrow> (m, Looked old) \<in> set (lk_txs s) \<Longrightarrow> old = old_row m (lk_db s)"
  unfolding locks_ok_def by (drule conjunct2, drule (1) bspec) simp

lemma mutate_other:
  assumes "mutate m db = Inr db'" and "target_key m' \<noteq> target_key m"
  shows "old_row m' db' = old_row m' db"
proof (cases m)
  case (Swap now b k w)
  with assms show ?thesis
    using find_swap_other [of now b k w db db' "fst (target_key m')" "snd (target_key m')"] by (simp add: old_row_def)
next
  case (Delete b k)
  with assms show ?thesis
    using find_delete_other [of "fst (target_key m')" "snd (target_key m')" b k db] by (auto simp: old_row_def)
qed

lemma finish_committed:
  "locks_ok lock \<lparr>lk_db = db, lk_txs = xs @ (m, Looked old) # ys\<rparr> \<Longrightarrow> finish m old db = mutate m db"
  using finish_mutate [of m db] by (simp add: locks_ok_def)

lemma commit_ok:
  assumes ok: "locks_ok lock \<lparr>lk_db = db, lk_txs = xs @ (m, Looked old) # ys\<rparr>" and run: "finish m old db = Inr db'"
  shows "locks_ok lock \<lparr>lk_db = db', lk_txs = xs @ (m, Ended None) # ys\<rparr>"
proof -
  have mutated: "mutate m db = Inr db'" using finish_committed [OF ok] run by simp
  have "old' = old_row m' db'" if "(m', Looked old') \<in> set (xs @ ys)" for m' old'
  proof -
    have "lock (target_key m) \<notin> set (held lock (xs @ ys))" using ok by (auto simp: locks_ok_def)
    then have "target_key m' \<noteq> target_key m" using looked_held [OF that, of lock] by metis
    moreover have "old' = old_row m' db" using locks_ok_read [OF ok, of m' old'] that by auto
    ultimately show ?thesis using mutate_other [OF mutated, of m'] by simp
  qed
  with ok show ?thesis by (auto simp: locks_ok_def)
qed

lemma lock_step_ok:
  assumes "lock_step lock s s'" and "locks_ok lock s"
  shows "locks_ok lock s'"
  using assms
proof (cases rule: lock_step.cases)
  case (commit m old db db' xs ys)
  with commit_ok assms(2) show ?thesis by blast
next
  case (other db' db txs)
  then have "old_row m db' = old_row m db" for m by (simp add: old_row_def find_object_def)
  with other assms(2) show ?thesis by (simp add: locks_ok_def)
next
  case (rollback db xs m p ys)
  with assms(2) show ?thesis by (auto simp: locks_ok_def split: if_splits)
qed (auto simp: locks_ok_def may_lock_held)

lemma lock_step_atomic:
  assumes "lock_step lock s s'" and "locks_ok lock s"
  shows "atomic_step (lk_db s) (lk_db s')"
  using assms
proof (cases rule: lock_step.cases)
  case (commit m old db db' xs ys)
  with finish_committed assms(2) have "mutate m db = Inr db'" by metis
  with commit show ?thesis by (simp add: atomic_commit)
qed (auto intro: atomic_other)

interpretation serial: simulated_system "lock_step lock" "locks_ok lock" lk_db atomic_step
  for lock :: "ustring \<times> ustring \<Rightarrow> 'l"
  by unfold_locales (fact lock_step_ok, fact lock_step_atomic)

text \<open>
  C36. Mutations of objects are atomic although they run in several statements. Whatever
  transactions run side by side, end early or share a lock, a transaction that has read its
  old row and goes on does exactly what one undivided step on the state then committed
  does, refusals included, and the whole history is one of such steps.
\<close>

theorem locked_mutations_atomic:
  assumes "(lock_step (lock_key hash0 hash1))\<^sup>*\<^sup>* \<lparr>lk_db = db, lk_txs = []\<rparr> s" and "(m, Looked old) \<in> set (lk_txs s)"
  shows "finish m old (lk_db s) = mutate m (lk_db s) \<and> atomic_step\<^sup>*\<^sup>* db (lk_db s)"
proof -
  have init: "locks_ok (lock_key hash0 hash1) \<lparr>lk_db = db, lk_txs = []\<rparr>" by (simp add: locks_ok_def)
  have "locks_ok (lock_key hash0 hash1) s" by (rule serial.run_ok [OF assms(1) init])
  moreover obtain xs ys where "lk_txs s = xs @ (m, Looked old) # ys" using split_list [OF assms(2)] by blast
  ultimately have "finish m old (lk_db s) = mutate m (lk_db s)"
    using finish_committed [of "lock_key hash0 hash1" "lk_db s" xs m old ys] by (cases s) simp
  with serial.run_sim [OF assms(1) init] show ?thesis by simp
qed

theorem locked_mutations_atomic_witness:
  "\<exists>s. (lock_step (lock_key (\<lambda>_. 1) (\<lambda>_. 2)))\<^sup>*\<^sup>* \<lparr>lk_db = db_empty, lk_txs = []\<rparr> s \<and>
    (Delete [98] [107], Looked None) \<in> set (lk_txs s) \<and> (Delete [98] [107], Waiting) \<in> set (lk_txs s) \<and>
    finish (Delete [98] [107]) None (lk_db s) = mutate (Delete [98] [107]) (lk_db s)"
proof -
  let ?m = "Delete [98] [107]" and ?step = "lock_step (lock_key (\<lambda>_. 1) (\<lambda>_. 2))"
  let ?s = "\<lparr>lk_db = db_empty, lk_txs = [(?m, Looked (old_row ?m db_empty)), (?m, Waiting)]\<rparr>"
  have s1: "?step \<lparr>lk_db = db_empty, lk_txs = []\<rparr> \<lparr>lk_db = db_empty, lk_txs = [(?m, Waiting)]\<rparr>"
    using lock_step.start [of _ db_empty "[]" ?m] by simp
  have s2: "?step \<lparr>lk_db = db_empty, lk_txs = [(?m, Waiting)]\<rparr> \<lparr>lk_db = db_empty, lk_txs = [(?m, Waiting), (?m, Waiting)]\<rparr>"
    using lock_step.start [of _ db_empty "[(?m, Waiting)]" ?m] by simp
  have s3: "?step \<lparr>lk_db = db_empty, lk_txs = [(?m, Waiting), (?m, Waiting)]\<rparr>
      \<lparr>lk_db = db_empty, lk_txs = [(?m, Holding), (?m, Waiting)]\<rparr>"
    using lock_step.acquire [of "lock_key (\<lambda>_. 1) (\<lambda>_. 2)" ?m "[]" "[(?m, Waiting)]" db_empty] by (simp add: may_lock_def)
  have s4: "?step \<lparr>lk_db = db_empty, lk_txs = [(?m, Holding), (?m, Waiting)]\<rparr> ?s"
    using lock_step.look [of _ db_empty "[]" ?m "[(?m, Waiting)]"] by simp
  have run: "?step\<^sup>*\<^sup>* \<lparr>lk_db = db_empty, lk_txs = []\<rparr> ?s"
    using s1 s2 s3 s4 by (meson converse_rtranclp_into_rtranclp rtranclp.rtrancl_refl)
  have "old_row ?m db_empty = None" by (simp add: old_row_def find_object_def db_empty_def)
  with run locked_mutations_atomic [OF run, of ?m None] show ?thesis by (intro exI [of _ ?s]) simp
qed

end
