(* ===== verification/Expiry.thy ===== *)
theory Expiry
  imports Transactions "HOL-Library.List_Lexorder" "HOL-Library.Product_Lexorder"
begin

text \<open>
  The expiry of stale multipart uploads (\<^verbatim>\<open>schema.sql\<close>: \<^verbatim>\<open>s3p.expire_uploads\<close>), run by a
  cron job beside the gateways. One call visits at most 64 uploads or parts and
  deletes at most a given number of chunk rows; \<open>locked\<close> are the uploads other transactions have
  locked, which it skips. Upload ids compare by their bytes.
\<close>

section \<open>The function\<close>

definition stale_uploads :: "int \<Rightarrow> int \<Rightarrow> ustring option \<Rightarrow> ustring list \<Rightarrow> db \<Rightarrow> upload_row list" where
  "stale_uploads now grace bucket locked db =
     sort_key (\<lambda>u. (up_created u, utf8 (up_id u)))
       (filter (\<lambda>u. up_created u < now - grace \<and> (bucket = None \<or> bucket = Some (up_bucket u)) \<and>
          up_id u \<notin> set locked) (d_uploads db))"

definition doomed_rows :: "db \<Rightarrow> int \<Rightarrow> int \<Rightarrow> int list" where
  "doomed_rows db file remaining =
     take (nat remaining) (sort (map (\<lambda>r. fst (snd r)) (filter (\<lambda>r. fst r = file) (d_chunks db))))"

text \<open>One part: the rows within the budget, then the part if that was not all of the budget.\<close>

definition expire_part :: "int \<Rightarrow> int \<Rightarrow> ustring \<Rightarrow> part_row \<Rightarrow> db \<Rightarrow> int \<times> db" where
  "expire_part max_rows removed uid p db =
     (let remaining = max_rows - removed;
          doomed = doomed_rows db (pt_file_id p) remaining;
          gone = filter (\<lambda>c. fst c = pt_file_id p \<and> fst (snd c) \<in> set doomed) (d_chunks db);
          db1 = db\<lparr>d_chunks := filter (\<lambda>c. \<not> (fst c = pt_file_id p \<and> fst (snd c) \<in> set doomed)) (d_chunks db)\<rparr>;
          batch_removed = int (length gone)
      in (removed + batch_removed,
          if batch_removed < remaining then
            (let db2 = db1\<lparr>d_parts := filter (\<lambda>q. \<not> (pt_upload q = uid \<and> pt_no q = pt_no p)) (d_parts db1)\<rparr>
             in if parts_of db2 uid = [] then drop_upload uid db2 else db2)
          else db1))"

fun expire_loop :: "nat \<Rightarrow> (db \<Rightarrow> upload_row list) \<Rightarrow> int \<Rightarrow> int \<Rightarrow> db \<Rightarrow> int \<times> db" where
  "expire_loop 0 victims max_rows removed db = (removed, db)"
| "expire_loop (Suc n) victims max_rows removed db =
     (case victims db of
        [] \<Rightarrow> (removed, db)
      | u # _ \<Rightarrow>
          (case sort_key pt_no (parts_of db (up_id u)) of
             [] \<Rightarrow> expire_loop n victims max_rows removed (drop_upload (up_id u) db)
           | p # _ \<Rightarrow>
               (case expire_part max_rows removed (up_id u) p db of
                  (removed', db') \<Rightarrow>
                    if removed' = max_rows then (removed', db')
                    else expire_loop n victims max_rows removed' db')))"

text \<open>NULL arguments are None; the exception is Inl.\<close>

definition expire_uploads :: "int \<Rightarrow> ustring list \<Rightarrow> int option \<Rightarrow> int option \<Rightarrow> ustring option \<Rightarrow> db \<Rightarrow>
    (unit + int) \<times> db" where
  "expire_uploads now locked p_grace p_max_rows p_bucket db =
     (case (p_grace, p_max_rows) of
        (Some grace, Some max_rows) \<Rightarrow>
          if grace < 0 \<or> max_rows < 1 \<or> max_rows > 8192 then (Inl (), db)
          else
            (case expire_loop 64 (stale_uploads now grace p_bucket locked) max_rows 0 db of
               (removed, db') \<Rightarrow> (Inr removed, db'))
      | _ \<Rightarrow> (Inl (), db))"

section \<open>What a step leaves alone\<close>

text \<open>Nothing but the uploads of \<open>D\<close> and their parts changes for a reader of the store.\<close>

definition spares :: "ustring set \<Rightarrow> db \<Rightarrow> db \<Rightarrow> bool" where
  "spares D db db' \<longleftrightarrow> d_buckets db' = d_buckets db \<and> d_objects db' = d_objects db \<and>
     set (d_uploads db') \<subseteq> set (d_uploads db) \<and> set (d_parts db') \<subseteq> set (d_parts db) \<and>
     a_objects (abs_of db') = a_objects (abs_of db) \<and>
     (\<forall>uid. uid \<notin> D \<longrightarrow> a_uploads (abs_of db') uid = a_uploads (abs_of db) uid \<and>
       (\<forall>no. a_parts (abs_of db') (uid, no) = a_parts (abs_of db) (uid, no)))"

lemma spares_refl: "spares D db db"
  by (simp add: spares_def)

lemma spares_trans: "spares D db db' \<Longrightarrow> spares D db' db'' \<Longrightarrow> spares D db db''"
  by (auto simp: spares_def)

lemma drop_upload_spares:
  assumes ok: "db_ok db" and empty: "parts_of db uid = []" and D: "uid \<in> D"
  shows "db_ok (drop_upload uid db)" and "spares D db (drop_upload uid db)"
proof -
  let ?db' = "drop_upload uid db"
  have kept: "kept_parts db uid = d_parts db"
    using empty by (auto simp: kept_parts_def parts_of_def filter_empty_conv filter_id_conv)
  have db': "?db' = db\<lparr>d_objects := d_objects db, d_chunks := d_chunks db, d_parts := kept_parts db uid,
      d_uploads := filter (\<lambda>u. up_id u \<noteq> uid) (d_uploads db)\<rparr>"
    by (simp add: drop_upload_def kept_parts_def)
  have "ct.backed (d_chunks db) (concat (map object_refs (d_objects db)) @ map part_ref (kept_parts db uid))"
    using db_okD(1) [OF ok] by (simp add: kept refs_def)
  then show "db_ok ?db'"
    using db_okD(2,3,4) [OF ok] by (intro drop_upload_ok(1) [OF ok db']) (auto simp: refs_def)
  have "a_uploads (abs_of ?db') = (a_uploads (abs_of db))(uid := None)"
    by (rule abs_uploads_drop) (simp add: drop_upload_def)
  moreover have "a_objects (abs_of ?db') = a_objects (abs_of db)"
    using db_okD(2) [OF ok] by (intro abs_objects_same) (simp_all add: drop_upload_def keeps_def)
  moreover have "a_parts (abs_of ?db') = a_parts (abs_of db)"
    using kept by (simp add: db' abs_of_def find_part_def)
  ultimately show "spares D db ?db'"
    using D by (auto simp: spares_def drop_upload_def)
qed

text \<open>Losing rows of a part's file, and perhaps the part's record, shows at this part only.\<close>

text \<open>The file of a part is no other row's.\<close>

lemma part_file_unshared:
  assumes ok: "db_ok db" and p: "p \<in> set (d_parts db)"
  shows "pt_file_id p \<notin> fst ` set (concat (map object_refs (d_objects db)))"
    and "q \<in> set (other_parts db (pt_upload p) (pt_no p)) \<Longrightarrow> pt_file_id q \<noteq> pt_file_id p"
proof -
  let ?others = "map part_ref (other_parts db (pt_upload p) (pt_no p))"
  have "mset (refs db) = mset (part_ref p # concat (map object_refs (d_objects db)) @ ?others)"
    using part_refs_split [OF db_okD(5) [OF ok], of "pt_upload p" "pt_no p"] p
    by (simp add: refs_def find_part_Some [OF db_okD(5) [OF ok], THEN iffD2] pkey_def)
  then have "distinct (map fst (part_ref p # concat (map object_refs (d_objects db)) @ ?others))"
    using ct.backed_distinct [OF db_okD(1) [OF ok]] by (metis mset_eq_imp_distinct_iff mset_map)
  then have notin: "pt_file_id p \<notin> fst ` set (concat (map object_refs (d_objects db)))" "pt_file_id p \<notin> fst ` set ?others"
    by (simp_all add: part_ref_def image_image)
  show "pt_file_id p \<notin> fst ` set (concat (map object_refs (d_objects db)))" by (fact notin(1))
  show "pt_file_id q \<noteq> pt_file_id p" if "q \<in> set (other_parts db (pt_upload p) (pt_no p))"
    using that notin(2) by (force simp: part_ref_def image_iff)
qed

lemma part_loss_spares:
  assumes ok: "db_ok db" and p: "p \<in> set (d_parts db)" "pt_upload p \<in> D"
    and db': "db' = db\<lparr>d_chunks := chunks, d_parts := parts\<rparr>"
    and parts: "parts = d_parts db \<or> parts = other_parts db (pt_upload p) (pt_no p)"
    and chunks: "\<And>g. g \<noteq> pt_file_id p \<Longrightarrow> file_bytes chunks g = file_bytes (d_chunks db) g"
  shows "spares D db db'"
proof -
  have keys: "distinct (map pkey (d_parts db))" "distinct (map pkey parts)"
    using parts db_okD(5) [OF ok] by (auto simp: other_parts_def distinct_map_filter)
  note notin = part_file_unshared(1) [OF ok p(1)] and live = part_file_unshared(2) [OF ok p(1)]
  have "keeps db db' (concat (map object_refs (d_objects db)))"
    using notin chunks unfolding keeps_def db' by (metis db.select_convs(3) db.surjective db.update_convs(3,5))
  then have "a_objects (abs_of db') = a_objects (abs_of db)"
    using db_okD(2) [OF ok] by (intro abs_objects_same) (simp_all add: db')
  moreover have same: "a_parts (abs_of db') un = a_parts (abs_of db) un" if "un \<notin> {pkey p}" for un
  proof (rule abs_parts_eqI [OF keys(1) _ _ _ that])
    show "distinct (map pkey (d_parts db'))" using keys(2) by (simp add: db')
    fix q assume q: "pkey q \<notin> {pkey p}"
    show "q \<in> set (d_parts db') \<longleftrightarrow> q \<in> set (d_parts db)"
      using q parts by (auto simp: db' other_parts_def pkey_def)
    assume "q \<in> set (d_parts db)"
    with q live have "pt_file_id q \<noteq> pt_file_id p" by (auto simp: other_parts_def pkey_def)
    then show "file_bytes (d_chunks db') (pt_file_id q) = file_bytes (d_chunks db) (pt_file_id q)"
      using chunks by (simp add: db')
  qed
  moreover have "a_uploads (abs_of db') = a_uploads (abs_of db)" by (simp add: abs_of_def db' find_upload_def)
  moreover have "a_parts (abs_of db') (uid, no) = a_parts (abs_of db) (uid, no)" if "uid \<notin> D" for uid no
    by (rule same) (use that p(2) in \<open>auto simp: pkey_def\<close>)
  moreover have "d_buckets db' = d_buckets db" "d_objects db' = d_objects db" "d_uploads db' = d_uploads db"
    "set (d_parts db') \<subseteq> set (d_parts db)" using parts by (auto simp: db' other_parts_def)
  ultimately show ?thesis by (simp add: spares_def)
qed

text \<open>Deleting a whole part keeps the invariant.\<close>

lemma part_gone_ok:
  assumes ok: "db_ok db" and p: "p \<in> set (d_parts db)"
    and db': "db' = db\<lparr>d_chunks := delete_files (d_chunks db) [pt_file_id p],
      d_parts := other_parts db (pt_upload p) (pt_no p)\<rparr>"
  shows "db_ok db'"
proof -
  let ?live = "concat (map object_refs (d_objects db)) @ map part_ref (other_parts db (pt_upload p) (pt_no p))"
  have keys: "distinct (map pkey (d_parts db))" using db_okD(5) [OF ok] .
  have "mset (refs db) = mset ([part_ref p] @ ?live)"
    using part_refs_split [OF keys, of "pt_upload p" "pt_no p"] p
    by (simp add: refs_def find_part_Some [OF keys, THEN iffD2] pkey_def)
  then have "ct.backed (d_chunks db) ([part_ref p] @ ?live)" using db_okD(1) [OF ok] ct.backed_mset by blast
  then have "ct.backed (delete_files (d_chunks db) [pt_file_id p]) ?live"
    by (rule drop_files) (simp add: part_ref_def)
  moreover have "refs db' = ?live" by (simp add: refs_def db')
  moreover have "set ?live \<subseteq> set (refs db)" by (auto simp: refs_def other_parts_def)
  moreover have "distinct (map pkey (other_parts db (pt_upload p) (pt_no p)))"
    using keys by (simp add: other_parts_def distinct_map_filter)
  moreover have "\<forall>q \<in> set (other_parts db (pt_upload p) (pt_no p)). pt_upload q \<in> up_id ` set (d_uploads db)"
    using ok by (simp add: db_ok_def other_parts_def)
  moreover have "db' = db\<lparr>d_objects := d_objects db, d_chunks := delete_files (d_chunks db) [pt_file_id p],
      d_parts := other_parts db (pt_upload p) (pt_no p), d_uploads := d_uploads db\<rparr>" by (simp add: db')
  ultimately show ?thesis
    using ok by (intro db_ok_write [OF ok, of db']) (auto simp: db_ok_def)
qed

section \<open>One part and the loop\<close>

lemma doomed_all:
  assumes "int (length (filter (\<lambda>c. fst c = f \<and> fst (snd c) \<in> set (doomed_rows db f n)) (d_chunks db))) < n"
  shows "filter (\<lambda>c. \<not> (fst c = f \<and> fst (snd c) \<in> set (doomed_rows db f n))) (d_chunks db) = delete_files (d_chunks db) [f]"
proof -
  let ?nos = "map (\<lambda>r. fst (snd r)) (filter (\<lambda>r. fst r = f) (d_chunks db))"
  have "length (doomed_rows db f n) \<le> length (filter (\<lambda>c. fst c = f \<and> fst (snd c) \<in> set (doomed_rows db f n)) (d_chunks db))"
  proof -
    let ?D = "doomed_rows db f n"
    have "sort ?nos = ?D @ drop (nat n) (sort ?nos)" by (simp add: doomed_rows_def)
    then have "filter (\<lambda>x. x \<in> set ?D) (sort ?nos) = ?D @ filter (\<lambda>x. x \<in> set ?D) (drop (nat n) (sort ?nos))"
      by (metis (no_types, lifting) filter_True filter_append)
    then have "length ?D \<le> length (filter (\<lambda>x. x \<in> set ?D) (sort ?nos))" by simp
    also have "\<dots> = length (filter (\<lambda>x. x \<in> set ?D) ?nos)" by (simp add: filter_sort)
    also have "\<dots> = length (filter (\<lambda>c. fst c = f \<and> fst (snd c) \<in> set ?D) (d_chunks db))"
      by (simp add: filter_map comp_def conj_commute)
    finally show ?thesis .
  qed
  then have "length (doomed_rows db f n) < nat n" using assms by linarith
  then have "doomed_rows db f n = sort ?nos" by (simp add: doomed_rows_def)
  then have "set (doomed_rows db f n) = set ?nos" by simp
  then show ?thesis by (auto simp: delete_files_def intro!: filter_cong)
qed

text \<open>The rows of one part that a budget of \<open>n\<close> rows deletes are at most \<open>n\<close>.\<close>

lemma doomed_count:
  assumes ok: "db_ok db" and p: "p \<in> set (d_parts db)"
  shows "length (filter (\<lambda>c. fst c = pt_file_id p \<and> fst (snd c) \<in> set (doomed_rows db (pt_file_id p) n)) (d_chunks db)) \<le> nat n"
proof -
  let ?f = "pt_file_id p" and ?doomed = "doomed_rows db (pt_file_id p) n"
  let ?gone = "filter (\<lambda>c. fst c = ?f \<and> fst (snd c) \<in> set ?doomed) (d_chunks db)"
  have "(?f, pt_size p) \<in> set (refs db)" using p by (auto simp: refs_def part_ref_def)
  then obtain d where "holds_file (d_chunks db) ?f d" using ct.backed_holds [OF db_okD(1) [OF ok]] by blast
  then have rows: "filter (\<lambda>r. fst r = ?f) (d_chunks db) = file_rows ?f d" by (simp add: holds_file_def rows_of_file_def)
  have "?gone = filter (\<lambda>c. fst (snd c) \<in> set ?doomed) (file_rows ?f d)"
    unfolding rows [symmetric] filter_filter by (simp add: conj_commute)
  moreover have "distinct (map (\<lambda>c. fst (snd c)) (file_rows ?f d))"
    by (simp add: file_rows_def comp_def distinct_map inj_on_def)
  ultimately have "distinct (map (\<lambda>c. fst (snd c)) ?gone)" by (simp add: distinct_map_filter)
  then have "length ?gone = card (set (map (\<lambda>c. fst (snd c)) ?gone))" by (simp only: distinct_card length_map)
  also have "\<dots> \<le> card (set ?doomed)" by (intro card_mono) auto
  also have "\<dots> \<le> nat n" using card_length [of ?doomed] by (simp add: doomed_rows_def)
  finally show ?thesis .
qed

lemma expire_part_step:
  assumes ok: "db_ok db" and p: "p \<in> set (d_parts db)" "pt_upload p = uid" "uid \<in> D"
    and r: "0 \<le> removed" "removed < max_rows"
    and step: "expire_part max_rows removed uid p db = (removed', db')"
  shows "removed \<le> removed'" and "removed' \<le> max_rows" and "spares D db db'"
    and "removed' < max_rows \<Longrightarrow> db_ok db'"
proof -
  let ?f = "pt_file_id p" and ?n = "max_rows - removed"
  let ?gone = "filter (\<lambda>c. fst c = ?f \<and> fst (snd c) \<in> set (doomed_rows db ?f ?n)) (d_chunks db)"
  let ?rest = "filter (\<lambda>c. \<not> (fst c = ?f \<and> fst (snd c) \<in> set (doomed_rows db ?f ?n))) (d_chunks db)"
  show "removed \<le> removed'" using step by (auto simp: expire_part_def Let_def)
  have same: "file_bytes ?rest g = file_bytes (d_chunks db) g" if "g \<noteq> ?f" for g
  proof -
    have "filter (\<lambda>r. fst r = g) ?rest = filter (\<lambda>r. fst r = g) (d_chunks db)"
      using that by (auto intro: filter_cong)
    then show ?thesis by (simp only: file_bytes_def rows_of_file_def)
  qed
  have "length ?gone \<le> nat ?n" by (rule doomed_count [OF ok p(1)])
  then show "removed' \<le> max_rows" using step r by (auto simp: expire_part_def Let_def)
  have "spares D db db' \<and> (removed' < max_rows \<longrightarrow> db_ok db')"
  proof (cases "int (length ?gone) < ?n")
    case False
    then have "db' = db\<lparr>d_chunks := ?rest, d_parts := d_parts db\<rparr>" "\<not> removed' < max_rows"
      using step by (auto simp: expire_part_def Let_def)
    with part_loss_spares [OF ok p(1) _ this(1) _ same] p show ?thesis by simp
  next
    case True
    let ?db2 = "db\<lparr>d_chunks := delete_files (d_chunks db) [?f], d_parts := other_parts db (pt_upload p) (pt_no p)\<rparr>"
    have db': "db' = (if parts_of ?db2 uid = [] then drop_upload uid ?db2 else ?db2)"
      using step unfolding expire_part_def Let_def doomed_all [OF True] by (auto simp: True other_parts_def p(2))
    have ok2: "db_ok ?db2" by (rule part_gone_ok [OF ok p(1) refl])
    have "spares D db ?db2"
      using part_loss_spares [OF ok p(1) _ refl _ same, of D] p doomed_all [OF True] by simp
    with ok2 drop_upload_spares [OF ok2 _ p(3)] show ?thesis
      by (auto simp: db' intro: spares_trans)
  qed
  then show "spares D db db'" and "removed' < max_rows \<Longrightarrow> db_ok db'" by auto
qed

lemma expire_loop_spares:
  assumes "db_ok db" and "0 \<le> removed" and "removed < max_rows"
    and "\<And>db'. set (d_uploads db') \<subseteq> set (d_uploads db) \<Longrightarrow>
      up_id ` set (victims db') \<subseteq> D \<and> set (victims db') \<subseteq> set (d_uploads db')"
    and "expire_loop n victims max_rows removed db = (removed', db')"
  shows "0 \<le> removed' \<and> removed' \<le> max_rows \<and> spares D db db' \<and> (removed' < max_rows \<longrightarrow> db_ok db')"
  using assms
proof (induction n arbitrary: removed db)
  case 0
  then show ?case by (auto simp: spares_refl)
next
  case (Suc n)
  show ?case
  proof (cases "victims db")
    case Nil
    with Suc.prems show ?thesis by (auto simp: spares_refl)
  next
    case (Cons u us)
    let ?uid = "up_id u"
    have uid: "?uid \<in> D" using Suc.prems(4) [of db] Cons by auto
    show ?thesis
    proof (cases "sort_key pt_no (parts_of db ?uid)")
      case Nil
      then have "parts_of db ?uid = []" by (metis length_0_conv length_sort)
      note drop = drop_upload_spares [OF Suc.prems(1) this uid]
      have "set (d_uploads (drop_upload ?uid db)) \<subseteq> set (d_uploads db)" by (auto simp: drop_upload_def)
      with Suc.IH [OF drop(1) Suc.prems(2,3)] Suc.prems(4,5) Cons Nil have
        "0 \<le> removed' \<and> removed' \<le> max_rows \<and> spares D (drop_upload ?uid db) db' \<and> (removed' < max_rows \<longrightarrow> db_ok db')"
        by simp
      with spares_trans [OF drop(2)] show ?thesis by blast
    next
      case (Cons p ps)
      then have "p \<in> set (parts_of db ?uid)" by (metis list.set_intros(1) set_sort)
      then have p: "p \<in> set (d_parts db)" "pt_upload p = ?uid" by (auto simp: parts_of_def)
      obtain r1 db1 where one: "expire_part max_rows removed ?uid p db = (r1, db1)" by fastforce
      note step = expire_part_step [OF Suc.prems(1) p uid Suc.prems(2,3) one]
      show ?thesis
      proof (cases "r1 = max_rows")
        case True
        with Suc.prems(5) \<open>victims db = u # us\<close> Cons one step Suc.prems(2,3) show ?thesis by auto
      next
        case False
        with step have r1: "r1 < max_rows" "0 \<le> r1" using Suc.prems(2) by auto
        have sub: "set (d_uploads db1) \<subseteq> set (d_uploads db)" using step(3) by (simp add: spares_def)
        have "expire_loop n victims max_rows r1 db1 = (removed', db')"
          using Suc.prems(5) \<open>victims db = u # us\<close> Cons one False by simp
        with Suc.IH [OF step(4) [OF r1(1)] r1(2,1)] Suc.prems(4) sub have
          "0 \<le> removed' \<and> removed' \<le> max_rows \<and> spares D db1 db' \<and> (removed' < max_rows \<longrightarrow> db_ok db')"
          by (meson subset_trans)
        with spares_trans [OF step(3)] show ?thesis by blast
      qed
    qed
  qed
qed

section \<open>Properties\<close>

lemma expire_uploads_spares:
  assumes "db_ok db" and "expire_uploads now locked (Some grace) (Some mx) bucket db = (Inr n, db')"
  shows "0 \<le> n \<and> n \<le> mx \<and> spares (up_id ` set (stale_uploads now grace bucket locked db)) db db' \<and> (n < mx \<longrightarrow> db_ok db')"
proof -
  have run: "expire_loop 64 (stale_uploads now grace bucket locked) mx 0 db = (n, db')" and mx: "0 < mx"
    using assms(2) by (auto simp: expire_uploads_def split: if_splits prod.splits)
  show ?thesis
    by (rule expire_loop_spares [OF assms(1) _ mx _ run]) (auto simp: stale_uploads_def)
qed

text \<open>
  C19. An expiry deletes at most its budget of rows, and whatever it does, no object,
  no bucket and no upload that is younger than the grace period, locked or in another
  bucket than the one named changes for a reader of the store, nor any of its parts; if the budget was not used up, the invariant of the tables holds again.
\<close>

theorem expire_spares_live_data:
  assumes "db_ok db" and "expire_uploads now locked (Some grace) (Some mx) bucket db = (Inr n, db')"
  shows "0 \<le> n \<and> n \<le> mx \<and> d_buckets db' = d_buckets db \<and> a_objects (abs_of db') = a_objects (abs_of db) \<and>
    (\<forall>uid. (\<forall>u \<in> set (d_uploads db). up_id u = uid \<longrightarrow>
        now - grace \<le> up_created u \<or> uid \<in> set locked \<or> (\<exists>b. bucket = Some b \<and> b \<noteq> up_bucket u)) \<longrightarrow>
      a_uploads (abs_of db') uid = a_uploads (abs_of db) uid \<and>
      (\<forall>no. a_parts (abs_of db') (uid, no) = a_parts (abs_of db) (uid, no))) \<and>
    (n < mx \<longrightarrow> db_ok db')"
proof -
  have "uid \<notin> up_id ` set (stale_uploads now grace bucket locked db)"
    if "\<forall>u \<in> set (d_uploads db). up_id u = uid \<longrightarrow>
        now - grace \<le> up_created u \<or> uid \<in> set locked \<or> (\<exists>b. bucket = Some b \<and> b \<noteq> up_bucket u)" for uid
    using that by (fastforce simp: stale_uploads_def)
  with expire_uploads_spares [OF assms] show ?thesis unfolding spares_def by blast
qed

lemma expire_loop_numeral:
  "expire_loop (numeral v) victims max_rows removed db =
     (case victims db of
        [] \<Rightarrow> (removed, db)
      | u # _ \<Rightarrow>
          (case sort_key pt_no (parts_of db (up_id u)) of
             [] \<Rightarrow> expire_loop (pred_numeral v) victims max_rows removed (drop_upload (up_id u) db)
           | p # _ \<Rightarrow>
               (case expire_part max_rows removed (up_id u) p db of
                  (removed', db') \<Rightarrow>
                    if removed' = max_rows then (removed', db')
                    else expire_loop (pred_numeral v) victims max_rows removed' db')))"
  by (simp add: numeral_eq_Suc)

section \<open>The store with its cron job\<close>

text \<open>
  The transactions of the gateways and, between them, calls of the expiry that are refused or end
  within their budget of rows. A call that spends its whole budget may leave a part
  without some of its rows until a later call resumes it; what a completion makes of such a part is
  the subject of theory \<open>Expiry_Hole\<close>.
\<close>

inductive store_step :: "(bytes \<Rightarrow> bytes) \<Rightarrow> sys \<Rightarrow> sys \<Rightarrow> bool" for sha where
  store_tx: "tx_step sha l s s' \<Longrightarrow> store_step sha s s'"
| store_expiry: "expire_uploads now locked grace max_rows bucket db = (r, db') \<Longrightarrow>
    (case r of Inl _ \<Rightarrow> True | Inr n \<Rightarrow> n < the max_rows) \<Longrightarrow> store_step sha (db, fl) (db', fl)"

lemma expire_loop_next_id: "expire_loop n victims max_rows removed db = (removed', db') \<Longrightarrow> d_next_id db' = d_next_id db"
proof (induction n arbitrary: removed db)
  case (Suc n)
  show ?case
    using Suc.prems
    by (auto simp: expire_part_def drop_upload_def Let_def dest!: Suc.IH split: list.splits prod.splits if_splits)
qed simp

lemma spares_refs: "spares D db db' \<Longrightarrow> set (refs db') \<subseteq> set (refs db)"
  by (auto simp: spares_def refs_def)

lemma store_step_ok:
  assumes "store_step sha s s'" and "sys_ok s"
  shows "sys_ok s'"
  using assms(1)
proof (cases rule: store_step.cases)
  case (store_tx l)
  then show ?thesis using step_simulates assms(2) by blast
next
  case (store_expiry now locked grace max_rows bucket db r db' fl)
  show ?thesis
  proof (cases r)
    case (Inl e)
    with store_expiry assms(2) show ?thesis by (auto simp: expire_uploads_def split: option.splits if_splits prod.splits)
  next
    case (Inr n)
    then obtain g mx where args: "grace = Some g" "max_rows = Some mx"
      using store_expiry(3) by (auto simp: expire_uploads_def split: option.splits)
    have db: "db_ok db" using assms(2) store_expiry(1) by (simp add: sys_ok_def)
    note run = store_expiry(3) [unfolded args Inr]
    from expire_uploads_spares [OF db run] have "db_ok db'" "set (refs db') \<subseteq> set (refs db)"
      using store_expiry(4) spares_refs by (auto simp: Inr args)
    moreover have "d_next_id db' = d_next_id db"
      using run by (auto simp: expire_uploads_def split: if_splits prod.splits dest: expire_loop_next_id)
    ultimately show ?thesis using sys_ok_step [of db fl db'] assms(2) store_expiry(1,2) by auto
  qed
qed

interpretation with_expiry: invariant_system "store_step sha" sys_ok for sha
  by unfold_locales (rule store_step_ok)

text \<open>
  C2. No holes and no orphans. Whatever transactions the gateways run, and whatever expiries run
  between them as long as each ends within its budget of rows: the metadata of every object
  describes stored files of exactly the recorded lengths, the file of every recorded part is stored
  whole, no two rows of the object and part tables share a file, and every chunk row
  belongs to a file one of them refers to, so failed and replaced writes and expired uploads leave
  no row behind.
\<close>

theorem no_holes_no_orphans:
  assumes "(store_step sha)\<^sup>*\<^sup>* (db_empty, []) (db, fl)"
  shows "(\<forall>r \<in> set (d_objects db). meta_ok (file_bytes (d_chunks db)) (row_meta r)) \<and>
    (\<forall>p \<in> set (d_parts db). int (length (file_bytes (d_chunks db) (pt_file_id p))) = pt_size p) \<and>
    distinct (map fst (refs db)) \<and> fst ` set (d_chunks db) \<subseteq> fst ` set (refs db)"
proof -
  have ok: "db_ok db" using with_expiry.run_ok [OF assms sys_ok_init] by (simp add: sys_ok_def)
  then show ?thesis
    using row_meta_ok [OF ok] part_sizes [OF ok] ct.backed_distinct [OF db_okD(1) [OF ok]] db_ok_no_orphans by auto
qed

theorem no_holes_no_orphans_witness:
  "distinct (map fst (refs sample_run)) \<and> fst ` set (d_chunks sample_run) \<subseteq> fst ` set (refs sample_run)"
proof -
  have "sys_step (\<lambda>b. b) \<le> store_step (\<lambda>b. b)" by (auto simp: sys_step_def le_fun_def intro: store_tx)
  from rtranclp_mono [OF this] sample_reachable have run: "(store_step (\<lambda>b. b))\<^sup>*\<^sup>* (db_empty, []) (sample_run, [])" by blast
  have "d_uploads sample_run = []"
    by (auto simp: sample_run_def ingest_tx_def swap_object_def upsert_object_def reap_def create_bucket_def db_empty_def
        Let_def split: option.splits sum.splits)
  then have "store_step (\<lambda>b. b) (sample_run, []) (sample_run, [])"
    by (intro store_expiry [of 100 "[]" "Some 10" "Some 5" None _ "Inr 0"])
      (simp_all add: expire_uploads_def expire_loop_numeral stale_uploads_def)
  with run have "(store_step (\<lambda>b. b))\<^sup>*\<^sup>* (db_empty, []) (sample_run, [])" by (rule rtranclp.rtrancl_into_rtrancl)
  from no_holes_no_orphans [OF this] show ?thesis by simp
qed

lemma sample_expired:
  "expire_uploads 100 [] (Some 10) (Some 1) None sample_db =
    (Inr 1, sample_db\<lparr>d_chunks := [(1, 0, [10, 11]), (3, 0, [13, 14])]\<rparr>)"
  by (simp add: expire_uploads_def expire_loop_numeral stale_uploads_def sample_db_def parts_of_def
      expire_part_def doomed_rows_def Let_def)

lemma sample_expired_all:
  "\<exists>db'. expire_uploads 100 [] (Some 10) (Some 9) None sample_db = (Inr 2, db')"
  by (simp add: expire_uploads_def expire_loop_numeral stale_uploads_def sample_db_def parts_of_def
      expire_part_def doomed_rows_def drop_upload_def Let_def)

theorem expire_spares_live_data_witness:
  "\<exists>db'. expire_uploads 100 [] (Some 10) (Some 9) None sample_db = (Inr 2, db') \<and> db_ok db' \<and>
    a_objects (abs_of db') ([98], [107]) = Some ([10, 11], [171])"
proof -
  obtain db' where "expire_uploads 100 [] (Some 10) (Some 9) None sample_db = (Inr 2, db')"
    using sample_expired_all by blast
  from this expire_spares_live_data [OF sample_ok(1) this] show ?thesis by (simp add: sample_abs)
qed

end
