(* ===== verification/Row_Locks.thy ===== *)
theory Row_Locks
  imports Expiry
begin

text \<open>
  Why the transactions with several statements are one step each (\<^verbatim>\<open>src/db.rs\<close>: \<^verbatim>\<open>ingest_writer\<close>,
  \<^verbatim>\<open>commit_part\<close>, \<^verbatim>\<open>create_upload\<close>, \<^verbatim>\<open>complete_upload\<close>, \<^verbatim>\<open>abort_upload\<close>, \<^verbatim>\<open>delete_bucket\<close>). Each
  statement sees what is committed when it runs, and other transactions commit in between. What keeps a
  transaction's earlier reads true are the row locks: those it asks for (FOR KEY SHARE, FOR UPDATE), and those
  PostgreSQL takes for a deleted row, an inserted key and a foreign key. Theory
  \<open>Locking\<close> has the advisory lock of an object's key; the replacement of the object row is one step here.
\<close>

section \<open>The transactions\<close>

text \<open>Times, the file id and the UUID of an upload are arguments.\<close>

datatype row_tx =
    WriteTx int int writer_target "ingest_msg list"
  | CreateUploadTx ustring int ustring ustring
  | CompleteTx int ustring ustring ustring "(int \<times> ustring) list"
  | AbortTx ustring ustring ustring
  | DropBucketTx ustring

datatype outcome =
    Wrote "db_error + (int \<times> bytes)"
  | UploadIs "db_error + ustring option"
  | CompletedIs "db_error + (completed \<times> (int list \<times> int list))"
  | AbortedIs bool
  | DroppedIs bucket_deletion

text \<open>The same transaction as one step: its answer and the database behind it.\<close>

fun whole_tx :: "(bytes \<Rightarrow> bytes) \<Rightarrow> row_tx \<Rightarrow> db \<Rightarrow> outcome \<times> db" where
  "whole_tx sha (WriteTx now f target msgs) db = map_prod Wrote id (ingest_tx sha now f target msgs db)"
| "whole_tx sha (CreateUploadTx uuid now b k) db = map_prod UploadIs id (create_upload uuid now b k db)"
| "whole_tx sha (CompleteTx now uid b k listed) db = map_prod CompletedIs id (complete_tx sha now uid b k listed db)"
| "whole_tx sha (AbortTx uid b k) db = map_prod AbortedIs id (abort_upload uid b k db)"
| "whole_tx sha (DropBucketTx b) db = map_prod DroppedIs id (delete_bucket b db)"

section \<open>The statements behind the reads\<close>

text \<open>\<open>old\<close> is the row that the DELETE of \<^verbatim>\<open>commit_part\<close> returned.\<close>

definition part_rest :: "ustring \<Rightarrow> int \<Rightarrow> int \<Rightarrow> int \<Rightarrow> bytes \<Rightarrow> part_row option \<Rightarrow> db \<Rightarrow> db" where
  "part_rest uid no file_id tot digest old db =
     (let db1 = (case old of
            None \<Rightarrow> db
          | Some p \<Rightarrow> db\<lparr>d_parts := filter (\<lambda>q. \<not> (pt_upload q = uid \<and> pt_no q = no)) (d_parts db),
              d_chunks := delete_files (d_chunks db) [pt_file_id p]\<rparr>)
      in db1\<lparr>d_parts := d_parts db1 @
           [\<lparr>pt_upload = uid, pt_no = no, pt_file_id = file_id, pt_size = tot, pt_sha = digest\<rparr>]\<rparr>)"

text \<open>The COPY and what follows it, once the bucket's row is there.\<close>

definition write_rest :: "(bytes \<Rightarrow> bytes) \<Rightarrow> int \<Rightarrow> int \<Rightarrow> writer_target \<Rightarrow> part_row option \<Rightarrow> ingest_msg list \<Rightarrow> db \<Rightarrow>
    (db_error + (int \<times> bytes)) \<times> db" where
  "write_rest sha now file_id target old msgs db =
     (case ingest_stream sha file_id msgs of
        None \<Rightarrow> (Inl IngestAborted, db)
      | Some (stream, tot, digest) \<Rightarrow>
          (case Option.bind (copy_parse stream) (copy_in (d_chunks db)) of
             None \<Rightarrow> (Inl SqlError, db)
           | Some chunks \<Rightarrow>
               (let tx = db\<lparr>d_chunks := chunks\<rparr>
                in case target of
                     ToObject b k c \<Rightarrow>
                       (case swap_object now b k \<lparr>w_file_id = file_id, w_size = tot, w_etag = digest,
                               w_parts = None, w_condition = c\<rparr> tx of
                          Inl e \<Rightarrow> (Inl e, db)
                        | Inr db' \<Rightarrow> (Inr (tot, digest), db'))
                   | ToPart uid no \<Rightarrow> (Inr (tot, digest), part_rest uid no file_id tot digest old tx))))"

text \<open>\<open>up\<close> and \<open>parts\<close> are the rows read under the lock of the upload.\<close>

definition complete_rest :: "(bytes \<Rightarrow> bytes) \<Rightarrow> int \<Rightarrow> ustring \<Rightarrow> (int \<times> ustring) list \<Rightarrow> upload_row \<Rightarrow> part_row list \<Rightarrow>
    db \<Rightarrow> (db_error + (completed \<times> (int list \<times> int list))) \<times> db" where
  "complete_rest sha now uid listed up parts db =
     (let rows = sort_key pt_no parts;
          want = sort_key fst listed
      in if want = [] \<or> length want \<noteq> length rows then (Inr (InvalidPart, [], []), db)
         else
           (case complete_scan want rows 0 of
              None \<Rightarrow> (Inr (InvalidPart, [], []), db)
            | Some (ids, ends, size', shas) \<Rightarrow>
                (case swap_object now (up_bucket up) (up_key up)
                        \<lparr>w_file_id = ids ! 0, w_size = size', w_etag = sha shas,
                         w_parts = Some (ids, ends), w_condition = Unconditional\<rparr> db of
                   Inl e \<Rightarrow> (Inl e, db)
                 | Inr db' \<Rightarrow>
                     (Inr (CompleteDone (up_bucket up) (up_key up) (sha shas) size', ids, ends), drop_upload uid db'))))"

definition abort_rest :: "ustring \<Rightarrow> part_row list \<Rightarrow> db \<Rightarrow> db" where
  "abort_rest uid parts db =
     (let db1 = drop_upload uid db in db1\<lparr>d_chunks := delete_files (d_chunks db1) (map pt_file_id parts)\<rparr>)"

section \<open>Phases and locks\<close>

text \<open>
  How far a transaction is: a write or a Create holds the bucket's row; a part's writer has deleted the earlier row, then
  inserted its own; Complete and Abort hold the upload's row, then have read its parts; a bucket's deletion
  holds its row, then has found it empty.
\<close>

datatype row_phase =
    Begun
  | Sharing
  | Deleted "part_row option"
  | Inserted "part_row option"
  | Updating upload_row
  | PartsRead upload_row "part_row list"
  | Dropping
  | FoundEmpty
  | Answered outcome

fun shares :: "row_tx \<Rightarrow> ustring option" where
  "shares (WriteTx now f (ToObject b k c) msgs) = Some b"
| "shares (CreateUploadTx uuid now b k) = Some b"
| "shares _ = None"

fun part_of :: "row_tx \<Rightarrow> (ustring \<times> int) option" where
  "part_of (WriteTx now f (ToPart uid no) msgs) = Some (uid, no)"
| "part_of _ = None"

fun upload_of :: "row_tx \<Rightarrow> ustring option" where
  "upload_of (CompleteTx now uid b k listed) = Some uid"
| "upload_of (AbortTx uid b k) = Some uid"
| "upload_of _ = None"

fun drops :: "row_tx \<Rightarrow> ustring option" where
  "drops (DropBucketTx b) = Some b"
| "drops _ = None"

text \<open>The row that the locking SELECT of Complete and Abort asks for.\<close>

fun wanted :: "row_tx \<Rightarrow> upload_row \<Rightarrow> bool" where
  "wanted (CompleteTx now uid b k listed) u = (up_id u = uid)"
| "wanted (AbortTx uid b k) u = (up_id u = uid \<and> up_bucket u = b \<and> up_key u = k)"
| "wanted _ u = False"

text \<open>\<open>PartKey\<close> is the entry of the primary key an uncommitted INSERT holds.\<close>

datatype lockable = BucketRow ustring | UploadRow ustring | PartRow ustring int | PartKey ustring int

datatype row_lock = KeyShare lockable | ForUpdate lockable

fun excludes :: "row_lock \<Rightarrow> row_lock \<Rightarrow> bool" where
  "excludes (KeyShare r) (KeyShare r') = False"
| "excludes (KeyShare r) (ForUpdate r') = (r = r')"
| "excludes (ForUpdate r) (KeyShare r') = (r = r')"
| "excludes (ForUpdate r) (ForUpdate r') = (r = r')"

definition part_locks :: "row_tx \<Rightarrow> part_row option \<Rightarrow> row_lock list" where
  "part_locks t old = (case (part_of t, old) of (Some (uid, no), Some _) \<Rightarrow> [ForUpdate (PartRow uid no)] | _ \<Rightarrow> [])"

lemma part_locks_part: "part_of t = Some (uid, no) \<Longrightarrow> part_locks t old = (if old = None then [] else [ForUpdate (PartRow uid no)])"
  by (auto simp: part_locks_def)

fun locks :: "row_tx \<Rightarrow> row_phase \<Rightarrow> row_lock list" where
  "locks t Sharing = (case shares t of Some b \<Rightarrow> [KeyShare (BucketRow b)] | None \<Rightarrow> [])"
| "locks t (Deleted old) = part_locks t old"
| "locks t (Inserted old) = part_locks t old @
     (case part_of t of Some (uid, no) \<Rightarrow> [KeyShare (UploadRow uid), ForUpdate (PartKey uid no)] | None \<Rightarrow> [])"
| "locks t (Updating up) = (case upload_of t of Some uid \<Rightarrow> [ForUpdate (UploadRow uid)] | None \<Rightarrow> [])"
| "locks t (PartsRead up parts) = (case upload_of t of Some uid \<Rightarrow> [ForUpdate (UploadRow uid)] | None \<Rightarrow> [])"
| "locks t Dropping = (case drops t of Some b \<Rightarrow> [ForUpdate (BucketRow b)] | None \<Rightarrow> [])"
| "locks t FoundEmpty = (case drops t of Some b \<Rightarrow> [ForUpdate (BucketRow b)] | None \<Rightarrow> [])"
| "locks t _ = []"

text \<open>What the rest of a transaction does in its last phase: its answer and the database it commits.\<close>

definition tx_rest :: "(bytes \<Rightarrow> bytes) \<Rightarrow> row_tx \<Rightarrow> row_phase \<Rightarrow> db \<Rightarrow> (outcome \<times> db) option" where
  "tx_rest sha t ph db =
     (case (t, ph) of
        (WriteTx now f (ToObject b k c) msgs, Sharing) \<Rightarrow>
          Some (map_prod Wrote id (write_rest sha now f (ToObject b k c) None msgs db))
      | (WriteTx now f (ToPart uid no) msgs, Inserted old) \<Rightarrow>
          Some (map_prod Wrote id (write_rest sha now f (ToPart uid no) old msgs db))
      | (CreateUploadTx uuid now b k, Sharing) \<Rightarrow> Some (map_prod UploadIs id (create_upload uuid now b k db))
      | (CompleteTx now uid b k listed, Updating up) \<Rightarrow>
          if up_bucket up \<noteq> b \<or> up_key up \<noteq> k then Some (CompletedIs (Inr (NoSuchUpload, [], [])), db) else None
      | (CompleteTx now uid b k listed, PartsRead up parts) \<Rightarrow>
          if up_bucket up \<noteq> b \<or> up_key up \<noteq> k then None
          else Some (map_prod CompletedIs id (complete_rest sha now uid listed up parts db))
      | (AbortTx uid b k, PartsRead up parts) \<Rightarrow> Some (AbortedIs True, abort_rest uid parts db)
      | (DropBucketTx b, FoundEmpty) \<Rightarrow>
          Some (DroppedIs BucketDeleted, db\<lparr>d_buckets := filter (\<lambda>x. fst x \<noteq> b) (d_buckets db)\<rparr>)
      | _ \<Rightarrow> None)"

text \<open>The answer of a transaction whose locking SELECT finds no row.\<close>

fun not_there :: "row_tx \<Rightarrow> outcome" where
  "not_there (WriteTx now f target msgs) = Wrote (Inl NoBucket)"
| "not_there (CreateUploadTx uuid now b k) = UploadIs (Inr None)"
| "not_there (CompleteTx now uid b k listed) = CompletedIs (Inr (NoSuchUpload, [], []))"
| "not_there (AbortTx uid b k) = AbortedIs False"
| "not_there (DropBucketTx b) = DroppedIs BucketNotFound"

definition occupied :: "db \<Rightarrow> ustring \<Rightarrow> bool" where
  "occupied db b \<longleftrightarrow> b \<in> o_bucket ` set (d_objects db) \<or> b \<in> up_bucket ` set (d_uploads db)"

section \<open>Many transactions\<close>

type_synonym row_txs = "nat \<Rightarrow> (row_tx \<times> row_phase) option"

record row_sys =
  rs_db :: db
  rs_txs :: row_txs

definition grants :: "row_txs \<Rightarrow> nat \<Rightarrow> row_lock \<Rightarrow> bool" where
  "grants txs i l \<longleftrightarrow>
     (\<forall>j t ph. j \<noteq> i \<longrightarrow> txs j = Some (t, ph) \<longrightarrow> (\<forall>l' \<in> set (locks t ph). \<not> excludes l' l))"

text \<open>
  One statement of one transaction. A DELETE that waited for another that replaced the row finds none
  (\<open>delete_late\<close>). An INSERT of a part checks the primary key and the upload, which it locks. A
  transaction that fails, is cancelled or ends a deadlock is rolled back. A commit removes rows
  of \<^verbatim>\<open>upload_parts\<close> only if no other transaction has deleted them. The expiry (SKIP LOCKED) is one step,
  which skips the uploads that others have locked.
\<close>

definition locked_upload :: "ustring \<Rightarrow> row_lock list \<Rightarrow> bool" where
  "locked_upload uid ls \<longleftrightarrow> KeyShare (UploadRow uid) \<in> set ls \<or> ForUpdate (UploadRow uid) \<in> set ls"

inductive row_step :: "(bytes \<Rightarrow> bytes) \<Rightarrow> row_sys \<Rightarrow> row_sys \<Rightarrow> bool" for sha where
  begin_tx: "txs i = None \<Longrightarrow>
    row_step sha \<lparr>rs_db = db, rs_txs = txs\<rparr> \<lparr>rs_db = db, rs_txs = txs(i \<mapsto> (t, Begun))\<rparr>"
| share: "txs i = Some (t, Begun) \<Longrightarrow> shares t = Some b \<Longrightarrow> bucket_exists db b \<Longrightarrow> grants txs i (KeyShare (BucketRow b)) \<Longrightarrow>
    row_step sha \<lparr>rs_db = db, rs_txs = txs\<rparr> \<lparr>rs_db = db, rs_txs = txs(i \<mapsto> (t, Sharing))\<rparr>"
| share_none: "txs i = Some (t, Begun) \<Longrightarrow> shares t = Some b \<Longrightarrow> \<not> bucket_exists db b \<Longrightarrow>
    row_step sha \<lparr>rs_db = db, rs_txs = txs\<rparr> \<lparr>rs_db = db, rs_txs = txs(i \<mapsto> (t, Answered (not_there t)))\<rparr>"
| delete_part: "txs i = Some (t, Begun) \<Longrightarrow> part_of t = Some (uid, no) \<Longrightarrow> old = find_part db uid no \<Longrightarrow>
    old = None \<or> grants txs i (ForUpdate (PartRow uid no)) \<Longrightarrow>
    row_step sha \<lparr>rs_db = db, rs_txs = txs\<rparr> \<lparr>rs_db = db, rs_txs = txs(i \<mapsto> (t, Deleted old))\<rparr>"
| delete_late: "txs i = Some (t, Begun) \<Longrightarrow> part_of t = Some (uid, no) \<Longrightarrow>
    row_step sha \<lparr>rs_db = db, rs_txs = txs\<rparr> \<lparr>rs_db = db, rs_txs = txs(i \<mapsto> (t, Deleted None))\<rparr>"
| insert_part: "txs i = Some (t, Deleted old) \<Longrightarrow> part_of t = Some (uid, no) \<Longrightarrow> find_part db uid no = old \<Longrightarrow>
    find_upload db uid \<noteq> None \<Longrightarrow> grants txs i (KeyShare (UploadRow uid)) \<Longrightarrow> grants txs i (ForUpdate (PartKey uid no)) \<Longrightarrow>
    row_step sha \<lparr>rs_db = db, rs_txs = txs\<rparr> \<lparr>rs_db = db, rs_txs = txs(i \<mapsto> (t, Inserted old))\<rparr>"
| lock_upload: "txs i = Some (t, Begun) \<Longrightarrow> upload_of t = Some uid \<Longrightarrow> List.find (wanted t) (d_uploads db) = Some up \<Longrightarrow>
    grants txs i (ForUpdate (UploadRow uid)) \<Longrightarrow>
    row_step sha \<lparr>rs_db = db, rs_txs = txs\<rparr> \<lparr>rs_db = db, rs_txs = txs(i \<mapsto> (t, Updating up))\<rparr>"
| lock_none: "txs i = Some (t, Begun) \<Longrightarrow> upload_of t = Some uid \<Longrightarrow> List.find (wanted t) (d_uploads db) = None \<Longrightarrow>
    row_step sha \<lparr>rs_db = db, rs_txs = txs\<rparr> \<lparr>rs_db = db, rs_txs = txs(i \<mapsto> (t, Answered (not_there t)))\<rparr>"
| read_parts: "txs i = Some (t, Updating up) \<Longrightarrow> upload_of t = Some uid \<Longrightarrow>
    row_step sha \<lparr>rs_db = db, rs_txs = txs\<rparr> \<lparr>rs_db = db, rs_txs = txs(i \<mapsto> (t, PartsRead up (parts_of db uid)))\<rparr>"
| lock_bucket: "txs i = Some (t, Begun) \<Longrightarrow> drops t = Some b \<Longrightarrow> bucket_exists db b \<Longrightarrow> grants txs i (ForUpdate (BucketRow b)) \<Longrightarrow>
    row_step sha \<lparr>rs_db = db, rs_txs = txs\<rparr> \<lparr>rs_db = db, rs_txs = txs(i \<mapsto> (t, Dropping))\<rparr>"
| bucket_none: "txs i = Some (t, Begun) \<Longrightarrow> drops t = Some b \<Longrightarrow> \<not> bucket_exists db b \<Longrightarrow>
    row_step sha \<lparr>rs_db = db, rs_txs = txs\<rparr> \<lparr>rs_db = db, rs_txs = txs(i \<mapsto> (t, Answered (not_there t)))\<rparr>"
| check_empty: "txs i = Some (t, Dropping) \<Longrightarrow> drops t = Some b \<Longrightarrow> \<not> occupied db b \<Longrightarrow>
    row_step sha \<lparr>rs_db = db, rs_txs = txs\<rparr> \<lparr>rs_db = db, rs_txs = txs(i \<mapsto> (t, FoundEmpty))\<rparr>"
| check_occupied: "txs i = Some (t, Dropping) \<Longrightarrow> drops t = Some b \<Longrightarrow> occupied db b \<Longrightarrow>
    row_step sha \<lparr>rs_db = db, rs_txs = txs\<rparr> \<lparr>rs_db = db, rs_txs = txs(i \<mapsto> (t, Answered (DroppedIs BucketNotEmpty)))\<rparr>"
| commit_tx: "txs i = Some (t, ph) \<Longrightarrow> tx_rest sha t ph db = Some (out, db') \<Longrightarrow>
    \<forall>p \<in> set (d_parts db) - set (d_parts db'). grants txs i (ForUpdate (PartRow (pt_upload p) (pt_no p))) \<Longrightarrow>
    row_step sha \<lparr>rs_db = db, rs_txs = txs\<rparr> \<lparr>rs_db = db', rs_txs = txs(i \<mapsto> (t, Answered out))\<rparr>"
| roll_back: "row_step sha \<lparr>rs_db = db, rs_txs = txs\<rparr> \<lparr>rs_db = db, rs_txs = txs(i := None)\<rparr>"
| elsewhere: "fst ` set (d_buckets db) \<subseteq> fst ` set (d_buckets db') \<Longrightarrow> d_uploads db' = d_uploads db \<Longrightarrow>
    d_parts db' = d_parts db \<Longrightarrow> o_bucket ` set (d_objects db') \<subseteq> o_bucket ` set (d_objects db) \<Longrightarrow>
    row_step sha \<lparr>rs_db = db, rs_txs = txs\<rparr> \<lparr>rs_db = db', rs_txs = txs\<rparr>"
| expire: "expire_uploads now skipped grace rows b db = (r, db') \<Longrightarrow>
    \<forall>i t ph uid. txs i = Some (t, ph) \<longrightarrow> locked_upload uid (locks t ph) \<longrightarrow> uid \<in> set skipped \<Longrightarrow>
    \<forall>p \<in> set (d_parts db) - set (d_parts db'). \<forall>i. grants txs i (ForUpdate (PartRow (pt_upload p) (pt_no p))) \<Longrightarrow>
    row_step sha \<lparr>rs_db = db, rs_txs = txs\<rparr> \<lparr>rs_db = db', rs_txs = txs\<rparr>"

section \<open>What a transaction has seen stays true\<close>

fun seen :: "row_tx \<Rightarrow> row_phase \<Rightarrow> db \<Rightarrow> bool" where
  "seen t Sharing db \<longleftrightarrow> (\<exists>b. shares t = Some b \<and> bucket_exists db b)"
| "seen t (Deleted old) db \<longleftrightarrow> (\<exists>uid no. part_of t = Some (uid, no) \<and> (old = None \<or> find_part db uid no = old))"
| "seen t (Inserted old) db \<longleftrightarrow>
     (\<exists>uid no. part_of t = Some (uid, no) \<and> find_part db uid no = old \<and> find_upload db uid \<noteq> None)"
| "seen t (Updating up) db \<longleftrightarrow> (\<exists>uid. upload_of t = Some uid \<and> List.find (wanted t) (d_uploads db) = Some up)"
| "seen t (PartsRead up parts) db \<longleftrightarrow>
     (\<exists>uid. upload_of t = Some uid \<and> List.find (wanted t) (d_uploads db) = Some up \<and> parts = parts_of db uid)"
| "seen t Dropping db \<longleftrightarrow> (\<exists>b. drops t = Some b \<and> bucket_exists db b)"
| "seen t FoundEmpty db \<longleftrightarrow> (\<exists>b. drops t = Some b \<and> bucket_exists db b \<and> \<not> occupied db b)"
| "seen t _ db \<longleftrightarrow> True"

text \<open>Behind true reads the rest of a transaction is the whole of it.\<close>

lemma part_rest_whole:
  assumes "find_part db uid no = old" and "find_upload db uid \<noteq> None"
  shows "commit_part uid no f tot digest db = Inr (part_rest uid no f tot digest old db)"
proof -
  have up: "uid \<in> up_id ` set (d_uploads db)" using assms(2) by (auto simp: find_upload_def find_None)
  show ?thesis
  proof (cases old)
    case None
    then have "filter (\<lambda>p. \<not> (pt_upload p = uid \<and> pt_no p = no)) (d_parts db) = d_parts db"
      using assms(1) by (auto simp: find_part_def find_None)
    with None up assms(1) show ?thesis by (simp add: commit_part_def part_rest_def find_part_def Let_def)
  next
    case (Some p)
    with up assms(1) show ?thesis by (simp add: commit_part_def part_rest_def find_part_def Let_def)
  qed
qed

lemma write_rest_object:
  "bucket_exists db b \<Longrightarrow> write_rest sha now f (ToObject b k c) old msgs db = ingest_tx sha now f (ToObject b k c) msgs db"
  by (simp add: write_rest_def ingest_tx_def Let_def split: option.split)

lemma write_rest_part:
  assumes "find_part db uid no = old" and "find_upload db uid \<noteq> None"
  shows "write_rest sha now f (ToPart uid no) old msgs db = ingest_tx sha now f (ToPart uid no) msgs db"
proof -
  have "commit_part uid no f tot digest (db\<lparr>d_chunks := chunks\<rparr>) =
      Inr (part_rest uid no f tot digest old (db\<lparr>d_chunks := chunks\<rparr>))" for tot digest chunks
    by (rule part_rest_whole) (use assms in \<open>simp_all add: find_part_def find_upload_def\<close>)
  then show ?thesis by (simp add: write_rest_def ingest_tx_def Let_def split: option.split)
qed

lemma wanted_CompleteTx [simp]: "wanted (CompleteTx now uid b k listed) = (\<lambda>u. up_id u = uid)"
  by (simp add: fun_eq_iff)

lemma wanted_AbortTx [simp]: "wanted (AbortTx uid b k) = (\<lambda>u. up_id u = uid \<and> up_bucket u = b \<and> up_key u = k)"
  by (simp add: fun_eq_iff)

lemma find_exists: "(\<exists>x \<in> set xs. P x) \<longleftrightarrow> List.find P xs \<noteq> None"
  by (simp add: find_None)

lemma no_bucket_shared: "shares t = Some b \<Longrightarrow> \<not> bucket_exists db b \<Longrightarrow> whole_tx sha t db = (not_there t, db)"
  by (cases t rule: shares.cases) (auto simp: ingest_tx_def create_upload_def)

lemma no_bucket_dropped: "drops t = Some b \<Longrightarrow> \<not> bucket_exists db b \<Longrightarrow> whole_tx sha t db = (not_there t, db)"
  by (cases t) (auto simp: delete_bucket_def)

lemma no_upload_locked:
  "upload_of t = Some uid \<Longrightarrow> List.find (wanted t) (d_uploads db) = None \<Longrightarrow> whole_tx sha t db = (not_there t, db)"
  by (cases t) (simp_all add: complete_tx_def abort_upload_def upload_exists_def find_exists)

lemma delete_bucket_occupied:
  "bucket_exists db b \<Longrightarrow> delete_bucket b db =
    (if occupied db b then (BucketNotEmpty, db)
     else (BucketDeleted, db\<lparr>d_buckets := filter (\<lambda>x. fst x \<noteq> b) (d_buckets db)\<rparr>))"
  by (auto simp: delete_bucket_def occupied_def)

lemma complete_rest_whole:
  assumes "List.find (\<lambda>u. up_id u = uid) (d_uploads db) = Some up" and "up_bucket up = b" and "up_key up = k"
  shows "complete_rest sha now uid listed up (parts_of db uid) db = complete_tx sha now uid b k listed db"
  using assms by (simp add: complete_rest_def complete_tx_def Let_def split: option.split)

lemma complete_other_key:
  "List.find (\<lambda>u. up_id u = uid) (d_uploads db) = Some up \<Longrightarrow> up_bucket up \<noteq> b \<or> up_key up \<noteq> k \<Longrightarrow>
    complete_tx sha now uid b k listed db = (Inr (NoSuchUpload, [], []), db)"
  by (simp add: complete_tx_def)

lemma abort_rest_whole:
  assumes "List.find (\<lambda>u. up_id u = uid \<and> up_bucket u = b \<and> up_key u = k) (d_uploads db) = Some up"
  shows "abort_upload uid b k db = (True, abort_rest uid (parts_of db uid) db)"
proof -
  have "upload_exists db uid b k" unfolding upload_exists_def find_exists using assms by simp
  then show ?thesis by (simp add: abort_upload_def abort_rest_def Let_def)
qed

lemma rest_whole:
  assumes "seen t ph db" and "tx_rest sha t ph db = Some res"
  shows "whole_tx sha t db = res"
proof (cases t)
  case (WriteTx now f target msgs)
  with assms show ?thesis
    by (cases target) (auto simp: tx_rest_def write_rest_object write_rest_part split: row_phase.splits)
next
  case (CompleteTx now uid b k listed)
  with assms show ?thesis
    by (auto simp: tx_rest_def complete_rest_whole complete_other_key split: row_phase.splits if_splits)
next
  case (AbortTx uid b k)
  with assms show ?thesis by (auto simp: tx_rest_def abort_rest_whole split: row_phase.splits)
next
  case (DropBucketTx b)
  with assms show ?thesis by (auto simp: tx_rest_def delete_bucket_occupied split: row_phase.splits)
qed (use assms in \<open>auto simp: tx_rest_def split: row_phase.splits\<close>)

text \<open>What a commit changes.\<close>

lemma swap_tables:
  assumes "swap_object now b k w db = Inr db'"
  shows "d_buckets db' = d_buckets db" and "d_uploads db' = d_uploads db" and "d_parts db' = d_parts db"
    and "o_bucket ` set (d_objects db') \<subseteq> insert b (o_bucket ` set (d_objects db))"
  using assms
  by (auto simp: swap_object_def upsert_object_def reap_def written_row_def Let_def split: if_splits option.splits sum.splits)

lemma write_object_tables:
  assumes "write_rest sha now f (ToObject b k c) old msgs db = (r, db')"
  shows "d_buckets db' = d_buckets db \<and> d_uploads db' = d_uploads db \<and> d_parts db' = d_parts db \<and>
    o_bucket ` set (d_objects db') \<subseteq> insert b (o_bucket ` set (d_objects db))"
proof -
  from assms consider "db' = db" | w chunks where "swap_object now b k w (db\<lparr>d_chunks := chunks\<rparr>) = Inr db'"
    by (auto simp: write_rest_def Let_def split: option.splits sum.splits)
  then show ?thesis
  proof cases
    case 2
    from swap_tables [OF this] show ?thesis by simp
  qed auto
qed

lemma write_part_tables:
  assumes "write_rest sha now f (ToPart uid no) old msgs db = (r, db')"
  shows "d_buckets db' = d_buckets db" and "d_uploads db' = d_uploads db" and "d_objects db' = d_objects db"
    and "d_parts db' = d_parts db \<or> (\<exists>fid size' digest.
      d_parts db' = (case old of None \<Rightarrow> d_parts db
        | Some p \<Rightarrow> filter (\<lambda>q. \<not> (pt_upload q = uid \<and> pt_no q = no)) (d_parts db)) @
        [\<lparr>pt_upload = uid, pt_no = no, pt_file_id = fid, pt_size = size', pt_sha = digest\<rparr>])"
  using assms by (auto simp: write_rest_def part_rest_def Let_def split: option.splits)

lemma complete_tables:
  assumes "complete_rest sha now uid listed up parts db = (r, db')"
  shows "db' = db \<or> d_buckets db' = d_buckets db \<and> d_uploads db' = filter (\<lambda>u. up_id u \<noteq> uid) (d_uploads db) \<and>
      d_parts db' = filter (\<lambda>p. pt_upload p \<noteq> uid) (d_parts db) \<and>
      o_bucket ` set (d_objects db') \<subseteq> insert (up_bucket up) (o_bucket ` set (d_objects db))"
proof -
  from assms consider "db' = db" | w db1 where "swap_object now (up_bucket up) (up_key up) w db = Inr db1" "db' = drop_upload uid db1"
    by (auto simp: complete_rest_def Let_def split: if_splits option.splits sum.splits)
  then show ?thesis
  proof cases
    case 2
    from swap_tables [OF this(1)] show ?thesis by (simp add: 2(2) drop_upload_def)
  qed auto
qed

lemma abort_tables:
  "d_buckets (abort_rest uid parts db) = d_buckets db" "d_objects (abort_rest uid parts db) = d_objects db"
  "d_uploads (abort_rest uid parts db) = filter (\<lambda>u. up_id u \<noteq> uid) (d_uploads db)"
  "d_parts (abort_rest uid parts db) = filter (\<lambda>p. pt_upload p \<noteq> uid) (d_parts db)"
  by (simp_all add: abort_rest_def drop_upload_def Let_def)

lemma create_upload_tables:
  assumes "create_upload uuid now b k db = (r, db')"
  shows "d_buckets db' = d_buckets db" and "d_parts db' = d_parts db" and "d_objects db' = d_objects db"
    and "d_uploads db' = d_uploads db \<or>
      (\<exists>u. up_bucket u = b \<and> up_id u \<notin> up_id ` set (d_uploads db) \<and> d_uploads db' = d_uploads db @ [u])"
  using assms by (auto simp: create_upload_def split: if_splits option.splits)

lemma rest_effect:
  assumes "tx_rest sha t ph db = Some (out, db')"
  obtains (same) "d_buckets db' = d_buckets db" "d_uploads db' = d_uploads db" "d_parts db' = d_parts db"
      "d_objects db' = d_objects db"
    | (swap) b where "shares t = Some b" "ph = Sharing" "d_buckets db' = d_buckets db" "d_uploads db' = d_uploads db"
      "d_parts db' = d_parts db" "o_bucket ` set (d_objects db') \<subseteq> insert b (o_bucket ` set (d_objects db))"
    | (create) b u where "shares t = Some b" "ph = Sharing" "d_buckets db' = d_buckets db" "d_parts db' = d_parts db"
      "d_objects db' = d_objects db" "up_bucket u = b" "up_id u \<notin> up_id ` set (d_uploads db)" "d_uploads db' = d_uploads db @ [u]"
    | (part) uid no old new where "part_of t = Some (uid, no)" "ph = Inserted old" "d_buckets db' = d_buckets db"
      "d_uploads db' = d_uploads db" "d_objects db' = d_objects db" "pt_upload new = uid" "pt_no new = no"
      "d_parts db' = (case old of None \<Rightarrow> d_parts db
        | Some p \<Rightarrow> filter (\<lambda>q. \<not> (pt_upload q = uid \<and> pt_no q = no)) (d_parts db)) @ [new]"
    | (upload) uid up parts where "upload_of t = Some uid" "ph = PartsRead up parts" "d_buckets db' = d_buckets db"
      "d_uploads db' = filter (\<lambda>u. up_id u \<noteq> uid) (d_uploads db)" "d_parts db' = filter (\<lambda>p. pt_upload p \<noteq> uid) (d_parts db)"
      "o_bucket ` set (d_objects db') \<subseteq> insert (up_bucket up) (o_bucket ` set (d_objects db))"
    | (bucket) b where "drops t = Some b" "ph = FoundEmpty" "d_buckets db' = filter (\<lambda>x. fst x \<noteq> b) (d_buckets db)"
      "d_uploads db' = d_uploads db" "d_parts db' = d_parts db" "d_objects db' = d_objects db"
proof (cases t)
  case (WriteTx now f target msgs)
  show thesis
  proof (cases target)
    case (ToObject b k c)
    with WriteTx assms obtain r where "write_rest sha now f (ToObject b k c) None msgs db = (r, db')" "ph = Sharing"
      by (auto simp: tx_rest_def map_prod_id split: row_phase.splits)
    with write_object_tables [OF this(1)] show thesis by (intro swap [of b]) (simp_all add: WriteTx ToObject)
  next
    case (ToPart uid no)
    with WriteTx assms obtain r old where run: "write_rest sha now f (ToPart uid no) old msgs db = (r, db')" and "ph = Inserted old"
      by (auto simp: tx_rest_def map_prod_id split: row_phase.splits)
    with write_part_tables [OF run] WriteTx ToPart show thesis
      by (elim disjE exE) (rule same, simp_all, rule part, simp_all)
  qed
next
  case (CreateUploadTx uuid now b k)
  with assms obtain r where run: "create_upload uuid now b k db = (r, db')" and "ph = Sharing"
    by (auto simp: tx_rest_def map_prod_id split: row_phase.splits)
  with create_upload_tables [OF run] CreateUploadTx show thesis
    by (elim disjE exE) (rule same, simp_all, rule create, simp_all)
next
  case (CompleteTx now uid b k listed)
  with assms consider "db' = db"
    | r up parts where "complete_rest sha now uid listed up parts db = (r, db')" "ph = PartsRead up parts"
    by (auto simp: tx_rest_def map_prod_id split: row_phase.splits if_splits)
  then show thesis
  proof cases
    case 2
    with complete_tables [OF this(1)] CompleteTx show thesis
      by (elim disjE conjE) (rule same, simp_all, rule upload [of uid up parts], simp_all)
  qed (rule same, simp_all)
next
  case (AbortTx uid b k)
  with assms obtain up parts where "db' = abort_rest uid parts db" "ph = PartsRead up parts"
    by (auto simp: tx_rest_def map_prod_id split: row_phase.splits)
  then show thesis by (intro upload [of uid up parts]) (auto simp: AbortTx abort_tables)
next
  case (DropBucketTx b)
  with assms show thesis by (intro bucket [of b]) (auto simp: tx_rest_def split: row_phase.splits)
qed

section \<open>Commits of others\<close>

lemma find_SomeD: "List.find P xs = Some x \<Longrightarrow> x \<in> set xs \<and> P x"
  by (auto simp: find_Some_iff)

lemma wanted_id: "upload_of t = Some uid \<Longrightarrow> wanted t u \<Longrightarrow> up_id u = uid"
  by (cases t) auto

lemma wanted_find: "upload_of t = Some uid \<Longrightarrow> List.find (wanted t) us = Some u \<Longrightarrow> up_id u = uid \<and> u \<in> set us"
  by (auto dest: find_SomeD wanted_id)

text \<open>The tables a phase has read, kept by a commit that holds no lock against it.\<close>

lemma seen_same_tables:
  assumes "seen t ph db" and "d_buckets db' = d_buckets db" and "d_uploads db' = d_uploads db" and "d_parts db' = d_parts db"
    and "ph = FoundEmpty \<Longrightarrow> (\<forall>b. drops t = Some b \<longrightarrow> b \<notin> o_bucket ` set (d_objects db'))"
  shows "seen t ph db'"
  using assms
  by (cases ph) (auto simp: bucket_exists_def find_part_def find_upload_def parts_of_def occupied_def)

lemma seen_new_upload:
  assumes "seen t ph db" and "d_buckets db' = d_buckets db" and "d_uploads db' = d_uploads db @ [u]" and "d_parts db' = d_parts db"
    and "d_objects db' = d_objects db" and "ph = FoundEmpty \<Longrightarrow> drops t \<noteq> Some (up_bucket u)"
  shows "seen t ph db'"
  using assms
  by (cases ph) (auto simp: bucket_exists_def find_part_def find_upload_def parts_of_def occupied_def find_append)

lemma seen_new_part:
  assumes seen: "seen t ph db" and tables: "d_buckets db' = d_buckets db" "d_uploads db' = d_uploads db" "d_objects db' = d_objects db"
    and others: "\<And>uid no. (uid, no) \<noteq> (u, n) \<Longrightarrow> find_part db' uid no = find_part db uid no"
      "\<And>uid. uid \<noteq> u \<Longrightarrow> parts_of db' uid = parts_of db uid"
    and free: "ForUpdate (UploadRow u) \<notin> set (locks t ph)" "ForUpdate (PartRow u n) \<notin> set (locks t ph)"
      "ForUpdate (PartKey u n) \<notin> set (locks t ph)"
  shows "seen t ph db'"
  using assms
  by (cases ph) (auto simp: bucket_exists_def find_upload_def occupied_def part_locks_part split: option.splits if_splits)

lemma find_filter_other: "\<forall>x \<in> set xs. P x \<longrightarrow> Q x \<Longrightarrow> List.find P (filter Q xs) = List.find P xs"
  by (induction xs) auto

lemma seen_dropped_upload:
  assumes seen: "seen t ph db" and buckets: "d_buckets db' = d_buckets db"
    and tables: "d_uploads db' = filter (\<lambda>x. up_id x \<noteq> u) (d_uploads db)" "d_parts db' = filter (\<lambda>p. pt_upload p \<noteq> u) (d_parts db)"
    and objects: "o_bucket ` set (d_objects db') \<subseteq> insert b (o_bucket ` set (d_objects db))" "b \<in> up_bucket ` set (d_uploads db)"
    and free: "ForUpdate (UploadRow u) \<notin> set (locks t ph)" "KeyShare (UploadRow u) \<notin> set (locks t ph)"
      "\<And>p. p \<in> set (d_parts db) \<Longrightarrow> pt_upload p = u \<Longrightarrow> ForUpdate (PartRow u (pt_no p)) \<notin> set (locks t ph)"
  shows "seen t ph db'"
proof -
  have part: "find_part db' uid no = find_part db uid no" if "uid \<noteq> u" for uid no
    unfolding find_part_def tables using that by (intro find_filter_other) simp
  have upload: "find_upload db' uid = find_upload db uid" if "uid \<noteq> u" for uid
    unfolding find_upload_def tables using that by (intro find_filter_other) simp
  have locked: "List.find (wanted t) (d_uploads db') = List.find (wanted t) (d_uploads db)" if "upload_of t = Some uid" "uid \<noteq> u" for uid
    unfolding tables using that by (intro find_filter_other) (auto dest: wanted_id)
  have parts: "parts_of db' uid = parts_of db uid" if "uid \<noteq> u" for uid
    using that by (auto simp: parts_of_def tables intro: filter_cong)
  have "up_bucket ` set (d_uploads db') \<subseteq> up_bucket ` set (d_uploads db)" by (auto simp: tables)
  with objects have empty: "\<not> occupied db' x" if "\<not> occupied db x" for x
    using that unfolding occupied_def by blast
  show ?thesis
  proof (cases ph)
    case (Deleted old)
    then obtain uid no where t: "part_of t = Some (uid, no)" and old: "old = None \<or> find_part db uid no = old"
      using seen by auto
    show ?thesis
    proof (cases "old = None \<or> uid \<noteq> u")
      case True
      with Deleted t old part show ?thesis by auto
    next
      case False
      with old obtain p where p: "p \<in> set (d_parts db)" "pt_upload p = u" "pt_no p = no" "old = Some p"
        by (auto simp: find_part_def dest: find_SomeD)
      from free(3) [OF p(1,2)] False t p show ?thesis by (simp add: Deleted part_locks_def)
    qed
  qed (use seen buckets free(1,2) part upload locked parts empty in \<open>auto simp: bucket_exists_def split: option.splits\<close>)
qed

lemma seen_dropped_bucket:
  assumes "seen t ph db" and "d_buckets db' = filter (\<lambda>x. fst x \<noteq> b) (d_buckets db)" and "d_uploads db' = d_uploads db"
    and "d_parts db' = d_parts db" and "d_objects db' = d_objects db"
    and "KeyShare (BucketRow b) \<notin> set (locks t ph)" and "ForUpdate (BucketRow b) \<notin> set (locks t ph)"
  shows "seen t ph db'"
proof -
  have "bucket_exists db' x \<longleftrightarrow> bucket_exists db x \<and> x \<noteq> b" for x using assms(2) by (force simp: bucket_exists_def)
  then show ?thesis
    using assms by (cases ph) (auto simp: find_part_def find_upload_def parts_of_def occupied_def)
qed

lemma part_lock_seen: "ForUpdate (PartRow uid no) \<in> set (locks t ph) \<Longrightarrow> seen t ph db \<Longrightarrow> find_part db uid no \<noteq> None"
  by (cases ph) (auto simp: part_locks_def split: option.splits)

lemma seen_part_commit:
  assumes part: "part_of t = Some (uid, no)" "ph = Inserted old" "pt_upload new = uid" "pt_no new = no"
      "d_parts db' = (case old of None \<Rightarrow> d_parts db
        | Some p \<Rightarrow> filter (\<lambda>q. \<not> (pt_upload q = uid \<and> pt_no q = no)) (d_parts db)) @ [new]"
    and tables: "d_buckets db' = d_buckets db" "d_uploads db' = d_uploads db" "d_objects db' = d_objects db"
    and mine: "seen t ph db" and other: "seen t' ph' db"
    and free: "\<And>l l'. l \<in> set (locks t ph) \<Longrightarrow> l' \<in> set (locks t' ph') \<Longrightarrow> \<not> excludes l' l"
  shows "seen t' ph' db'"
proof (rule seen_new_part [OF other tables])
  show "find_part db' u n = find_part db u n" if "(u, n) \<noteq> (uid, no)" for u n
  proof -
    have "List.find (\<lambda>p. pt_upload p = u \<and> pt_no p = n) (filter (\<lambda>q. \<not> (pt_upload q = uid \<and> pt_no q = no)) (d_parts db)) =
        List.find (\<lambda>p. pt_upload p = u \<and> pt_no p = n) (d_parts db)"
      using that by (intro find_filter_other) auto
    then show ?thesis using that part(3,4) by (auto simp: find_part_def part(5) find_append split: option.splits)
  qed
  show "parts_of db' u = parts_of db u" if "u \<noteq> uid" for u
    using that part(3) by (auto simp: parts_of_def part(5) split: option.splits intro: filter_cong)
  have held: "KeyShare (UploadRow uid) \<in> set (locks t ph)" "ForUpdate (PartKey uid no) \<in> set (locks t ph)"
    using part(1) by (simp_all add: part(2))
  show "ForUpdate (UploadRow uid) \<notin> set (locks t' ph')" using free [OF held(1)] by fastforce
  show "ForUpdate (PartKey uid no) \<notin> set (locks t' ph')" using free [OF held(2)] by fastforce
  show "ForUpdate (PartRow uid no) \<notin> set (locks t' ph')"
  proof (cases old)
    case None
    then have "find_part db uid no = None" using mine part(1,2) by auto
    with part_lock_seen [OF _ other] show ?thesis by blast
  next
    case (Some p)
    then have "ForUpdate (PartRow uid no) \<in> set (locks t ph)" using part(1) by (simp add: part(2) part_locks_def)
    from free [OF this] show ?thesis by fastforce
  qed
qed

lemma seen_commit:
  assumes mine: "seen t ph db" and rest: "tx_rest sha t ph db = Some (out, db')" and other: "seen t' ph' db"
    and free: "\<And>l l'. l \<in> set (locks t ph) \<Longrightarrow> l' \<in> set (locks t' ph') \<Longrightarrow> \<not> excludes l' l"
    and guard: "\<And>p l'. p \<in> set (d_parts db) - set (d_parts db') \<Longrightarrow> l' \<in> set (locks t' ph') \<Longrightarrow>
      \<not> excludes l' (ForUpdate (PartRow (pt_upload p) (pt_no p)))"
  shows "seen t' ph' db'"
  using rest
proof (cases rule: rest_effect)
  case same
  show ?thesis by (rule seen_same_tables [OF other same(1-3)]) (use other same(4) in \<open>auto simp: occupied_def\<close>)
next
  case (swap b)
  show ?thesis
  proof (rule seen_same_tables [OF other swap(3-5)])
    assume ph': "ph' = FoundEmpty"
    then have "x \<noteq> b \<and> x \<notin> o_bucket ` set (d_objects db)" if "drops t' = Some x" for x
      using that free [of "KeyShare (BucketRow b)"] other swap(1,2) by (auto simp: occupied_def)
    with swap(6) show "\<forall>x. drops t' = Some x \<longrightarrow> x \<notin> o_bucket ` set (d_objects db')" by blast
  qed
next
  case (create b u)
  show ?thesis
    by (rule seen_new_upload [OF other create(3,8,4,5)])
      (use free [of "KeyShare (BucketRow b)"] create(1,2,6) in auto)
next
  case (part uid no old new)
  show ?thesis by (rule seen_part_commit [OF part(1,2,6,7,8,3,4,5) mine other free])
next
  case (upload uid up parts)
  have held: "ForUpdate (UploadRow uid) \<in> set (locks t ph)" using upload(1) by (simp add: upload(2))
  have "up \<in> set (d_uploads db)" using mine upload(1) by (auto simp: upload(2) dest: wanted_find)
  then have b: "up_bucket up \<in> up_bucket ` set (d_uploads db)" by simp
  show ?thesis
  proof (rule seen_dropped_upload [OF other upload(3-6) b])
    show "ForUpdate (UploadRow uid) \<notin> set (locks t' ph')" "KeyShare (UploadRow uid) \<notin> set (locks t' ph')"
      using free [OF held] by fastforce+
    show "ForUpdate (PartRow uid (pt_no p)) \<notin> set (locks t' ph')" if "p \<in> set (d_parts db)" "pt_upload p = uid" for p
      using guard [of p] that by (fastforce simp: upload(5))
  qed
next
  case (bucket b)
  have held: "ForUpdate (BucketRow b) \<in> set (locks t ph)" using bucket(1) by (simp add: bucket(2))
  show ?thesis
    by (rule seen_dropped_bucket [OF other bucket(3-6)]) (use free [OF held] in fastforce)+
qed

section \<open>The expiry beside them\<close>

text \<open>The rows of the uploads of \<open>L\<close> are left alone, and parts are only removed.\<close>

definition untouched :: "ustring set \<Rightarrow> db \<Rightarrow> db \<Rightarrow> bool" where
  "untouched L db db' \<longleftrightarrow> d_buckets db' = d_buckets db \<and> d_objects db' = d_objects db \<and>
     (\<exists>Q. d_uploads db' = filter Q (d_uploads db) \<and> (\<forall>u. up_id u \<in> L \<longrightarrow> Q u)) \<and>
     (\<exists>Q. d_parts db' = filter Q (d_parts db) \<and> (\<forall>p. pt_upload p \<in> L \<longrightarrow> Q p))"

lemma untouched_refl: "untouched L db db"
  by (auto simp: untouched_def intro!: exI [of _ "\<lambda>_. True"])

lemma untouched_trans:
  assumes "untouched L db db1" and "untouched L db1 db2"
  shows "untouched L db db2"
proof -
  obtain Q1 R1 where 1: "d_uploads db1 = filter Q1 (d_uploads db)" "\<forall>u. up_id u \<in> L \<longrightarrow> Q1 u"
      "d_parts db1 = filter R1 (d_parts db)" "\<forall>p. pt_upload p \<in> L \<longrightarrow> R1 p"
    using assms(1) by (auto simp: untouched_def)
  obtain Q2 R2 where 2: "d_uploads db2 = filter Q2 (d_uploads db1)" "\<forall>u. up_id u \<in> L \<longrightarrow> Q2 u"
      "d_parts db2 = filter R2 (d_parts db1)" "\<forall>p. pt_upload p \<in> L \<longrightarrow> R2 p"
    using assms(2) by (auto simp: untouched_def)
  have "d_uploads db2 = filter (\<lambda>u. Q1 u \<and> Q2 u) (d_uploads db)" "d_parts db2 = filter (\<lambda>p. R1 p \<and> R2 p) (d_parts db)"
    unfolding 1(1,3) 2(1,3) by simp_all
  then have "\<exists>Q. d_uploads db2 = filter Q (d_uploads db) \<and> (\<forall>u. up_id u \<in> L \<longrightarrow> Q u)"
    and "\<exists>Q. d_parts db2 = filter Q (d_parts db) \<and> (\<forall>p. pt_upload p \<in> L \<longrightarrow> Q p)"
    using 1(2,4) 2(2,4) by blast+
  with assms show ?thesis by (simp add: untouched_def)
qed

lemma untouched_drop: "uid \<notin> L \<Longrightarrow> untouched L db (drop_upload uid db)"
  by (auto simp: untouched_def drop_upload_def intro!: exI [of _ "\<lambda>x. _ x \<noteq> uid"])

lemma untouched_expire_part:
  assumes "uid \<notin> L" and "expire_part max_rows removed uid p db = (removed', db')"
  shows "untouched L db db'"
proof -
  let ?db2 = "\<lambda>chunks. db\<lparr>d_chunks := chunks, d_parts := filter (\<lambda>q. \<not> (pt_upload q = uid \<and> pt_no q = pt_no p)) (d_parts db)\<rparr>"
  have part: "untouched L db (?db2 chunks)" for chunks
    using assms(1) untouched_refl [of L db] by (auto simp: untouched_def)
  have "untouched L db (db\<lparr>d_chunks := chunks\<rparr>)" for chunks using untouched_refl [of L db] by (simp add: untouched_def)
  moreover have "untouched L db (drop_upload uid (?db2 chunks))" for chunks
    by (rule untouched_trans [OF part untouched_drop]) (fact assms(1))
  ultimately show ?thesis using assms(2) part by (auto simp: expire_part_def Let_def split: if_splits)
qed

lemma untouched_expire_loop:
  assumes "\<And>db u. u \<in> set (victims db) \<Longrightarrow> up_id u \<notin> L" and "expire_loop n victims max_rows removed db = (removed', db')"
  shows "untouched L db db'"
  using assms(2)
proof (induction n arbitrary: removed db)
  case (Suc n)
  show ?case
  proof (cases "victims db")
    case Nil
    with Suc.prems show ?thesis by (simp add: untouched_refl)
  next
    case (Cons u us)
    then have uid: "up_id u \<notin> L" using assms(1) [of u db] by simp
    show ?thesis
    proof (cases "sort_key pt_no (parts_of db (up_id u))")
      case Nil
      with Cons Suc.prems have "expire_loop n victims max_rows removed (drop_upload (up_id u) db) = (removed', db')" by simp
      from untouched_trans [OF untouched_drop [OF uid] Suc.IH [OF this]] show ?thesis .
    next
      case (Cons p ps)
      obtain r1 db1 where one: "expire_part max_rows removed (up_id u) p db = (r1, db1)" by fastforce
      from untouched_expire_part [OF uid this] have "untouched L db db1" .
      moreover have "db' = db1 \<or> expire_loop n victims max_rows r1 db1 = (removed', db')"
        using Suc.prems \<open>victims db = u # us\<close> Cons one by (auto split: if_splits)
      ultimately show ?thesis using Suc.IH untouched_trans by blast
    qed
  qed
qed (simp add: untouched_refl)

lemma untouched_expire:
  assumes "expire_uploads now skipped grace rows b db = (r, db')"
  shows "untouched (set skipped) db db'"
proof -
  from assms consider "db' = db" | g m x where "expire_loop 64 (stale_uploads now g b skipped) m 0 db = (x, db')"
    by (auto simp: expire_uploads_def split: option.splits if_splits prod.splits)
  then show ?thesis
  proof cases
    case (2 g m x)
    show ?thesis by (rule untouched_expire_loop [OF _ 2]) (simp add: stale_uploads_def)
  qed (simp add: untouched_refl)
qed

lemma find_filter_kept: "List.find P xs = Some x \<Longrightarrow> Q x \<Longrightarrow> List.find P (filter Q xs) = Some x"
  by (induction xs) (auto split: if_splits)

lemma seen_expired:
  assumes seen: "seen t ph db" and un: "untouched L db db'"
    and locked: "\<And>uid. locked_upload uid (locks t ph) \<Longrightarrow> uid \<in> L"
    and guard: "\<And>p. p \<in> set (d_parts db) - set (d_parts db') \<Longrightarrow> ForUpdate (PartRow (pt_upload p) (pt_no p)) \<notin> set (locks t ph)"
  shows "seen t ph db'"
proof -
  obtain Q R where tables: "d_uploads db' = filter Q (d_uploads db)" "d_parts db' = filter R (d_parts db)"
    and keep: "\<And>u. up_id u \<in> L \<Longrightarrow> Q u" "\<And>p. pt_upload p \<in> L \<Longrightarrow> R p"
    using un by (auto simp: untouched_def)
  have same: "d_buckets db' = d_buckets db" "d_objects db' = d_objects db" using un by (auto simp: untouched_def)
  have parts: "parts_of db' uid = parts_of db uid" "find_part db' uid no = find_part db uid no"
    "find_upload db' uid = find_upload db uid" if "uid \<in> L" for uid no
    using that keep unfolding parts_of_def find_part_def find_upload_def tables
    by (auto intro!: find_filter_other intro: filter_cong)
  have wanted: "List.find (wanted t) (d_uploads db') = List.find (wanted t) (d_uploads db)" if "upload_of t = Some uid" "uid \<in> L" for uid
    unfolding tables using that keep by (intro find_filter_other) (auto dest: wanted_id)
  have empty: "\<not> occupied db' x" if "\<not> occupied db x" for x using that by (auto simp: occupied_def tables same)
  show ?thesis
  proof (cases ph)
    case (Deleted old)
    then obtain uid no where t: "part_of t = Some (uid, no)" and old: "old = None \<or> find_part db uid no = old"
      using seen by auto
    show ?thesis
    proof (cases old)
      case None
      with Deleted t show ?thesis by simp
    next
      case (Some p)
      with old have p: "find_part db uid no = Some p" by simp
      then have "p \<in> set (d_parts db)" "pt_upload p = uid" "pt_no p = no" by (auto simp: find_part_def dest: find_SomeD)
      with guard [of p] have "p \<in> set (d_parts db')" by (auto simp: Deleted Some t part_locks_part)
      then have "R p" by (simp add: tables)
      with p have "find_part db' uid no = Some p" unfolding find_part_def tables by (intro find_filter_kept)
      with Deleted t Some show ?thesis by simp
    qed
  qed (use seen locked parts wanted empty in \<open>auto simp: bucket_exists_def same locked_upload_def\<close>)
qed

section \<open>The invariant\<close>

definition rows_ok :: "row_sys \<Rightarrow> bool" where
  "rows_ok s \<longleftrightarrow> (\<forall>i t ph. rs_txs s i = Some (t, ph) \<longrightarrow> seen t ph (rs_db s)) \<and>
     (\<forall>i t ph. rs_txs s i = Some (t, ph) \<longrightarrow> (\<forall>l \<in> set (locks t ph). grants (rs_txs s) i l))"

lemma excludes_sym: "excludes l l' \<longleftrightarrow> excludes l' l"
  by (cases l; cases l') auto

lemma rows_okD:
  assumes "rows_ok \<lparr>rs_db = db, rs_txs = txs\<rparr>" and "txs i = Some (t, ph)"
  shows "seen t ph db" and "l \<in> set (locks t ph) \<Longrightarrow> grants txs i l"
  using assms by (auto simp: rows_ok_def)

lemma grantsD: "grants txs i l \<Longrightarrow> j \<noteq> i \<Longrightarrow> txs j = Some (t, ph) \<Longrightarrow> l' \<in> set (locks t ph) \<Longrightarrow> \<not> excludes l' l"
  by (auto simp: grants_def)

text \<open>One transaction goes on: what it has now seen is true, and its locks were granted.\<close>

lemma rows_ok_advance:
  assumes ok: "rows_ok \<lparr>rs_db = db, rs_txs = txs\<rparr>" and seen: "seen t ph db"
    and locks: "\<And>l. l \<in> set (locks t ph) \<Longrightarrow> grants txs i l"
  shows "rows_ok \<lparr>rs_db = db, rs_txs = txs(i \<mapsto> (t, ph))\<rparr>"
proof -
  have "grants (txs(i \<mapsto> (t, ph))) j l" if "(txs(i \<mapsto> (t, ph))) j = Some (t', ph')" "l \<in> set (locks t' ph')" for j t' ph' l
  proof (cases "j = i")
    case True
    with that locks show ?thesis by (auto simp: grants_def)
  next
    case False
    with that have j: "txs j = Some (t', ph')" by simp
    have "\<not> excludes l' l" if "l' \<in> set (locks t ph)" for l'
      using grantsD [OF locks [OF that] False j \<open>l \<in> set (locks t' ph')\<close>] by (simp add: excludes_sym)
    with rows_okD(2) [OF ok j that(2)] show ?thesis by (auto simp: grants_def)
  qed
  with ok seen show ?thesis by (auto simp: rows_ok_def)
qed

lemma rows_ok_forget: "rows_ok \<lparr>rs_db = db, rs_txs = txs\<rparr> \<Longrightarrow> rows_ok \<lparr>rs_db = db, rs_txs = txs(i := None)\<rparr>"
  by (auto simp: rows_ok_def grants_def)

lemma rows_ok_commit:
  assumes ok: "rows_ok \<lparr>rs_db = db, rs_txs = txs\<rparr>" and i: "txs i = Some (t, ph)" and rest: "tx_rest sha t ph db = Some (out, db')"
    and guard: "\<forall>p \<in> set (d_parts db) - set (d_parts db'). grants txs i (ForUpdate (PartRow (pt_upload p) (pt_no p)))"
  shows "rows_ok \<lparr>rs_db = db', rs_txs = txs(i \<mapsto> (t, Answered out))\<rparr>"
proof -
  have "seen t' ph' db'" if "j \<noteq> i" "txs j = Some (t', ph')" for j t' ph'
  proof (rule seen_commit [OF rows_okD(1) [OF ok i] rest rows_okD(1) [OF ok that(2)]])
    show "\<not> excludes l' l" if "l \<in> set (locks t ph)" "l' \<in> set (locks t' ph')" for l l'
      by (rule grantsD [OF rows_okD(2) [OF ok i that(1)] \<open>j \<noteq> i\<close> \<open>txs j = Some (t', ph')\<close> that(2)])
    show "\<not> excludes l' (ForUpdate (PartRow (pt_upload p) (pt_no p)))"
      if "p \<in> set (d_parts db) - set (d_parts db')" "l' \<in> set (locks t' ph')" for p l'
      by (rule grantsD [OF bspec [OF guard that(1)] \<open>j \<noteq> i\<close> \<open>txs j = Some (t', ph')\<close> that(2)])
  qed
  then have "rows_ok \<lparr>rs_db = db', rs_txs = txs(i := None)\<rparr>" using rows_ok_forget [OF ok, of i] by (auto simp: rows_ok_def)
  from rows_ok_advance [OF this, of t "Answered out" i] show ?thesis by simp
qed

lemma row_step_ok:
  assumes "row_step sha s s'" and "rows_ok s"
  shows "rows_ok s'"
  using assms
proof (cases rule: row_step.cases)
  case (insert_part txs i t old uid no db)
  note ok = assms(2) [unfolded insert_part(1)]
  show ?thesis
    unfolding insert_part(2)
  proof (rule rows_ok_advance [OF ok])
    show "seen t (Inserted old) db" using insert_part(4-6) by simp
    show "grants txs i l" if "l \<in> set (locks t (Inserted old))" for l
      using that insert_part(4,7,8) rows_okD(2) [OF ok insert_part(3), of l] by auto
  qed
next
  case (commit_tx txs i t ph db out db')
  with rows_ok_commit assms(2) show ?thesis by blast
next
  case (elsewhere db db' txs)
  have buckets: "bucket_exists db x \<Longrightarrow> bucket_exists db' x" for x using elsewhere(3) unfolding bucket_exists_def by blast
  have empty: "\<not> occupied db x \<Longrightarrow> \<not> occupied db' x" for x using elsewhere(4,6) unfolding occupied_def by auto
  have "seen t ph db'" if "seen t ph db" for t ph
    using that elsewhere(4,5) buckets empty by (cases ph) (auto simp: find_part_def find_upload_def parts_of_def)
  with elsewhere assms(2) show ?thesis by (simp add: rows_ok_def)
next
  case (expire now skipped grace rows b db r db' txs)
  note ok = assms(2) [unfolded expire(1)]
  have "seen t ph db'" if "txs i = Some (t, ph)" for i t ph
  proof (rule seen_expired [OF rows_okD(1) [OF ok that] untouched_expire [OF expire(3)]])
    show "uid \<in> set skipped" if "locked_upload uid (locks t ph)" for uid
      using expire(4) \<open>txs i = Some (t, ph)\<close> that by blast
    show "ForUpdate (PartRow (pt_upload p) (pt_no p)) \<notin> set (locks t ph)" if "p \<in> set (d_parts db) - set (d_parts db')" for p
      using grantsD [OF bspec [OF expire(5) that, THEN spec, of "Suc i"] _ \<open>txs i = Some (t, ph)\<close>] by fastforce
  qed
  with ok show ?thesis unfolding expire(2) by (simp add: rows_ok_def)
next
  case (read_parts txs i t up uid db)
  note ok = assms(2) [unfolded read_parts(1)]
  show ?thesis
    unfolding read_parts(2)
    by (rule rows_ok_advance [OF ok])
      (use rows_okD [OF ok read_parts(3)] read_parts(4) in auto)
qed (auto intro!: rows_ok_advance rows_ok_forget dest: rows_okD simp: part_locks_def split: option.splits)

section \<open>Atomicity\<close>

text \<open>The step in which a transaction answers does what the whole transaction does.\<close>

lemma row_step_answer:
  assumes step: "row_step sha s s'" and ok: "rows_ok s"
    and answer: "rs_txs s' i = Some (t, Answered out)" "rs_txs s i \<noteq> Some (t, Answered out)"
  shows "whole_tx sha t (rs_db s) = (out, rs_db s')"
  using step
proof (cases rule: row_step.cases)
  case (commit_tx txs j t' ph db out' db')
  with answer have "t' = t" "out' = out" by (auto split: if_splits)
  with commit_tx rest_whole [OF rows_okD(1) [OF ok [unfolded commit_tx(1)] commit_tx(3)] commit_tx(4)] show ?thesis by simp
next
  case (check_occupied txs j t' b db)
  with answer have "t' = t" "out = DroppedIs BucketNotEmpty" by (auto split: if_splits)
  moreover have "t' = DropBucketTx b" using check_occupied(4) by (cases t') auto
  moreover have "bucket_exists db b" using rows_okD(1) [OF ok [unfolded check_occupied(1)] check_occupied(3)] check_occupied(4) by simp
  ultimately show ?thesis using check_occupied(1,2,5) by (auto simp: delete_bucket_occupied)
qed (use answer in \<open>auto simp: no_bucket_shared no_bucket_dropped no_upload_locked split: if_splits\<close>)

text \<open>The committed history, one whole transaction after another.\<close>

inductive whole_step :: "(bytes \<Rightarrow> bytes) \<Rightarrow> db \<Rightarrow> db \<Rightarrow> bool" for sha where
  whole_one: "whole_tx sha t db = (out, db') \<Longrightarrow> whole_step sha db db'"
| whole_other: "fst ` set (d_buckets db) \<subseteq> fst ` set (d_buckets db') \<Longrightarrow> d_uploads db' = d_uploads db \<Longrightarrow>
    d_parts db' = d_parts db \<Longrightarrow> o_bucket ` set (d_objects db') \<subseteq> o_bucket ` set (d_objects db) \<Longrightarrow> whole_step sha db db'"
| whole_expire: "expire_uploads now skipped grace rows b db = (r, db') \<Longrightarrow> whole_step sha db db'"

lemma row_step_whole:
  assumes "row_step sha s s'" and ok: "rows_ok s"
  shows "whole_step sha (rs_db s) (rs_db s')"
  using assms(1)
proof (cases rule: row_step.cases)
  case (commit_tx txs j t ph db out db')
  with rest_whole [OF rows_okD(1) [OF ok [unfolded commit_tx(1)] commit_tx(3)] commit_tx(4)] show ?thesis
    by (intro whole_one [of _ t _ out]) simp
qed (auto intro: whole_other whole_expire)

interpretation rows: simulated_system "row_step sha" rows_ok rs_db "whole_step sha" for sha
  by unfold_locales (fact row_step_ok, fact row_step_whole)

text \<open>
  Two writers of a part that neither finds recorded: once one has committed, the other's INSERT
  fails, so a part sent twice at once is answered with an error, not replaced.
\<close>

lemma second_part_refused:
  assumes "rs_txs s i = Some (t, Deleted None)" and "part_of t = Some (uid, no)" and "find_part (rs_db s) uid no \<noteq> None"
    and "row_step sha s s'" and "rs_txs s' i = Some (t, ph)"
  shows "ph = Deleted None"
  using assms(4)
proof (cases rule: row_step.cases)
  case (commit_tx txs j t' ph' db out db')
  with assms show ?thesis by (cases "j = i") (auto simp: tx_rest_def split: row_tx.splits writer_target.splits)
qed (use assms in \<open>auto split: if_splits\<close>)

text \<open>
  C35. The row locks make every transaction atomic. Whatever writes, Creates, Completes, Aborts and
  bucket deletions interleave their statements, wait, fail or are cancelled: when one of them
  answers, its answer and the committed change are those of the whole transaction run at once on the database as
  it is then, and the history of the database is one of such undivided transactions.
\<close>

theorem row_locks_atomic:
  assumes "(row_step sha)\<^sup>*\<^sup>* \<lparr>rs_db = db, rs_txs = \<lambda>_. None\<rparr> s" and "row_step sha s s'"
    and "rs_txs s' i = Some (t, Answered out)" and "rs_txs s i \<noteq> Some (t, Answered out)"
  shows "whole_tx sha t (rs_db s) = (out, rs_db s') \<and> (whole_step sha)\<^sup>*\<^sup>* db (rs_db s)"
proof -
  have init: "rows_ok \<lparr>rs_db = db, rs_txs = \<lambda>_. None\<rparr>" by (simp add: rows_ok_def)
  show ?thesis
    using row_step_answer [OF assms(2) rows.run_ok [OF assms(1) init] assms(3,4)] rows.run_sim [OF assms(1) init] by simp
qed

theorem row_locks_atomic_witness:
  "\<exists>s s'. (row_step (\<lambda>b. b))\<^sup>*\<^sup>* \<lparr>rs_db = sample_db, rs_txs = \<lambda>_. None\<rparr> s \<and> row_step (\<lambda>b. b) s s' \<and>
    rs_txs s' 1 = Some (WriteTx 0 4 (ToPart [117] 3) [Data [9]], Deleted None) \<and>
    rs_txs s' 0 = Some (AbortTx [117] [98] [109], Answered (AbortedIs True)) \<and>
    whole_tx (\<lambda>b. b) (AbortTx [117] [98] [109]) (rs_db s) = (AbortedIs True, rs_db s')"
proof -
  let ?a = "AbortTx [117] [98] [109]" and ?w = "WriteTx 0 4 (ToPart [117] 3) [Data [9]]"
  let ?u = "\<lparr>up_id = [117], up_bucket = [98], up_key = [109], up_created = 0\<rparr>"
  let ?step = "row_step (\<lambda>b. b)" and ?ps = "parts_of sample_db [117]"
  let ?T1 = "(\<lambda>_::nat. None)(0 \<mapsto> (?a, Begun))"
  let ?T2 = "?T1(0 \<mapsto> (?a, Updating ?u))"
  let ?T3 = "?T2(1 \<mapsto> (?w, Begun))"
  let ?T4 = "?T3(1 \<mapsto> (?w, Deleted None))"
  let ?T5 = "?T4(0 \<mapsto> (?a, PartsRead ?u ?ps))"
  let ?T6 = "?T5(0 \<mapsto> (?a, Answered (AbortedIs True)))"
  let ?s = "\<lambda>T. \<lparr>rs_db = sample_db, rs_txs = T\<rparr>" and ?s' = "\<lparr>rs_db = abort_rest [117] ?ps sample_db, rs_txs = ?T6\<rparr>"
  have s1: "?step (?s (\<lambda>_. None)) (?s ?T1)" by (rule begin_tx) simp
  have s2: "?step (?s ?T1) (?s ?T2)"
    by (rule lock_upload [of _ _ _ "[117]"]) (simp_all add: sample_db_def grants_def)
  have s3: "?step (?s ?T2) (?s ?T3)" by (rule begin_tx) simp
  have s4: "?step (?s ?T3) (?s ?T4)" by (rule delete_late [of _ _ _ "[117]" 3]) simp_all
  have s5: "?step (?s ?T4) (?s ?T5)" by (rule read_parts) simp_all
  have s6: "?step (?s ?T5) ?s'"
    by (rule commit_tx [of _ _ _ "PartsRead ?u ?ps"]) (auto simp: tx_rest_def grants_def part_locks_def)
  have run: "?step\<^sup>*\<^sup>* (?s (\<lambda>_. None)) (?s ?T5)"
    using s1 s2 s3 s4 s5 by (meson converse_rtranclp_into_rtranclp rtranclp.rtrancl_refl)
  from row_locks_atomic [OF run s6, of 0 ?a "AbortedIs True"] run s6 show ?thesis
    by (intro exI [of _ "?s ?T5"] exI [of _ ?s']) simp
qed

end
