(* ===== verification/Fetch.thy ===== *)
theory Fetch
  imports Transactions
begin

text \<open>
  One part of a span as the code fetches it (\<^verbatim>\<open>src/db.rs\<close>: \<^verbatim>\<open>spawn_part\<close> and the loop of
  \<^verbatim>\<open>fetch_part\<close>): a task of its own sends the rows of one query into a bounded
  channel, the span receives them. \<open>Span\<close> reads the received rows as a list; here is why
  it may, and why the task never waits for its consumer.
\<close>

section \<open>The primary key of the chunk table\<close>

definition chunk_keys :: "chunk_row list \<Rightarrow> (int \<times> int) list" where
  "chunk_keys chunks = map (\<lambda>r. (fst r, fst (snd r))) chunks"

lemma chunk_keys_append: "chunk_keys (xs @ ys) = chunk_keys xs @ chunk_keys ys"
  by (simp add: chunk_keys_def)

lemma copy_in_distinct: "distinct (chunk_keys chunks) \<Longrightarrow> copy_in chunks rows = Some chunks' \<Longrightarrow> distinct (chunk_keys chunks')"
  unfolding copy_in_def chunk_keys_def [symmetric] Let_def
  by (auto simp: chunk_keys_append list_all_iff split: if_splits)

lemma delete_files_distinct: "distinct (chunk_keys chunks) \<Longrightarrow> distinct (chunk_keys (delete_files chunks ids))"
  by (simp add: chunk_keys_def delete_files_def distinct_map_filter)

lemma distinct_keys_by_file:
  "(\<And>f. distinct (chunk_keys (rows_of_file chunks f))) \<Longrightarrow> distinct (chunk_keys chunks)"
proof (induction chunks)
  case (Cons r rs)
  have "distinct (chunk_keys (rows_of_file rs f))" for f
    using Cons.prems [of f] by (auto simp: rows_of_file_def chunk_keys_def split: if_splits)
  moreover have "distinct (chunk_keys (r # rows_of_file rs (fst r)))"
    using Cons.prems [of "fst r"] by (simp add: rows_of_file_def)
  then have "(fst r, fst (snd r)) \<notin> set (chunk_keys rs)"
    by (force simp: chunk_keys_def rows_of_file_def)
  ultimately show ?case using Cons.IH by (simp add: chunk_keys_def)
qed (simp add: chunk_keys_def)

lemma db_ok_distinct_keys:
  assumes ok: "db_ok db"
  shows "distinct (chunk_keys (d_chunks db))"
proof (rule distinct_keys_by_file)
  fix f
  show "distinct (chunk_keys (rows_of_file (d_chunks db) f))"
  proof (cases "f \<in> fst ` set (refs db)")
    case True
    then obtain n where "(f, n) \<in> set (refs db)" by force
    with ct.backed_holds [OF db_okD(1) [OF ok]] obtain d where "holds_file (d_chunks db) f d" by blast
    then show ?thesis by (simp add: holds_file_def chunk_keys_def distinct_file_rows)
  next
    case False
    with ct.backed_absent [OF db_okD(1) [OF ok]] show ?thesis by (simp add: no_file_def chunk_keys_def)
  qed
qed

text \<open>So a query returns at most one row for each number of its range.\<close>

lemma select_range_bound:
  assumes "distinct (chunk_keys chunks)"
  shows "length (select_range chunks f lo hi) \<le> nat (hi - lo + 1)"
proof -
  let ?rows = "filter (\<lambda>r. fst r = f \<and> lo \<le> fst (snd r) \<and> fst (snd r) \<le> hi) chunks"
  have "distinct (chunk_keys ?rows)" using assms by (simp add: chunk_keys_def distinct_map_filter)
  from distinct_card [OF this] have "length ?rows = card (set (chunk_keys ?rows))" by (simp only: chunk_keys_def length_map)
  also have "\<dots> \<le> card ({f} \<times> {lo..hi})" by (rule card_mono) (auto simp: chunk_keys_def)
  finally show ?thesis by (simp add: select_range_def card_cartesian_product)
qed

section \<open>The task and its channel\<close>

text \<open>The capacity is computed in \<^verbatim>\<open>i32\<close>.\<close>

definition part_capacity :: "piece \<Rightarrow> int" where
  "part_capacity p = as_i32 (as_i32 (p_hi p - p_lo p) + 2)"

text \<open>
  What the task has to send: the rows, or the rows before the failure and the failure itself
  (also when no connection or statement can be had, after no row).
\<close>

definition part_msgs :: "chunk_row list \<Rightarrow> piece \<Rightarrow> (nat \<times> span_error) option \<Rightarrow> recv" where
  "part_msgs chunks p failure =
     (case failure of
        None \<Rightarrow> fetch_part chunks p
      | Some (n, e) \<Rightarrow> take n (fetch_part chunks p) @ [Inl e])"

record part_task =
  tk_todo :: recv
  tk_queue :: recv
  tk_got :: recv

definition spawn_part :: "chunk_row list \<Rightarrow> piece \<Rightarrow> (nat \<times> span_error) option \<Rightarrow> part_task" where
  "spawn_part chunks p failure = \<lparr>tk_todo = part_msgs chunks p failure, tk_queue = [], tk_got = []\<rparr>"

text \<open>A send waits while the channel is full; once the span has dropped its end it fails and the task stops.\<close>

inductive part_step :: "int \<Rightarrow> part_task \<Rightarrow> part_task \<Rightarrow> bool" for cap where
  send: "int (length queue) < cap \<Longrightarrow>
    part_step cap \<lparr>tk_todo = m # todo, tk_queue = queue, tk_got = got\<rparr> \<lparr>tk_todo = todo, tk_queue = queue @ [m], tk_got = got\<rparr>"
| receive: "part_step cap \<lparr>tk_todo = todo, tk_queue = m # queue, tk_got = got\<rparr> \<lparr>tk_todo = todo, tk_queue = queue, tk_got = got @ [m]\<rparr>"
| abandon: "part_step cap \<lparr>tk_todo = todo, tk_queue = queue, tk_got = got\<rparr> \<lparr>tk_todo = [], tk_queue = [], tk_got = got\<rparr>"

text \<open>What arrives is what was sent, in order, and all of it unless the span stopped listening.\<close>

definition in_order :: "recv \<Rightarrow> part_task \<Rightarrow> bool" where
  "in_order msgs t \<longleftrightarrow> tk_got t @ tk_queue t @ tk_todo t = msgs \<or>
     tk_queue t = [] \<and> tk_todo t = [] \<and> (\<exists>rest. tk_got t @ rest = msgs)"

lemma part_step_in_order: "part_step cap t t' \<Longrightarrow> in_order msgs t \<Longrightarrow> in_order msgs t'"
  by (induction rule: part_step.induct) (auto simp: in_order_def)

interpretation part: invariant_system "part_step cap" "in_order msgs" for cap :: int and msgs :: recv
  by unfold_locales (rule part_step_in_order)

lemma part_msgs_fit:
  assumes keys: "distinct (chunk_keys chunks)" and range: "0 \<le> p_lo p" "p_lo p \<le> p_hi p" "p_hi p - p_lo p < 2 ^ 31 - 2"
  shows "int (length (part_msgs chunks p failure)) \<le> part_capacity p" and "part_capacity p = p_hi p - p_lo p + 2"
proof -
  have cap: "part_capacity p = p_hi p - p_lo p + 2" using range by (simp add: part_capacity_def as_i32_id)
  then show "part_capacity p = p_hi p - p_lo p + 2" .
  have "length (fetch_part chunks p) \<le> nat (p_hi p - p_lo p + 1)"
    using select_range_bound [OF keys] by (simp add: fetch_part_def)
  with cap range show "int (length (part_msgs chunks p failure)) \<le> part_capacity p"
    by (auto simp: part_msgs_def min_def split: option.split)
qed

text \<open>
  C29. A fetch never waits on the consumer. Whatever the span does and whatever fails, a
  channel made for a piece of the plan, at most \<open>PART_ROWS + 1\<close> messages long, is never
  full while its task has a message to send, even if nothing is received; and the span
  receives exactly what the query returned, in order, until it stops listening.
\<close>

theorem fetch_never_waits:
  assumes "db_ok db" and "meta_ok content m" and "start \<le> end'" and "p \<in> set (plan m start end' PART_ROWS)"
    and "(part_step (part_capacity p))\<^sup>*\<^sup>* (spawn_part (d_chunks db) p failure) t"
  shows "part_capacity p \<le> int PART_ROWS + 1 \<and>
    (tk_todo t \<noteq> [] \<longrightarrow> int (length (tk_queue t)) < part_capacity p) \<and>
    in_order (part_msgs (d_chunks db) p failure) t"
proof -
  have piece: "0 \<le> p_lo p" "p_lo p \<le> p_hi p" "p_hi p - p_lo p + 1 \<le> int PART_ROWS"
    using plan_piece_bounds [OF assms(2-4)] by (auto simp: PART_ROWS_def)
  then have "p_hi p - p_lo p < 2 ^ 31 - 2" by (simp add: PART_ROWS_def SMALL_MAX_def ROW_BYTES_def)
  note fit = part_msgs_fit [OF db_ok_distinct_keys [OF assms(1)] piece(1,2) this]
  have "in_order (part_msgs (d_chunks db) p failure) t"
    by (rule part.run_ok [OF assms(5)]) (simp add: in_order_def spawn_part_def)
  moreover have "int (length (tk_queue t)) < part_capacity p" if "tk_todo t \<noteq> []"
  proof -
    have "length (tk_got t @ tk_queue t @ tk_todo t) = length (part_msgs (d_chunks db) p failure)"
      using calculation that by (auto simp: in_order_def)
    moreover have "0 < length (tk_todo t)" using that by simp
    ultimately show ?thesis using fit(1) [of failure] by (simp only: length_append)
  qed
  ultimately show ?thesis using fit(2) piece(3) by simp
qed

text \<open>The object of the sample store is one file of one row; nobody listens.\<close>

theorem fetch_never_waits_witness:
  "\<exists>p t. (part_step (part_capacity p))\<^sup>*\<^sup>* (spawn_part (d_chunks sample_db) p (Some (1, FetchFailed))) t \<and>
    tk_todo t = [Inl FetchFailed] \<and> tk_queue t = [Inr (0, [10, 11])] \<and> int (length (tk_queue t)) < part_capacity p"
proof -
  obtain r where r: "r \<in> set (d_objects sample_db)" "row_meta r =
      \<lparr>m_size = 2, m_etag = o_etag r, m_created = o_created r, m_file_id = 1, m_parts = None, m_part_ends = None\<rparr>"
    by (simp add: sample_db_def row_meta_def)
  let ?p = "\<lparr>p_file_id = 1, p_base = 0, p_lo = 0, p_hi = 0\<rparr>"
  let ?t = "\<lparr>tk_todo = [Inl FetchFailed], tk_queue = [Inr (0, [10, 11])], tk_got = []\<rparr>"
  have p: "?p \<in> set (plan (row_meta r) 0 1 PART_ROWS)"
    by (simp add: r(2) plan_def segments_def part_ranges_def Let_def as_i32_def PART_ROWS_def SMALL_MAX_def
        ROW_BYTES_def I32_MAX_def step_by.simps saturating_add_i32_def)
  have "spawn_part (d_chunks sample_db) ?p (Some (1, FetchFailed)) =
      \<lparr>tk_todo = [Inr (0, [10, 11]), Inl FetchFailed], tk_queue = [], tk_got = []\<rparr>"
    by (simp add: spawn_part_def part_msgs_def fetch_part_def select_range_def sample_db_def)
  moreover have "part_capacity ?p = 2" by (simp add: part_capacity_def as_i32_def)
  ultimately have "part_step (part_capacity ?p) (spawn_part (d_chunks sample_db) ?p (Some (1, FetchFailed))) ?t"
    using part_step.send [of "[]" 2 "Inr (0, [10, 11])" "[Inl FetchFailed]" "[]"] by (simp only: append_Nil list.size of_nat_0 simp_thms zero_less_numeral True_implies_equals)
  then have run: "(part_step (part_capacity ?p))\<^sup>*\<^sup>* (spawn_part (d_chunks sample_db) ?p (Some (1, FetchFailed))) ?t"
    by (rule r_into_rtranclp)
  from fetch_never_waits [OF sample_ok(1) row_meta_ok [OF sample_ok(1) r(1)] _ p run]
  have "int (length (tk_queue ?t)) < part_capacity ?p" by simp
  with run show ?thesis by (intro exI [of _ ?p] exI [of _ ?t]) simp
qed

end
