(* ===== verification/Cache.thy ===== *)
theory Cache
  imports Pgvs3_Prelude "HOL-Library.AList"
begin

text \<open>
  The per-process metadata cache, \<^verbatim>\<open>src/cache.rs\<close>: a map and the FIFO of its keys,
  capped at \<open>META_CAP\<close> entries. The \<^verbatim>\<open>HashMap\<close> is an association list with distinct
  keys, the \<^verbatim>\<open>VecDeque\<close> a list. The interface the readers rely on is the locale
  \<open>lookup_cache\<close>: an entry may disappear, but it never changes by itself.
\<close>

section \<open>The cache\<close>

record ('k, 'v) meta_cache =
  mc_map :: "('k \<times> 'v) list"
  mc_order :: "'k list"

definition META_CAP :: nat where
  "META_CAP = 2 ^ 18"

definition cache_empty :: "('k, 'v) meta_cache" where
  "cache_empty = \<lparr>mc_map = [], mc_order = []\<rparr>"

definition meta_get :: "('k, 'v) meta_cache \<Rightarrow> 'k \<Rightarrow> 'v option" where
  "meta_get c k = map_of (mc_map c) k"

definition meta_put :: "('k, 'v) meta_cache \<Rightarrow> 'k \<Rightarrow> 'v \<Rightarrow> ('k, 'v) meta_cache" where
  "meta_put c k m =
     (let old = map_of (mc_map c) k;
          map' = AList.update k m (mc_map c)
      in case old of
           Some _ \<Rightarrow> c\<lparr>mc_map := map'\<rparr>
         | None \<Rightarrow>
             let order = mc_order c @ [k]
             in if META_CAP < length map' then
                  (case order of
                     front # rest \<Rightarrow> \<lparr>mc_map = AList.delete front map', mc_order = rest\<rparr>
                   | [] \<Rightarrow> \<lparr>mc_map = map', mc_order = []\<rparr>)
                else \<lparr>mc_map = map', mc_order = order\<rparr>)"

definition meta_invalidate :: "('k, 'v) meta_cache \<Rightarrow> 'k \<Rightarrow> ('k, 'v) meta_cache" where
  "meta_invalidate c k =
     (case map_of (mc_map c) k of
        None \<Rightarrow> c
      | Some _ \<Rightarrow> \<lparr>mc_map = AList.delete k (mc_map c), mc_order = filter (\<lambda>entry. entry \<noteq> k) (mc_order c)\<rparr>)"

section \<open>Its invariant\<close>

text \<open>The FIFO lists exactly the cached keys, once each, and the cap holds.\<close>

definition cache_inv :: "('k, 'v) meta_cache \<Rightarrow> bool" where
  "cache_inv c \<longleftrightarrow> distinct (map fst (mc_map c)) \<and> distinct (mc_order c) \<and>
     set (mc_order c) = fst ` set (mc_map c) \<and> length (mc_map c) \<le> META_CAP"

lemma cache_inv_empty: "cache_inv cache_empty"
  by (simp add: cache_inv_def cache_empty_def)

lemma META_CAP_pos: "1 \<le> META_CAP"
  by (simp add: META_CAP_def)

lemma keys_length: "cache_inv c \<Longrightarrow> length (mc_order c) = length (mc_map c)"
  by (metis cache_inv_def distinct_card length_map set_map)

lemma update_new: "map_of xs k = None \<Longrightarrow> AList.update k v xs = xs @ [(k, v)]"
  by (induction xs) (auto split: if_splits)

lemma keys_delete: "fst ` set (AList.delete k xs) = fst ` set xs - {k}"
  using arg_cong [OF delete_keys [of k xs], of set] by simp

lemma length_delete:
  assumes "distinct (map fst xs)" and "k \<in> fst ` set xs"
  shows "Suc (length (AList.delete k xs)) = length xs"
proof -
  have "length (AList.delete k xs) = length (remove1 k (map fst xs))"
    using assms(1) by (metis delete_keys distinct_remove1_removeAll length_map)
  moreover have "0 < length xs" using assms(2) by auto
  ultimately show ?thesis using assms(2) by (simp add: length_remove1)
qed

lemma map_of_None_iff: "map_of xs k = None \<longleftrightarrow> k \<notin> fst ` set xs"
  by (rule map_of_eq_None_iff)

text \<open>The shape of a \<open>put\<close> of a new key: append, then drop the oldest if over the cap.\<close>

lemma meta_put_new:
  assumes "cache_inv c" and "map_of (mc_map c) k = None"
  shows "meta_put c k m =
    (if length (mc_map c) < META_CAP
     then \<lparr>mc_map = mc_map c @ [(k, m)], mc_order = mc_order c @ [k]\<rparr>
     else \<lparr>mc_map = AList.delete (hd (mc_order c)) (mc_map c @ [(k, m)]), mc_order = tl (mc_order c) @ [k]\<rparr>)"
proof (cases "mc_order c")
  case Nil
  then show ?thesis
    using assms keys_length [OF assms(1)] META_CAP_pos by (simp add: meta_put_def update_new)
next
  case (Cons x xs)
  then show ?thesis using assms by (simp add: meta_put_def update_new Let_def)
qed

lemma cache_inv_put: "cache_inv c \<Longrightarrow> cache_inv (meta_put c k m)"
proof (cases "map_of (mc_map c) k")
  case (Some v)
  assume inv: "cache_inv c"
  have "k \<in> fst ` set (mc_map c)" using Some by (force dest: map_of_SomeD)
  then have keys: "map fst (AList.update k m (mc_map c)) = map fst (mc_map c)"
    by (simp add: update_keys)
  from arg_cong [OF keys, of length] arg_cong [OF keys, of set]
  have "length (AList.update k m (mc_map c)) = length (mc_map c)"
    "fst ` set (AList.update k m (mc_map c)) = fst ` set (mc_map c)" by simp_all
  with inv Some show ?thesis by (simp add: cache_inv_def meta_put_def distinct_update)
next
  case None
  assume inv: "cache_inv c"
  note inv' = inv [unfolded cache_inv_def]
  have k: "k \<notin> set (mc_order c)" using None inv' by (simp add: map_of_None_iff)
  show ?thesis
  proof (cases "length (mc_map c) < META_CAP")
    case True
    with inv' k None show ?thesis
      by (simp add: meta_put_new [OF inv None]) (auto simp: cache_inv_def map_of_None_iff)
  next
    case False
    have "mc_order c \<noteq> []"
      using False keys_length [OF inv] META_CAP_pos by (cases "mc_order c") auto
    then obtain x xs where order: "mc_order c = x # xs" by (cases "mc_order c") auto
    let ?map = "mc_map c @ [(k, m)]"
    have "x \<in> fst ` set (mc_map c)" using inv' order by auto
    moreover have "distinct (map fst ?map)" using inv' k by simp
    ultimately have "Suc (length (AList.delete x ?map)) = length ?map"
      by (intro length_delete) auto
    with inv' k order False show ?thesis
      by (simp add: meta_put_new [OF inv None])
        (auto simp: cache_inv_def distinct_delete keys_delete)
  qed
qed

lemma cache_inv_invalidate: "cache_inv c \<Longrightarrow> cache_inv (meta_invalidate c k)"
proof (cases "map_of (mc_map c) k")
  case (Some v)
  assume inv: "cache_inv c"
  have "length (AList.delete k (mc_map c)) \<le> length (mc_map c)"
    by (simp add: AList.delete_eq)
  with inv Some show ?thesis
    by (auto simp: cache_inv_def meta_invalidate_def distinct_delete keys_delete)
qed (simp add: meta_invalidate_def)

lemma meta_get_put_same: "cache_inv c \<Longrightarrow> meta_get (meta_put c k m) k = Some m"
proof (cases "map_of (mc_map c) k")
  case (Some v)
  then show ?thesis by (simp add: meta_get_def meta_put_def update_conv')
next
  case None
  assume inv: "cache_inv c"
  have "hd (mc_order c) \<noteq> k" if "\<not> length (mc_map c) < META_CAP"
  proof -
    have "mc_order c \<noteq> []"
      using that keys_length [OF inv] META_CAP_pos by (cases "mc_order c") auto
    then have "hd (mc_order c) \<in> fst ` set (mc_map c)" using inv by (auto simp: cache_inv_def)
    with None show ?thesis by (auto simp: map_of_None_iff)
  qed
  with inv None show ?thesis
    by (auto simp: meta_get_def meta_put_new delete_conv' map_add_def)
qed

lemma meta_get_put_other:
  assumes "cache_inv c" and "k' \<noteq> k" and "meta_get (meta_put c k m) k' = Some v"
  shows "meta_get c k' = Some v"
proof (cases "map_of (mc_map c) k")
  case (Some x)
  with assms show ?thesis by (simp add: meta_get_def meta_put_def update_conv')
next
  case None
  with assms show ?thesis
    by (auto simp: meta_get_def meta_put_new delete_conv' map_add_def split: if_splits option.splits)
qed

lemma meta_get_invalidate:
  "meta_get (meta_invalidate c k) k' = (if k' = k then None else meta_get c k')"
  by (auto simp: meta_get_def meta_invalidate_def delete_conv' split: option.splits)

section \<open>The interface of a lossy lookup cache\<close>

text \<open>
  What a reader may assume of the cache. Its client lemma: a property of the
  cached values that holds of what is put stays true of everything it returns.
\<close>

locale lookup_cache =
  fixes get :: "'c \<Rightarrow> 'k \<Rightarrow> 'v option"
    and put :: "'c \<Rightarrow> 'k \<Rightarrow> 'v \<Rightarrow> 'c"
    and invalidate :: "'c \<Rightarrow> 'k \<Rightarrow> 'c"
    and inv :: "'c \<Rightarrow> bool"
  assumes get_put_same: "inv c \<Longrightarrow> get (put c k v) k = Some v"
    and get_put_other: "inv c \<Longrightarrow> k' \<noteq> k \<Longrightarrow> get (put c k v) k' = Some w \<Longrightarrow> get c k' = Some w"
    and get_invalidate: "get (invalidate c k) k' = (if k' = k then None else get c k')"
    and inv_put: "inv c \<Longrightarrow> inv (put c k v)"
    and inv_invalidate: "inv c \<Longrightarrow> inv (invalidate c k)"
begin

definition entries :: "('k \<Rightarrow> 'v \<Rightarrow> bool) \<Rightarrow> 'c \<Rightarrow> bool" where
  "entries P c \<longleftrightarrow> inv c \<and> (\<forall>k v. get c k = Some v \<longrightarrow> P k v)"

lemma entries_put: "entries P c \<Longrightarrow> P k v \<Longrightarrow> entries P (put c k v)"
  using get_put_same get_put_other inv_put unfolding entries_def
  by (metis option.inject)

lemma entries_invalidate: "entries P c \<Longrightarrow> entries P (invalidate c k)"
  using inv_invalidate by (auto simp: entries_def get_invalidate split: if_splits)

lemma entries_weaken:
  "entries P c \<Longrightarrow> (\<And>k v. get c k = Some v \<Longrightarrow> P k v \<Longrightarrow> Q k v) \<Longrightarrow> entries Q c"
  by (auto simp: entries_def)

lemma entriesD: "entries P c \<Longrightarrow> get c k = Some v \<Longrightarrow> P k v"
  by (simp add: entries_def)

lemma entries_inv: "entries P c \<Longrightarrow> inv c"
  by (simp add: entries_def)

end

interpretation mc: lookup_cache meta_get meta_put meta_invalidate cache_inv
  by unfold_locales
    (auto simp: meta_get_put_same meta_get_invalidate cache_inv_put cache_inv_invalidate
      dest: meta_get_put_other)

section \<open>Properties of the cache\<close>

text \<open>A sequence of operations through one process.\<close>

datatype ('k, 'v) cache_op = Put 'k 'v | Invalidate 'k

fun run_cache :: "('k, 'v) meta_cache \<Rightarrow> ('k, 'v) cache_op list \<Rightarrow> ('k, 'v) meta_cache" where
  "run_cache c [] = c"
| "run_cache c (Put k v # ops) = run_cache (meta_put c k v) ops"
| "run_cache c (Invalidate k # ops) = run_cache (meta_invalidate c k) ops"

lemma run_cache_inv: "cache_inv c \<Longrightarrow> cache_inv (run_cache c ops)"
  by (induction c ops rule: run_cache.induct) (simp_all add: mc.inv_put mc.inv_invalidate)

text \<open>
  C27. Whatever puts and invalidations a process makes, the cache never exceeds
  its cap and its FIFO holds each cached key exactly once and no other key, so
  repeated invalidation cannot grow it.
\<close>

theorem cache_bounded:
  "length (mc_map (run_cache cache_empty ops)) \<le> META_CAP \<and>
   length (mc_order (run_cache cache_empty ops)) = length (mc_map (run_cache cache_empty ops)) \<and>
   distinct (mc_order (run_cache cache_empty ops)) \<and>
   set (mc_order (run_cache cache_empty ops)) = fst ` set (mc_map (run_cache cache_empty ops))"
proof -
  have "cache_inv (run_cache cache_empty ops)" by (rule run_cache_inv [OF cache_inv_empty])
  then show ?thesis using keys_length by (simp add: cache_inv_def)
qed

text \<open>The last write of a key in a sequence of operations, if no invalidation follows it.\<close>

fun last_write :: "'k \<Rightarrow> 'v option \<Rightarrow> ('k, 'v) cache_op list \<Rightarrow> 'v option" where
  "last_write k w [] = w"
| "last_write k w (Put k' v # ops) = last_write k (if k' = k then Some v else w) ops"
| "last_write k w (Invalidate k' # ops) = last_write k (if k' = k then None else w) ops"

lemma run_cache_last_write:
  assumes "cache_inv c" and "\<And>v. meta_get c k = Some v \<Longrightarrow> w = Some v"
    and "meta_get (run_cache c ops) k = Some v"
  shows "last_write k w ops = Some v"
  using assms
proof (induction c ops arbitrary: w rule: run_cache.induct)
  case (2 c k' v' ops)
  have "(if k' = k then Some v' else w) = Some x" if "meta_get (meta_put c k' v') k = Some x" for x
    using that 2 meta_get_put_same [of c k' v'] meta_get_put_other [of c k k' v' x]
    by (cases "k' = k") auto
  with 2 show ?case by (simp add: mc.inv_put)
next
  case (3 c k' ops)
  have "(if k' = k then None else w) = Some x" if "meta_get (meta_invalidate c k') k = Some x" for x
    using that 3 by (auto simp: mc.get_invalidate split: if_splits)
  with 3 show ?case by (simp add: mc.inv_invalidate)
qed simp

text \<open>Without an eviction, that is with at most \<open>META_CAP\<close> keys in all, nothing is forgotten.\<close>

definition put_keys :: "('k, 'v) cache_op list \<Rightarrow> 'k set" where
  "put_keys ops = set (concat (map (\<lambda>q. case q of Put k _ \<Rightarrow> [k] | Invalidate _ \<Rightarrow> []) ops))"

lemma put_keys_simps [simp]:
  "put_keys [] = {}" "put_keys (Put k v # ops) = insert k (put_keys ops)" "put_keys (Invalidate k # ops) = put_keys ops"
  by (simp_all add: put_keys_def)

lemma empty_get: "meta_get cache_empty k = None"
  by (simp add: meta_get_def cache_empty_def)

lemma put_without_eviction:
  assumes "cache_inv c" and "finite K" and "fst ` set (mc_map c) \<subseteq> K" and "k \<in> K" and "card K \<le> META_CAP"
  shows "meta_get (meta_put c k v) x = (if x = k then Some v else meta_get c x)"
    and "fst ` set (mc_map (meta_put c k v)) \<subseteq> K"
proof -
  have "meta_get (meta_put c k v) x = (if x = k then Some v else meta_get c x) \<and>
      fst ` set (mc_map (meta_put c k v)) \<subseteq> K"
  proof (cases "map_of (mc_map c) k")
    case None
    then have "fst ` set (mc_map c) \<subset> K" using assms(3,4) by (auto simp: map_of_None_iff)
    then have "card (fst ` set (mc_map c)) < card K" by (rule psubset_card_mono [OF assms(2)])
    moreover have "card (fst ` set (mc_map c)) = length (mc_map c)"
      using assms(1) distinct_card [of "map fst (mc_map c)"] by (simp add: cache_inv_def)
    ultimately have "length (mc_map c) < META_CAP" using assms(5) by simp
    with meta_put_new [OF assms(1) None] None assms(3,4) show ?thesis
      by (auto simp: meta_get_def map_add_def split: option.split)
  next
    case (Some m)
    then show ?thesis using assms(3,4) by (auto simp: meta_put_def meta_get_def update_conv' dom_update)
  qed
  then show "meta_get (meta_put c k v) x = (if x = k then Some v else meta_get c x)"
    and "fst ` set (mc_map (meta_put c k v)) \<subseteq> K" by simp_all
qed

lemma run_cache_exact:
  assumes "cache_inv c" and "finite K" and "fst ` set (mc_map c) \<subseteq> K" and "put_keys ops \<subseteq> K" and "card K \<le> META_CAP"
  shows "meta_get (run_cache c ops) k = last_write k (meta_get c k) ops"
  using assms
proof (induction c ops rule: run_cache.induct)
  case (2 c k' v ops)
  note put = put_without_eviction [OF 2(2,3,4) _ 2(6), of k' v]
  have "k' \<in> K" using 2(5) by simp
  with put 2 show ?case by (auto simp: mc.inv_put)
next
  case (3 c k' ops)
  have "fst ` set (mc_map (meta_invalidate c k')) \<subseteq> K"
    using 3(4) by (auto simp: meta_invalidate_def keys_delete split: option.splits)
  with 3 show ?case by (simp add: mc.inv_invalidate mc.get_invalidate)
qed simp

text \<open>
  C26. A lookup returns the value this process last stored under the key, and nothing
  once the key was invalidated, as long as it stored no more keys than the cap;
  beyond that it may also return nothing, but never another value.
\<close>

theorem cache_returns_last_write:
  "if card (put_keys ops) \<le> META_CAP then meta_get (run_cache cache_empty ops) k = last_write k None ops
   else meta_get (run_cache cache_empty ops) k \<in> {None, last_write k None ops}"
proof -
  have "finite (put_keys ops)" unfolding put_keys_def by (rule finite_set)
  then have "meta_get (run_cache cache_empty ops) k = last_write k None ops" if "card (put_keys ops) \<le> META_CAP"
    by (subst run_cache_exact [OF cache_inv_empty _ _ order_refl that]) (simp_all add: empty_get, simp add: cache_empty_def)
  moreover have "meta_get (run_cache cache_empty ops) k \<in> {None, last_write k None ops}"
    using run_cache_last_write [OF cache_inv_empty, of k None ops]
    by (cases "meta_get (run_cache cache_empty ops) k") (auto simp: empty_get)
  ultimately show ?thesis by simp
qed

end
