(* ===== verification/Gateway.thy ===== *)
theory Gateway
  imports Transactions Cache
begin

text \<open>
  One gateway process: the metadata cache in front of the database
  (\<^verbatim>\<open>src/db.rs\<close>: \<^verbatim>\<open>meta\<close>, \<^verbatim>\<open>meta_fresh\<close>, \<^verbatim>\<open>get_body\<close>, the writers and their cache
  updates) and the S3 handlers over it (\<^verbatim>\<open>src/server.rs\<close>). The state is the
  database and this process's cache. A read takes what the database shows at each
  of its attempts as arguments, so other gateways may write meanwhile.
\<close>

type_synonym cache = "(ustring \<times> ustring, meta) meta_cache"

record gateway =
  g_db :: db
  g_cache :: cache

section \<open>Metadata lookup\<close>

definition meta_fresh :: "db \<Rightarrow> cache \<Rightarrow> ustring \<Rightarrow> ustring \<Rightarrow> meta option \<times> cache" where
  "meta_fresh db c b k =
     (case find_object db b k of
        None \<Rightarrow> (None, meta_invalidate c (b, k))
      | Some r \<Rightarrow> (Some (row_meta r), meta_put c (b, k) (row_meta r)))"

definition meta_lookup :: "db \<Rightarrow> cache \<Rightarrow> ustring \<Rightarrow> ustring \<Rightarrow> meta option \<times> cache" where
  "meta_lookup db c b k =
     (case meta_get c (b, k) of
        Some m \<Rightarrow> (Some m, c)
      | None \<Rightarrow> meta_fresh db c b k)"

section \<open>Reading a range\<close>

record slice_meta =
  s_size :: int
  s_etag :: bytes
  s_created :: int
  s_file_id :: int
  s_start :: int
  s_end :: int

definition slice_len :: "slice_meta \<Rightarrow> int" where
  "slice_len s = max (s_end s - s_start s + 1) 0"

text \<open>What the response channel carries: buffers, and the error that ends a failed span.\<close>

type_synonym body_msg = "span_error + bytes"

text \<open>A response stream: the first buffer, then the channel; None ends it.\<close>

record piece_stream =
  ps_first :: "bytes option"
  ps_rx :: "body_msg list"

definition poll_next :: "piece_stream \<Rightarrow> body_msg option \<times> piece_stream" where
  "poll_next s =
     (case ps_first s of
        Some head \<Rightarrow> (Some (Inr head), s\<lparr>ps_first := None\<rparr>)
      | None \<Rightarrow>
          (case ps_rx s of
             [] \<Rightarrow> (None, s)
           | msg # rest \<Rightarrow> (Some msg, s\<lparr>ps_rx := rest\<rparr>)))"

datatype piece_body = OneShot bytes | Streamed piece_stream

datatype get_result = GetNone | GetBody slice_meta piece_body | GetFailed span_error | GetEnded

definition span_msgs :: "bytes list \<times> span_result \<Rightarrow> body_msg list" where
  "span_msgs res = map Inr (fst res) @ (case snd res of Failed e \<Rightarrow> [Inl e] | _ \<Rightarrow> [])"

text \<open>
  One round of the loop; None is \<^verbatim>\<open>continue\<close>. The receiver is alive until the first
  buffer arrives, so that send succeeds; \<open>accepts\<close> says which later ones do.
\<close>

definition get_attempt :: "nat \<Rightarrow> (nat \<Rightarrow> bool) \<Rightarrow> db \<Rightarrow> (piece \<Rightarrow> recv) \<Rightarrow> cache \<Rightarrow> ustring \<Rightarrow> ustring \<Rightarrow>
    int \<Rightarrow> int \<Rightarrow> int \<Rightarrow> get_result option \<times> cache" where
  "get_attempt attempt accepts db fetch c b k first last' suffix' =
     (case meta_lookup db c b k of
        (None, c') \<Rightarrow> (Some GetNone, c')
      | (Some m, c') \<Rightarrow>
          (case eff_range (m_size m) first last' suffix' of (start, end') \<Rightarrow>
             if m_size m > 0 \<and> (start > end' \<or> start \<ge> m_size m) \<and> attempt = 0
             then (None, meta_invalidate c' (b, k))
             else
               (let smeta = \<lparr>s_size = m_size m, s_etag = m_etag m, s_created = m_created m,
                      s_file_id = m_file_id m, s_start = start, s_end = end'\<rparr>;
                    len = slice_len smeta
                in if len = 0 then (Some (GetBody smeta (OneShot [])), c')
                   else
                     (case span_msgs (stream_span (\<lambda>n. n = 0 \<or> accepts n) fetch m start end') of
                        [] \<Rightarrow> (Some GetEnded, c')
                      | Inr head # rest \<Rightarrow>
                          (Some (GetBody smeta (if int (length head) = len then OneShot head
                                                else Streamed \<lparr>ps_first = Some head, ps_rx = rest\<rparr>)), c')
                      | Inl e # _ \<Rightarrow>
                          (if attempt = 1 then Some (GetFailed e) else None, meta_invalidate c' (b, k))))))"

text \<open>The outer None is the \<^verbatim>\<open>unreachable!\<close> after the two attempts.\<close>

definition get_body :: "(nat \<Rightarrow> bool) \<Rightarrow> (nat \<Rightarrow> db) \<Rightarrow> (nat \<Rightarrow> piece \<Rightarrow> recv) \<Rightarrow> cache \<Rightarrow> ustring \<Rightarrow> ustring \<Rightarrow>
    int \<Rightarrow> int \<Rightarrow> int \<Rightarrow> get_result option \<times> cache" where
  "get_body accepts dbs fetch c b k first last' suffix' =
     (case get_attempt 0 accepts (dbs 0) (fetch 0) c b k first last' suffix' of
        (Some r, c') \<Rightarrow> (Some r, c')
      | (None, c') \<Rightarrow> get_attempt 1 accepts (dbs 1) (fetch 1) c' b k first last' suffix')"

text \<open>\<^verbatim>\<open>get\<close>, the buffered variant: the whole body, or the error that ended it.\<close>

function drain_stream :: "piece_stream \<Rightarrow> span_error + bytes" where
  "drain_stream s =
     (case poll_next s of
        (None, _) \<Rightarrow> Inr []
      | (Some (Inl e), _) \<Rightarrow> Inl e
      | (Some (Inr p), s') \<Rightarrow> (case drain_stream s' of Inl e \<Rightarrow> Inl e | Inr bs \<Rightarrow> Inr (p @ bs)))"
  by pat_completeness auto
termination
  by (relation "measure (\<lambda>s. length (ps_rx s) + (case ps_first s of None \<Rightarrow> 0 | Some _ \<Rightarrow> 1))")
    (auto simp: poll_next_def split: option.splits list.splits)

declare drain_stream.simps [simp del]

definition body_bytes :: "piece_body \<Rightarrow> span_error + bytes" where
  "body_bytes body = (case body of OneShot bs \<Rightarrow> Inr bs | Streamed s \<Rightarrow> drain_stream s)"

record slice =
  sl_size :: int
  sl_etag :: bytes
  sl_created :: int
  sl_start :: int
  sl_end :: int
  sl_bytes :: bytes

text \<open>Inl (Some e) is the error of a span, Inl None that it ended before any data.\<close>

definition get_slice :: "(nat \<Rightarrow> bool) \<Rightarrow> (nat \<Rightarrow> db) \<Rightarrow> (nat \<Rightarrow> piece \<Rightarrow> recv) \<Rightarrow> cache \<Rightarrow> ustring \<Rightarrow> ustring \<Rightarrow>
    int \<Rightarrow> int \<Rightarrow> int \<Rightarrow> (span_error option + slice option) option \<times> cache" where
  "get_slice accepts dbs fetch c b k first last' suffix' =
     (case get_body accepts dbs fetch c b k first last' suffix' of
        (None, c') \<Rightarrow> (None, c')
      | (Some r, c') \<Rightarrow>
          (Some
            (case r of
               GetNone \<Rightarrow> Inr None
             | GetFailed e \<Rightarrow> Inl (Some e)
             | GetEnded \<Rightarrow> Inl None
             | GetBody m body \<Rightarrow>
                 (case body_bytes body of
                    Inl e \<Rightarrow> Inl (Some e)
                  | Inr bs \<Rightarrow> Inr (Some \<lparr>sl_size = s_size m, sl_etag = s_etag m, sl_created = s_created m,
                      sl_start = s_start m, sl_end = s_end m, sl_bytes = bs\<rparr>))), c'))"

section \<open>Writing\<close>

definition publish_cache :: "int \<Rightarrow> ustring \<Rightarrow> ustring \<Rightarrow> int \<Rightarrow> int \<Rightarrow> bytes \<Rightarrow> (int list \<times> int list) option \<Rightarrow> cache \<Rightarrow> cache" where
  "publish_cache clock b k file_id size' etag parts c =
     meta_put c (b, k) \<lparr>m_size = size', m_etag = etag, m_created = clock, m_file_id = file_id,
       m_parts = map_option fst parts, m_part_ends = map_option snd parts\<rparr>"

definition ingest_writer :: "(bytes \<Rightarrow> bytes) \<Rightarrow> int \<Rightarrow> int \<Rightarrow> int \<Rightarrow> writer_target \<Rightarrow> ingest_msg list \<Rightarrow> gateway \<Rightarrow>
    (db_error + (int \<times> bytes)) \<times> gateway" where
  "ingest_writer sha now clock file_id target msgs g =
     (case ingest_tx sha now file_id target msgs (g_db g) of
        (Inl e, db') \<Rightarrow> (Inl e, g\<lparr>g_db := db'\<rparr>)
      | (Inr (tot, digest), db') \<Rightarrow>
          (Inr (tot, digest),
           \<lparr>g_db = db',
            g_cache = (case target of
              ToObject b k _ \<Rightarrow> publish_cache clock b k file_id tot digest None (g_cache g)
            | ToPart _ _ \<Rightarrow> g_cache g)\<rparr>))"

text \<open>
  The writer a request feeds. Its task runs when the channel is closed or an abort is
  sent; before that it can only end by refusing the bucket, and then the channel is
  gone from some send on.
\<close>

record chunk_writer =
  cw_file_id :: int
  cw_target :: writer_target
  cw_sent :: "ingest_msg list"

definition writer_begin :: "writer_target \<Rightarrow> db \<Rightarrow> (db_error + chunk_writer) \<times> db" where
  "writer_begin target db =
     (case nextval db of
        Inl e \<Rightarrow> (Inl e, db)
      | Inr (file_id, db') \<Rightarrow> (Inr \<lparr>cw_file_id = file_id, cw_target = target, cw_sent = []\<rparr>, db'))"

definition writer_refuses :: "writer_target \<Rightarrow> db \<Rightarrow> bool" where
  "writer_refuses target db = (case target of ToObject b _ _ \<Rightarrow> \<not> bucket_exists db b | ToPart _ _ \<Rightarrow> False)"

definition writer_push :: "bool \<Rightarrow> bytes \<Rightarrow> chunk_writer \<Rightarrow> chunk_writer option" where
  "writer_push gone chunk w = (if gone then None else Some (w\<lparr>cw_sent := cw_sent w @ [Data chunk]\<rparr>))"

definition writer_finish :: "(bytes \<Rightarrow> bytes) \<Rightarrow> int \<Rightarrow> int \<Rightarrow> chunk_writer \<Rightarrow> gateway \<Rightarrow>
    (db_error + (int \<times> bytes)) \<times> gateway" where
  "writer_finish sha now clock w g = ingest_writer sha now clock (cw_file_id w) (cw_target w) (cw_sent w) g"

definition writer_abort :: "(bytes \<Rightarrow> bytes) \<Rightarrow> int \<Rightarrow> int \<Rightarrow> chunk_writer \<Rightarrow> gateway \<Rightarrow> gateway" where
  "writer_abort sha now clock w g =
     snd (ingest_writer sha now clock (cw_file_id w) (cw_target w) (cw_sent w @ [Abort]) g)"

text \<open>
  A request that is cancelled drops its writer. There is no \<^verbatim>\<open>Drop\<close>: the fields are dropped,
  which closes the channel as \<^verbatim>\<open>finish\<close> does and lets the task go on unwatched.
\<close>

definition writer_drop :: "(bytes \<Rightarrow> bytes) \<Rightarrow> int \<Rightarrow> int \<Rightarrow> chunk_writer \<Rightarrow> gateway \<Rightarrow> gateway" where
  "writer_drop sha now clock w g = snd (ingest_writer sha now clock (cw_file_id w) (cw_target w) (cw_sent w) g)"

text \<open>
  A request body is a stream of chunks that may end in an error. \<open>gone n\<close> says that the
  \<open>n\<close>-th send finds the channel gone; the loop then stops. The flag is the body's error.
\<close>

fun push_body :: "(nat \<Rightarrow> bool) \<Rightarrow> nat \<Rightarrow> (unit + bytes) list \<Rightarrow> chunk_writer \<Rightarrow> chunk_writer \<times> bool" where
  "push_body gone n [] w = (w, False)"
| "push_body gone n (Inr chunk # rest) w =
     (case writer_push (gone n) chunk w of
        None \<Rightarrow> (w, False)
      | Some w' \<Rightarrow> push_body gone (Suc n) rest w')"
| "push_body gone n (Inl _ # rest) w = (w, True)"

definition ingest_body :: "(bytes \<Rightarrow> bytes) \<Rightarrow> int \<Rightarrow> int \<Rightarrow> (nat \<Rightarrow> bool) \<Rightarrow> chunk_writer \<Rightarrow> (unit + bytes) list \<Rightarrow>
    gateway \<Rightarrow> (db_error + (int \<times> bytes)) \<times> gateway" where
  "ingest_body sha now clock gone w body g =
     (case push_body (\<lambda>n. gone n \<and> writer_refuses (cw_target w) (g_db g)) 0 body w of
        (w', True) \<Rightarrow> (Inl IngestAborted, writer_abort sha now clock w' g)
      | (w', False) \<Rightarrow> writer_finish sha now clock w' g)"

text \<open>The writer of a handler and the body it streams.\<close>

definition write_body :: "(bytes \<Rightarrow> bytes) \<Rightarrow> int \<Rightarrow> int \<Rightarrow> (nat \<Rightarrow> bool) \<Rightarrow> writer_target \<Rightarrow> (unit + bytes) list \<Rightarrow>
    gateway \<Rightarrow> (db_error + (int \<times> bytes)) \<times> gateway" where
  "write_body sha now clock gone target body g =
     (case writer_begin target (g_db g) of
        (Inl e, db') \<Rightarrow> (Inl e, g\<lparr>g_db := db'\<rparr>)
      | (Inr w, db') \<Rightarrow> ingest_body sha now clock gone w body (g\<lparr>g_db := db'\<rparr>))"

text \<open>
  \<^verbatim>\<open>put\<close> of a buffer (the seed command): a push that fails ends it there; the writer's
  task has ended on its own.
\<close>

fun push_pieces :: "(nat \<Rightarrow> bool) \<Rightarrow> nat \<Rightarrow> bytes list \<Rightarrow> chunk_writer \<Rightarrow> chunk_writer option" where
  "push_pieces gone n [] w = Some w"
| "push_pieces gone n (chunk # rest) w =
     (case writer_push (gone n) chunk w of
        None \<Rightarrow> None
      | Some w' \<Rightarrow> push_pieces gone (Suc n) rest w')"

definition put_buffer :: "(bytes \<Rightarrow> bytes) \<Rightarrow> int \<Rightarrow> int \<Rightarrow> (nat \<Rightarrow> bool) \<Rightarrow> ustring \<Rightarrow> ustring \<Rightarrow> bytes \<Rightarrow> gateway \<Rightarrow>
    (db_error + (int \<times> bytes)) \<times> gateway" where
  "put_buffer sha now clock gone b k data g =
     (case writer_begin (ToObject b k Unconditional) (g_db g) of
        (Inl e, db') \<Rightarrow> (Inl e, g\<lparr>g_db := db'\<rparr>)
      | (Inr w, db') \<Rightarrow>
          (case push_pieces (\<lambda>n. gone n \<and> writer_refuses (cw_target w) db') 0 (pieces SEND_BATCH data) w of
             None \<Rightarrow> (Inl WriterGone, g\<lparr>g_db := db'\<rparr>)
           | Some w' \<Rightarrow> writer_finish sha now clock w' (g\<lparr>g_db := db'\<rparr>)))"

definition delete_key :: "ustring \<Rightarrow> ustring \<Rightarrow> gateway \<Rightarrow> bool \<times> gateway" where
  "delete_key b k g =
     (case delete_tx b k (g_db g) of
        (found, db') \<Rightarrow> (found, \<lparr>g_db = db', g_cache = meta_invalidate (g_cache g) (b, k)\<rparr>))"

definition complete_upload :: "(bytes \<Rightarrow> bytes) \<Rightarrow> int \<Rightarrow> int \<Rightarrow> ustring \<Rightarrow> ustring \<Rightarrow> ustring \<Rightarrow> (int \<times> ustring) list \<Rightarrow>
    gateway \<Rightarrow> (db_error + completed) \<times> gateway" where
  "complete_upload sha now clock uid b k listed g =
     (case complete_tx sha now uid b k listed (g_db g) of
        (Inl e, db') \<Rightarrow> (Inl e, g\<lparr>g_db := db'\<rparr>)
      | (Inr (CompleteDone b' k' etag size', ids, ends), db') \<Rightarrow>
          (Inr (CompleteDone b' k' etag size'),
           \<lparr>g_db = db', g_cache = publish_cache clock b' k' (ids ! 0) size' etag (Some (ids, ends)) (g_cache g)\<rparr>)
      | (Inr (r, _, _), db') \<Rightarrow> (Inr r, g\<lparr>g_db := db'\<rparr>))"

section \<open>The S3 handlers\<close>

datatype s3_error = ENoSuchKey | ENoSuchBucket | ENoSuchUpload | EInvalidRange | EInvalidRequest | EInvalidPart
  | EPreconditionFailed | EBucketNotEmpty | ENotImplemented | EInternal

datatype etag = Strong ustring | Weak ustring

datatype etag_condition = CondETag etag | CondAny

text \<open>A quoted digest parses as a strong ETag.\<close>

definition etag_of :: "bytes \<Rightarrow> etag" where
  "etag_of raw = Strong (hex raw)"

fun etag_value :: "etag \<Rightarrow> ustring" where
  "etag_value (Strong v) = v"
| "etag_value (Weak v) = v"

definition is_ascii_hexdigit :: "nat \<Rightarrow> bool" where
  "is_ascii_hexdigit x \<longleftrightarrow> 48 \<le> x \<and> x \<le> 57 \<or> 65 \<le> x \<and> x \<le> 70 \<or> 97 \<le> x \<and> x \<le> 102"

definition valid_etag :: "ustring \<Rightarrow> bool" where
  "valid_etag value \<longleftrightarrow> length (utf8 value) = 64 \<and> list_all is_ascii_hexdigit (utf8 value)"

text \<open>The error of a key that is not there.\<close>

definition missing_key :: "db \<Rightarrow> ustring \<Rightarrow> s3_error" where
  "missing_key db b = (if bucket_exists db b then ENoSuchKey else ENoSuchBucket)"

record head_output =
  h_length :: int
  h_etag :: etag
  h_modified :: int

definition head_object :: "ustring \<Rightarrow> ustring \<Rightarrow> gateway \<Rightarrow> (s3_error + head_output) \<times> gateway" where
  "head_object b k g =
     (case meta_fresh (g_db g) (g_cache g) b k of
        (None, c) \<Rightarrow> (Inl (missing_key (g_db g) b), g\<lparr>g_cache := c\<rparr>)
      | (Some m, c) \<Rightarrow>
          (Inr \<lparr>h_length = m_size m, h_etag = etag_of (m_etag m), h_modified = m_created m\<rparr>, g\<lparr>g_cache := c\<rparr>))"

record get_output =
  go_body :: piece_body
  go_length :: int
  go_range :: "(int \<times> int \<times> int) option"
  go_etag :: etag
  go_modified :: int

text \<open>\<open>dbs 2\<close> is the database the final bucket check sees; the outer None is the panic of \<open>get_body\<close>.\<close>

definition get_object :: "(nat \<Rightarrow> bool) \<Rightarrow> (nat \<Rightarrow> db) \<Rightarrow> (nat \<Rightarrow> piece \<Rightarrow> recv) \<Rightarrow> cache \<Rightarrow> ustring \<Rightarrow> ustring \<Rightarrow>
    byte_range option \<Rightarrow> (s3_error + get_output) option \<times> cache" where
  "get_object accepts dbs fetch c b k rng =
     (case range_params rng of (first, last', suffix') \<Rightarrow>
        (case get_body accepts dbs fetch c b k first last' suffix' of
           (None, c') \<Rightarrow> (None, c')
         | (Some r, c') \<Rightarrow>
             (Some
               (case r of
                  GetNone \<Rightarrow> Inl (missing_key (dbs 2) b)
                | GetFailed _ \<Rightarrow> Inl EInternal
                | GetEnded \<Rightarrow> Inl EInternal
                | GetBody m body \<Rightarrow>
                    if s_size m > 0 \<and> (s_start m > s_end m \<or> s_start m \<ge> s_size m) then Inl EInvalidRange
                    else Inr \<lparr>go_body = body, go_length = slice_len m,
                      go_range = (if rng \<noteq> None then Some (s_start m, s_end m, s_size m) else None),
                      go_etag = etag_of (s_etag m), go_modified = s_created m\<rparr>), c')))"

definition put_condition_of :: "etag_condition option \<Rightarrow> etag_condition option \<Rightarrow> put_condition option" where
  "put_condition_of if_match if_none_match =
     (case (if_match, if_none_match) of
        (None, None) \<Rightarrow> Some Unconditional
      | (None, Some CondAny) \<Rightarrow> Some IfAbsent
      | (Some (CondETag (Strong value)), None) \<Rightarrow> if valid_etag value then Some (IfMatch value) else None
      | _ \<Rightarrow> None)"

definition put_object :: "(bytes \<Rightarrow> bytes) \<Rightarrow> int \<Rightarrow> int \<Rightarrow> (nat \<Rightarrow> bool) \<Rightarrow> etag_condition option \<Rightarrow> etag_condition option \<Rightarrow>
    ustring \<Rightarrow> ustring \<Rightarrow> (unit + bytes) list option \<Rightarrow> gateway \<Rightarrow> (s3_error + etag) \<times> gateway" where
  "put_object sha now clock gone if_match if_none_match b k body g =
     (case put_condition_of if_match if_none_match of
        None \<Rightarrow> (Inl EInvalidRequest, g)
      | Some condition \<Rightarrow>
          if \<not> bucket_exists (g_db g) b then (Inl ENoSuchBucket, g)
          else
            (case write_body sha now clock gone (ToObject b k condition)
                    (case body of None \<Rightarrow> [Inr []] | Some chunks \<Rightarrow> chunks) g of
               (Inr (_, digest), g') \<Rightarrow> (Inr (etag_of digest), g')
             | (Inl PreconditionFailed, g') \<Rightarrow> (Inl EPreconditionFailed, g')
             | (Inl _, g') \<Rightarrow> (Inl (if bucket_exists (g_db g') b then EInternal else ENoSuchBucket), g')))"

definition delete_object :: "bool \<Rightarrow> ustring \<Rightarrow> ustring \<Rightarrow> gateway \<Rightarrow> (s3_error + unit) \<times> gateway" where
  "delete_object conditional b k g =
     (if conditional then (Inl ENotImplemented, g)
      else if \<not> bucket_exists (g_db g) b then (Inl ENoSuchBucket, g)
      else (Inr (), snd (delete_key b k g)))"

text \<open>A batch entry: the key, and whether it carries a version or a condition.\<close>

fun delete_all :: "ustring \<Rightarrow> ustring list \<Rightarrow> gateway \<Rightarrow> gateway" where
  "delete_all b [] g = g"
| "delete_all b (k # ks) g = delete_all b ks (snd (delete_key b k g))"

definition delete_objects :: "bool \<Rightarrow> ustring \<Rightarrow> (ustring \<times> bool) list \<Rightarrow> gateway \<Rightarrow>
    (s3_error + ustring list) \<times> gateway" where
  "delete_objects quiet b objects g =
     (if \<not> bucket_exists (g_db g) b then (Inl ENoSuchBucket, g)
      else if length objects > 1000 then (Inl EInvalidRequest, g)
      else if list_ex snd objects then (Inl ENotImplemented, g)
      else (Inr (if quiet then [] else map fst objects), delete_all b (map fst objects) g))"

section \<open>Multipart and bucket handlers\<close>

definition create_multipart_upload :: "ustring \<Rightarrow> int \<Rightarrow> ustring \<Rightarrow> ustring \<Rightarrow> gateway \<Rightarrow> (s3_error + ustring) \<times> gateway" where
  "create_multipart_upload uuid now b k g =
     (case create_upload uuid now b k (g_db g) of
        (Inl _, db') \<Rightarrow> (Inl EInternal, g\<lparr>g_db := db'\<rparr>)
      | (Inr None, db') \<Rightarrow> (Inl ENoSuchBucket, g\<lparr>g_db := db'\<rparr>)
      | (Inr (Some uid), db') \<Rightarrow> (Inr uid, g\<lparr>g_db := db'\<rparr>))"

definition upload_part :: "(bytes \<Rightarrow> bytes) \<Rightarrow> int \<Rightarrow> int \<Rightarrow> (nat \<Rightarrow> bool) \<Rightarrow> ustring \<Rightarrow> ustring \<Rightarrow> ustring \<Rightarrow> int \<Rightarrow>
    (unit + bytes) list option \<Rightarrow> gateway \<Rightarrow> (s3_error + etag) \<times> gateway" where
  "upload_part sha now clock gone uid b k part_number body g =
     (if \<not> upload_exists (g_db g) uid b k then (Inl ENoSuchUpload, g)
      else
        (case write_body sha now clock gone (ToPart uid part_number)
                (case body of None \<Rightarrow> [Inr []] | Some chunks \<Rightarrow> chunks) g of
           (Inr (_, digest), g') \<Rightarrow> (Inr (etag_of digest), g')
         | (Inl _, g') \<Rightarrow> (Inl EInternal, g')))"

text \<open>The listed parts: number and ETag are both optional in the request.\<close>

fun listed_parts :: "(int option \<times> etag option) list \<Rightarrow> (int \<times> ustring) list option" where
  "listed_parts [] = Some []"
| "listed_parts ((no, e) # rest) =
     (case no of
        None \<Rightarrow> None
      | Some n \<Rightarrow> map_option (Cons (n, case e of None \<Rightarrow> [] | Some v \<Rightarrow> etag_value v)) (listed_parts rest))"

definition complete_multipart_upload :: "(bytes \<Rightarrow> bytes) \<Rightarrow> int \<Rightarrow> int \<Rightarrow> ustring \<Rightarrow> ustring \<Rightarrow> ustring \<Rightarrow>
    (int option \<times> etag option) list \<Rightarrow> gateway \<Rightarrow> (s3_error + etag) \<times> gateway" where
  "complete_multipart_upload sha now clock uid b k listed g =
     (case listed_parts listed of
        None \<Rightarrow> (Inl EInvalidPart, g)
      | Some parts \<Rightarrow>
          (case complete_upload sha now clock uid b k parts g of
             (Inl _, g') \<Rightarrow> (Inl EInternal, g')
           | (Inr (CompleteDone _ _ digest _), g') \<Rightarrow> (Inr (etag_of digest), g')
           | (Inr InvalidPart, g') \<Rightarrow> (Inl EInvalidPart, g')
           | (Inr NoSuchUpload, g') \<Rightarrow>
               (case meta_fresh (g_db g') (g_cache g') b k of
                  (Some m, c) \<Rightarrow> (Inr (etag_of (m_etag m)), g'\<lparr>g_cache := c\<rparr>)
                | (None, c) \<Rightarrow> (Inl ENoSuchUpload, g'\<lparr>g_cache := c\<rparr>))))"

definition abort_multipart_upload :: "ustring \<Rightarrow> ustring \<Rightarrow> ustring \<Rightarrow> gateway \<Rightarrow> (s3_error + unit) \<times> gateway" where
  "abort_multipart_upload uid b k g =
     (case abort_upload uid b k (g_db g) of
        (found, db') \<Rightarrow> (if found then Inr () else Inl ENoSuchUpload, g\<lparr>g_db := db'\<rparr>))"

definition create_bucket_handler :: "int \<Rightarrow> ustring \<Rightarrow> gateway \<Rightarrow> gateway" where
  "create_bucket_handler now b g = g\<lparr>g_db := create_bucket now b (g_db g)\<rparr>"

definition head_bucket :: "ustring \<Rightarrow> gateway \<Rightarrow> s3_error + unit" where
  "head_bucket b g = (if bucket_exists (g_db g) b then Inr () else Inl ENoSuchBucket)"

definition delete_bucket_handler :: "ustring \<Rightarrow> gateway \<Rightarrow> (s3_error + unit) \<times> gateway" where
  "delete_bucket_handler b g =
     (case delete_bucket b (g_db g) of
        (d, db') \<Rightarrow>
          (case d of BucketDeleted \<Rightarrow> Inr () | BucketNotEmpty \<Rightarrow> Inl EBucketNotEmpty | BucketNotFound \<Rightarrow> Inl ENoSuchBucket,
           g\<lparr>g_db := db'\<rparr>))"

end
