(* ===== verification/Gateway_Spec.thy ===== *)
theory Gateway_Spec
  imports Gateway
begin

text \<open>
  What a gateway's reads and writes guarantee. The cache is an instance of
  \<open>lookup_cache\<close>: its entries describe the current row of their key, up to the
  timestamp, as long as only this gateway writes; when others write, an entry may
  be stale, and the properties say what a read then does.
\<close>

section \<open>The client goes away only when it stops accepting\<close>

lemma recv_rows_gone:
  "recv_rows accepts p s e n early st rx = (st', Inl ClientGone) \<Longrightarrow> \<exists>n. \<not> accepts n"
  by (induction accepts p s e n early st rx rule: recv_rows.induct) (auto split: if_splits prod.splits)

lemma span_loop_gone:
  "span_loop accepts fetch s e todo running st = (out, ClientGone) \<Longrightarrow> \<exists>n. \<not> accepts n"
proof (induction accepts fetch s e todo running st rule: span_loop.induct)
  case (1 accepts fetch s e todo running st)
  obtain todo' running' where refill: "refill todo running = (todo', running')" by fastforce
  show ?case
  proof (cases running')
    case Nil
    with "1.prems" show ?thesis
      by (subst (asm) span_loop.simps) (simp add: refill span_finish_def Let_def split: if_splits)
  next
    case (Cons p rest)
    obtain st' r where rx: "recv_rows accepts p s e (p_lo p) [] st (fetch p) = (st', r)" by fastforce
    show ?thesis
    proof (cases r)
      case (Inl x)
      with "1.prems" have "x = ClientGone" by (subst (asm) span_loop.simps) (simp add: refill Cons rx)
      with rx Inl recv_rows_gone show ?thesis by blast
    next
      case (Inr n)
      with "1.prems" have "span_loop accepts fetch s e todo' rest st' = (out, ClientGone)"
        by (subst (asm) span_loop.simps) (simp add: refill Cons rx split: if_splits)
      moreover have "p_hi p < n"
        using "1.prems" Inr by (subst (asm) span_loop.simps) (simp add: refill Cons rx split: if_splits)
      ultimately show ?thesis using "1.IH" [OF refill [symmetric] Cons rx [symmetric] Inr] by blast
    qed
  qed
qed

section \<open>The messages of one span\<close>

text \<open>The requested bytes of an object.\<close>

definition slice_of :: "(int \<Rightarrow> bytes) \<Rightarrow> meta \<Rightarrow> int \<Rightarrow> int \<Rightarrow> bytes" where
  "slice_of content m start end' = take (nat (end' - start + 1)) (drop (nat start) (object_bytes content m))"

text \<open>What a client has of the messages of a channel that it reads to its end.\<close>

fun collect_msgs :: "body_msg list \<Rightarrow> span_error + bytes" where
  "collect_msgs [] = Inr []"
| "collect_msgs (Inl e # _) = Inl e"
| "collect_msgs (Inr p # rest) = (case collect_msgs rest of Inl e \<Rightarrow> Inl e | Inr bs \<Rightarrow> Inr (p @ bs))"

lemma drain_rx [simp]: "drain_stream \<lparr>ps_first = None, ps_rx = msgs\<rparr> = collect_msgs msgs"
proof (induction msgs)
  case Nil
  show ?case by (subst drain_stream.simps) (simp add: poll_next_def)
next
  case (Cons m ms)
  then show ?case by (subst drain_stream.simps) (cases m, simp_all add: poll_next_def)
qed

lemma drain_first [simp]: "drain_stream \<lparr>ps_first = Some h, ps_rx = msgs\<rparr> = collect_msgs (Inr h # msgs)"
  by (subst drain_stream.simps) (simp add: poll_next_def)

lemma collect_span_msgs:
  "collect_msgs (span_msgs (out, r)) = (case r of Failed e \<Rightarrow> Inl e | _ \<Rightarrow> Inr (concat out))"
  unfolding span_msgs_def by (induction out) (simp_all split: span_result.split)

lemma length_slice:
  assumes "meta_ok content m" and "0 \<le> start" and "start \<le> end'" and "end' < m_size m"
  shows "int (length (slice_of content m start end')) = end' - start + 1"
  using assms by (auto simp: slice_of_def meta_ok_def)

text \<open>
  The head buffer decides: it is the whole body, or the stream carries the body
  unless it ends in an error.
\<close>

lemma head_and_body:
  assumes msgs: "span_msgs (out, r) = Inr head # rest" and "r = Done \<Longrightarrow> concat out = target"
    and "prefix (concat out) target" and "r \<noteq> ClientGone"
    and body: "body_bytes (if int (length head) = int (length target) then OneShot head
      else Streamed \<lparr>ps_first = Some head, ps_rx = rest\<rparr>) = Inr bs"
  shows "bs = target"
proof (cases "int (length head) = int (length target)")
  case True
  from msgs have "\<exists>tl. out = head # tl" by (cases out) (auto simp: span_msgs_def split: span_result.splits)
  then have "prefix head target" using assms(3) by (auto dest: append_prefixD)
  with True have "head = target" by (auto simp: prefix_def)
  with True body show ?thesis by (simp add: body_bytes_def)
next
  case False
  with body have "collect_msgs (span_msgs (out, r)) = Inr bs" by (simp add: body_bytes_def msgs)
  with assms(2,4) show ?thesis by (cases r) (auto simp: collect_span_msgs)
qed

lemma span_all_accepted:
  assumes ok: "meta_ok content m" and range: "0 \<le> start" "start \<le> end'" "end' < m_size m"
    and rows: "\<forall>p \<in> set (plan m start end' PART_ROWS). rows_from content p (fetch p)"
    and accepts: "\<forall>n. accepts n" and span: "stream_span accepts fetch m start end' = (out, r)"
  shows "prefix (concat out) (slice_of content m start end')"
    and "r = Done \<Longrightarrow> concat out = slice_of content m start end'" and "r \<noteq> ClientGone"
    and "(\<forall>p \<in> set (plan m start end' PART_ROWS). all_rows p (fetch p)) \<Longrightarrow> r = Done"
proof -
  note post = stream_span_post [OF ok range rows span]
  show "prefix (concat out) (slice_of content m start end')"
    and "r = Done \<Longrightarrow> concat out = slice_of content m start end'"
    using post accepts by (simp_all add: span_post_def plan_bytes [OF ok range] slice_of_def)
  show "r \<noteq> ClientGone" using span_loop_gone span accepts unfolding stream_span_def by blast
  show "(\<forall>p \<in> set (plan m start end' PART_ROWS). all_rows p (fetch p)) \<Longrightarrow> r = Done"
    using post accepts length_slice [OF ok range] by (simp add: span_post_def plan_bytes [OF ok range] slice_of_def)
qed

text \<open>A span whose first rows are gone fails before any byte is sent.\<close>

lemma span_rows_gone:
  assumes ok: "meta_ok content m" and range: "0 \<le> start" "start \<le> end'" "end' < m_size m"
    and gone: "\<forall>p \<in> set (plan m start end' PART_ROWS). fetch p = []"
  shows "\<exists>e. span_msgs (stream_span accepts fetch m start end') = [Inl e]"
proof -
  have "slice_of content m start end' \<noteq> []" using length_slice [OF ok range] range by auto
  then have "concat (map (piece_bytes content start end') (plan m start end' PART_ROWS)) \<noteq> []"
    by (simp add: plan_bytes [OF ok range] slice_of_def)
  then obtain p ps where plan: "plan m start end' PART_ROWS = p # ps"
    by (cases "plan m start end' PART_ROWS") auto
  then have "p_lo p \<le> p_hi p" using plan_piece_bounds [OF ok range(2), of p PART_ROWS] by simp
  moreover have "fetch p = []" using gone plan by simp
  moreover have "refill (p # ps) [] = (drop PARTS_INFLIGHT (p # ps), p # take (PARTS_INFLIGHT - 1) ps)"
    by (simp add: refill_def PARTS_INFLIGHT_def Let_def numeral_eq_Suc)
  ultimately show ?thesis
    unfolding stream_span_def plan by (subst span_loop.simps) (simp add: span_msgs_def)
qed

section \<open>One attempt\<close>

lemma eff_range_bounds:
  "eff_range n first last' suffix' = (start, end') \<Longrightarrow> 0 \<le> start \<and> end' < n"
  by (auto simp: eff_range_def split: if_splits)

lemma len_slice:
  assumes ok: "meta_ok content m" and "0 \<le> start" and "end' < m_size m"
  shows "max (end' - start + 1) 0 = int (length (slice_of content m start end'))"
  using length_slice [OF assms(1,2) _ assms(3)] by (cases "start \<le> end'") (simp_all add: slice_of_def)

text \<open>What an attempt makes of the metadata it found.\<close>

definition attempt_with :: "nat \<Rightarrow> (nat \<Rightarrow> bool) \<Rightarrow> (piece \<Rightarrow> recv) \<Rightarrow> meta \<Rightarrow> int \<times> int \<Rightarrow> get_result option" where
  "attempt_with attempt accepts fetch m rng =
     (case rng of (start, end') \<Rightarrow>
        if m_size m > 0 \<and> (start > end' \<or> start \<ge> m_size m) \<and> attempt = 0 then None
        else
          (let smeta = \<lparr>s_size = m_size m, s_etag = m_etag m, s_created = m_created m,
                 s_file_id = m_file_id m, s_start = start, s_end = end'\<rparr>;
               len = slice_len smeta
           in if len = 0 then Some (GetBody smeta (OneShot []))
              else
                (case span_msgs (stream_span (\<lambda>n. n = 0 \<or> accepts n) fetch m start end') of
                   [] \<Rightarrow> Some GetEnded
                 | Inr head # rest \<Rightarrow>
                     Some (GetBody smeta (if int (length head) = len then OneShot head else Streamed \<lparr>ps_first = Some head, ps_rx = rest\<rparr>))
                 | Inl e # _ \<Rightarrow> if attempt = 1 then Some (GetFailed e) else None)))"

lemma get_attempt_with:
  assumes "meta_lookup db c b k = (Some m, c')"
  obtains c'' where "get_attempt attempt accepts db fetch c b k first last' suffix' =
      (attempt_with attempt accepts fetch m (eff_range (m_size m) first last' suffix'), c'')"
    and "c'' = c' \<or> c'' = meta_invalidate c' (b, k)"
    and "attempt_with attempt accepts fetch m (eff_range (m_size m) first last' suffix') = None \<Longrightarrow>
      c'' = meta_invalidate c' (b, k)"
proof -
  let ?run = "get_attempt attempt accepts db fetch c b k first last' suffix'"
  let ?r = "attempt_with attempt accepts fetch m (eff_range (m_size m) first last' suffix')"
  have "fst ?run = ?r"
    by (auto simp: get_attempt_def attempt_with_def assms Let_def split: prod.split list.split sum.split)
  moreover have "snd ?run = c' \<or> snd ?run = meta_invalidate c' (b, k)"
    by (auto simp: get_attempt_def assms Let_def split: prod.split list.split sum.split)
  moreover have "?r = None \<Longrightarrow> snd ?run = meta_invalidate c' (b, k)"
    by (auto simp: get_attempt_def attempt_with_def assms Let_def split: prod.splits list.splits sum.splits if_splits)
  ultimately show thesis by (intro that [of "snd ?run"]) (simp_all add: prod_eq_iff)
qed

lemma attempt_with_body:
  assumes ok: "meta_ok content m" and rng: "0 \<le> start" "end' < m_size m"
    and rows: "\<forall>p \<in> set (plan m start end' PART_ROWS). rows_from content p (fetch p)"
    and accepts: "\<forall>n. accepts n"
    and res: "attempt_with attempt accepts fetch m (start, end') = Some (GetBody sm body)"
    and bs: "body_bytes body = Inr bs"
  shows "sm = \<lparr>s_size = m_size m, s_etag = m_etag m, s_created = m_created m, s_file_id = m_file_id m,
      s_start = start, s_end = end'\<rparr> \<and> bs = slice_of content m start end'"
proof (cases "start \<le> end'")
  case False
  then have "slice_of content m start end' = []" by (simp add: slice_of_def)
  with False res bs show ?thesis
    by (auto simp: attempt_with_def slice_len_def Let_def body_bytes_def split: if_splits)
next
  case True
  obtain out r where span: "stream_span (\<lambda>n. n = 0 \<or> accepts n) fetch m start end' = (out, r)" by fastforce
  have "\<forall>n. n = 0 \<or> accepts n" using accepts by simp
  note spec = span_all_accepted [OF ok rng(1) True rng(2) rows this span]
  have len: "slice_len \<lparr>s_size = m_size m, s_etag = m_etag m, s_created = m_created m, s_file_id = m_file_id m,
      s_start = start, s_end = end'\<rparr> = int (length (slice_of content m start end'))"
    using len_slice [OF ok rng] by (simp add: slice_len_def)
  have nz: "int (length (slice_of content m start end')) \<noteq> 0"
    using length_slice [OF ok rng(1) True rng(2)] True by simp
  obtain head rest where msgs: "span_msgs (out, r) = Inr head # rest"
    and sm: "sm = \<lparr>s_size = m_size m, s_etag = m_etag m, s_created = m_created m, s_file_id = m_file_id m,
      s_start = start, s_end = end'\<rparr>"
    and body: "body = (if int (length head) = int (length (slice_of content m start end')) then OneShot head
      else Streamed \<lparr>ps_first = Some head, ps_rx = rest\<rparr>)"
    using res nz True
    by (auto simp: attempt_with_def span Let_def len split: if_splits list.splits sum.splits)
  from head_and_body [OF msgs spec(2,1,3)] bs body sm show ?thesis by simp
qed

lemma attempt_with_complete:
  assumes ok: "meta_ok content m" and rng: "0 \<le> start" "end' < m_size m"
    and rows: "start \<le> end' \<Longrightarrow> \<forall>p \<in> set (plan m start end' PART_ROWS). rows_from content p (fetch p) \<and> all_rows p (fetch p)"
    and accepts: "\<forall>n. accepts n"
    and served: "attempt \<noteq> 0 \<or> \<not> (m_size m > 0 \<and> (start > end' \<or> start \<ge> m_size m))"
  shows "\<exists>body. attempt_with attempt accepts fetch m (start, end') =
      Some (GetBody \<lparr>s_size = m_size m, s_etag = m_etag m, s_created = m_created m, s_file_id = m_file_id m,
        s_start = start, s_end = end'\<rparr> body) \<and> body_bytes body = Inr (slice_of content m start end')"
proof (cases "start \<le> end'")
  case False
  then show ?thesis
    using served by (auto simp: attempt_with_def slice_len_def Let_def body_bytes_def slice_of_def)
next
  case True
  obtain out r where span: "stream_span (\<lambda>n. n = 0 \<or> accepts n) fetch m start end' = (out, r)" by fastforce
  have acc: "\<forall>n. n = 0 \<or> accepts n" using accepts by simp
  have rows': "\<forall>p \<in> set (plan m start end' PART_ROWS). rows_from content p (fetch p)" using rows [OF True] by blast
  note spec = span_all_accepted [OF ok rng(1) True rng(2) rows' acc span]
  have fin: "r = Done" using spec(4) rows [OF True] by blast
  have nz: "slice_of content m start end' \<noteq> []"
    using length_slice [OF ok rng(1) True rng(2)] True by auto
  with spec(2) fin obtain head tl where out: "out = head # tl" by (cases out) auto
  then have msgs: "span_msgs (out, r) = Inr head # map Inr tl" by (simp add: span_msgs_def fin)
  have len: "slice_len \<lparr>s_size = m_size m, s_etag = m_etag m, s_created = m_created m, s_file_id = m_file_id m,
      s_start = start, s_end = end'\<rparr> = int (length (slice_of content m start end'))"
    using len_slice [OF ok rng] by (simp add: slice_len_def)
  let ?body = "if int (length head) = int (length (slice_of content m start end')) then OneShot head
      else Streamed \<lparr>ps_first = Some head, ps_rx = map Inr tl\<rparr>"
  have "body_bytes ?body = Inr (slice_of content m start end')"
  proof -
    have "collect_msgs (Inr head # map Inr tl) = Inr (slice_of content m start end')"
      unfolding msgs [symmetric] collect_span_msgs using spec(2) fin by simp
    moreover have "head = slice_of content m start end'" if "length head = length (slice_of content m start end')"
      using that spec(2) fin by (simp add: out flip: spec(2) [OF fin])
    ultimately show ?thesis by (simp add: body_bytes_def)
  qed
  moreover have "attempt_with attempt accepts fetch m (start, end') =
      Some (GetBody \<lparr>s_size = m_size m, s_etag = m_etag m, s_created = m_created m, s_file_id = m_file_id m,
        s_start = start, s_end = end'\<rparr> ?body)"
    using served True nz rng(2) by (simp add: attempt_with_def Let_def len span msgs)
  ultimately show ?thesis by blast
qed

section \<open>Entries that describe the current row\<close>

definition describes :: "db \<Rightarrow> ustring \<times> ustring \<Rightarrow> meta \<Rightarrow> bool" where
  "describes db bk m \<longleftrightarrow>
     (\<exists>r. find_object db (fst bk) (snd bk) = Some r \<and> m_size m = o_size r \<and> m_etag m = o_etag r \<and>
        m_file_id m = o_file_id r \<and> m_parts m = o_parts r \<and> m_part_ends m = o_part_ends r)"

definition coherent :: "db \<Rightarrow> cache \<Rightarrow> bool" where
  "coherent db c \<longleftrightarrow> mc.entries (describes db) c"

lemma plan_file: "p \<in> set (plan m start end' step) \<Longrightarrow> p_file_id p \<in> fst ` set (segments m)"
  by (force simp: plan_conv plan_segment_def split: if_splits)

lemma described_meta:
  assumes ok: "db_ok db" and "describes db (b, k) m"
  obtains r where "find_object db b k = Some r" and "m_size m = o_size r" and "m_etag m = o_etag r"
    and "meta_ok (file_bytes (d_chunks db)) m"
    and "object_bytes (file_bytes (d_chunks db)) m = fst (stored_object db r)"
    and "\<forall>p \<in> set (plan m start end' step). rows_from (file_bytes (d_chunks db)) p (fetch_part (d_chunks db) p)"
    and "start \<le> end' \<Longrightarrow> \<forall>p \<in> set (plan m start end' step). all_rows p (fetch_part (d_chunks db) p)"
proof -
  let ?content = "file_bytes (d_chunks db)"
  obtain r where r: "find_object db b k = Some r" "m_size m = o_size r" "m_etag m = o_etag r"
    "m_file_id m = o_file_id r" "m_parts m = o_parts r" "m_part_ends m = o_part_ends r"
    using assms(2) by (auto simp: describes_def)
  then have mem: "r \<in> set (d_objects db)" by (simp add: find_object_Some [OF db_okD(2) [OF ok]])
  have seg: "segments m = segments (row_meta r)" by (simp add: segments_def row_meta_def r split: option.split)
  have bytes: "object_bytes ?content m = object_bytes ?content (row_meta r)" by (simp add: object_bytes_def seg)
  have meta: "meta_ok ?content m"
    using row_meta_ok [OF ok mem] by (simp add: meta_ok_def seg bytes r(2) row_meta_def)
  have held: "holds_file (d_chunks db) (p_file_id p) (?content (p_file_id p))" if "p \<in> set (plan m start end' step)" for p
  proof -
    have "p_file_id p \<in> fst ` set (refs db)"
      using plan_file [OF that] mem by (force simp: seg refs_def object_refs_def image_iff)
    then obtain d where "holds_file (d_chunks db) (p_file_id p) d"
      using ct.backed_holds [OF db_okD(1) [OF ok]] by force
    then show ?thesis using holds_file_bytes by metis
  qed
  have all: "\<forall>p \<in> set (plan m start end' step). all_rows p (fetch_part (d_chunks db) p)" if "start \<le> end'"
  proof
    fix p assume p: "p \<in> set (plan m start end' step)"
    show "all_rows p (fetch_part (d_chunks db) p)"
      using plan_piece_bounds [OF meta that p]
      by (intro fetch_part_rows(2) [where content = ?content, OF held [OF p]]) auto
  qed
  show thesis
    by (rule that [OF r(1-3) meta _ _ all]) (use fetch_part_rows(1) [where content = ?content, OF held] bytes in \<open>auto simp: stored_object_def\<close>)
qed

lemma lookup_coherent:
  assumes "coherent db c" and "meta_lookup db c b k = (mo, c')"
  shows "coherent db c'" and "mo = None \<longleftrightarrow> find_object db b k = None"
    and "mo = Some m \<Longrightarrow> describes db (b, k) m"
proof -
  have fresh: "describes db (b, k) (row_meta r)" if "find_object db b k = Some r" for r
    using that by (simp add: describes_def row_meta_def)
  have "coherent db c' \<and> (mo = None \<longleftrightarrow> find_object db b k = None) \<and> (\<forall>m. mo = Some m \<longrightarrow> describes db (b, k) m)"
  proof (cases "meta_get c (b, k)")
    case miss: None
    show ?thesis
    proof (cases "find_object db b k")
      case None
      with miss assms(2) have "mo = None" "c' = meta_invalidate c (b, k)"
        by (simp_all add: meta_lookup_def meta_fresh_def)
      with None assms(1) show ?thesis by (simp add: coherent_def mc.entries_invalidate)
    next
      case (Some r)
      with miss assms(2) have "mo = Some (row_meta r)" "c' = meta_put c (b, k) (row_meta r)"
        by (simp_all add: meta_lookup_def meta_fresh_def)
      with Some assms(1) fresh [OF Some] show ?thesis by (simp add: coherent_def mc.entries_put)
    qed
  next
    case (Some m0)
    have "describes db (b, k) m0" by (rule mc.entriesD [OF assms(1) [unfolded coherent_def] Some])
    with Some assms show ?thesis by (auto simp: meta_lookup_def describes_def)
  qed
  then show "coherent db c'" and "mo = None \<longleftrightarrow> find_object db b k = None"
    and "mo = Some m \<Longrightarrow> describes db (b, k) m" by auto
qed

lemma coherent_invalidate: "coherent db c \<Longrightarrow> coherent db (meta_invalidate c bk)"
  by (simp add: coherent_def mc.entries_invalidate)

section \<open>A read of a quiet database\<close>

lemma get_body_missing:
  assumes "coherent db c" and "find_object db b k = None"
  shows "\<exists>c'. get_body accepts (\<lambda>_. db) fetch c b k first last' suffix' = (Some GetNone, c') \<and> coherent db c'"
proof -
  obtain mo c' where look: "meta_lookup db c b k = (mo, c')" by fastforce
  with lookup_coherent [OF assms(1) look] assms(2) show ?thesis
    by (simp add: get_body_def get_attempt_def)
qed

lemma attempt_described:
  assumes ok: "db_ok db" and m: "describes db (b, k) m" and look: "meta_lookup db c b k = (Some m, c')"
    and obj: "find_object db b k = Some r" and rng: "eff_range (o_size r) first last' suffix' = (start, end')"
    and accepts: "\<forall>n. accepts n"
    and served: "i \<noteq> 0 \<or> \<not> (o_size r > 0 \<and> (start > end' \<or> start \<ge> o_size r))"
  shows "\<exists>sm body c''. get_attempt i accepts db (fetch_part (d_chunks db)) c b k first last' suffix' =
      (Some (GetBody sm body), c'') \<and> (c'' = c' \<or> c'' = meta_invalidate c' (b, k)) \<and>
    s_size sm = o_size r \<and> s_etag sm = o_etag r \<and> s_start sm = start \<and> s_end sm = end' \<and>
    body_bytes body = Inr (take (nat (end' - start + 1)) (drop (nat start) (fst (stored_object db r))))"
proof -
  let ?fetch = "fetch_part (d_chunks db)" and ?content = "file_bytes (d_chunks db)"
  have bounds: "0 \<le> start" "end' < o_size r" using eff_range_bounds [OF rng] by auto
  obtain r' where m: "find_object db b k = Some r'" "m_size m = o_size r'" "m_etag m = o_etag r'"
    "meta_ok ?content m" "object_bytes ?content m = fst (stored_object db r')"
    "\<forall>p \<in> set (plan m start end' PART_ROWS). rows_from ?content p (?fetch p)"
    "start \<le> end' \<Longrightarrow> \<forall>p \<in> set (plan m start end' PART_ROWS). all_rows p (?fetch p)"
    by (rule described_meta [OF ok m]) blast
  have m_size: "m_size m = o_size r" and m_etag: "m_etag m = o_etag r" using m(1-3) obj by simp_all
  have rows: "\<forall>p \<in> set (plan m start end' PART_ROWS). rows_from ?content p (?fetch p) \<and> all_rows p (?fetch p)"
    if "start \<le> end'" using m(6) m(7) [OF that] by blast
  have served': "i \<noteq> 0 \<or> \<not> (m_size m > 0 \<and> (start > end' \<or> start \<ge> m_size m))"
    using served by (simp add: m_size)
  have bounds': "end' < m_size m" using bounds by (simp add: m_size)
  obtain body where body: "attempt_with i accepts ?fetch m (start, end') =
      Some (GetBody \<lparr>s_size = m_size m, s_etag = m_etag m, s_created = m_created m, s_file_id = m_file_id m,
        s_start = start, s_end = end'\<rparr> body)" "body_bytes body = Inr (slice_of ?content m start end')"
    using attempt_with_complete [OF m(4) bounds(1) bounds' rows accepts served'] by blast
  have slice: "slice_of ?content m start end' =
      take (nat (end' - start + 1)) (drop (nat start) (fst (stored_object db r)))"
    using m(1,5) obj by (simp add: slice_of_def)
  show ?thesis
    by (rule get_attempt_with [OF look, of i accepts ?fetch first last' suffix'])
      (use body slice in \<open>auto simp: m_size m_etag rng\<close>)
qed

lemma get_body_present:
  assumes ok: "db_ok db" and coh: "coherent db c" and obj: "find_object db b k = Some r"
    and rng: "eff_range (o_size r) first last' suffix' = (start, end')" and accepts: "\<forall>n. accepts n"
  shows "\<exists>sm body c'. get_body accepts (\<lambda>_. db) (\<lambda>_. fetch_part (d_chunks db)) c b k first last' suffix' =
      (Some (GetBody sm body), c') \<and> coherent db c' \<and>
    s_size sm = o_size r \<and> s_etag sm = o_etag r \<and> s_start sm = start \<and> s_end sm = end' \<and>
    body_bytes body = Inr (take (nat (end' - start + 1)) (drop (nat start) (fst (stored_object db r))))"
proof -
  let ?fetch = "fetch_part (d_chunks db)" and ?content = "file_bytes (d_chunks db)"
  have attempt: "\<exists>sm body c''. get_attempt i accepts db ?fetch c0 b k first last' suffix' = (Some (GetBody sm body), c'') \<and>
      coherent db c'' \<and> s_size sm = o_size r \<and> s_etag sm = o_etag r \<and> s_start sm = start \<and> s_end sm = end' \<and>
      body_bytes body = Inr (take (nat (end' - start + 1)) (drop (nat start) (fst (stored_object db r))))"
    if coh0: "coherent db c0" and served: "i \<noteq> 0 \<or> \<not> (o_size r > 0 \<and> (start > end' \<or> start \<ge> o_size r))" for i c0
  proof -
    obtain m c' where look: "meta_lookup db c0 b k = (Some m, c')"
      using lookup_coherent(2) [OF coh0, of b k] obj by (cases "meta_lookup db c0 b k") auto
    from attempt_described [OF ok lookup_coherent(3) [OF coh0 look refl] look obj rng accepts served]
    show ?thesis using lookup_coherent(1) [OF coh0 look] coherent_invalidate by blast
  qed
  show ?thesis
  proof (cases "o_size r > 0 \<and> (start > end' \<or> start \<ge> o_size r)")
    case False
    then show ?thesis using attempt [OF coh, of 0] by (auto simp: get_body_def)
  next
    case True
    obtain m c' where look: "meta_lookup db c b k = (Some m, c')"
      using lookup_coherent(2) [OF coh, of b k] obj by (cases "meta_lookup db c b k") auto
    have "m_size m = o_size r"
      using lookup_coherent(3) [OF coh look refl] obj by (auto simp: describes_def)
    with True rng have none: "attempt_with 0 accepts ?fetch m (eff_range (m_size m) first last' suffix') = None"
      by (simp add: attempt_with_def)
    obtain c1 where "get_attempt 0 accepts db ?fetch c b k first last' suffix' = (None, c1)" "coherent db c1"
      by (rule get_attempt_with [OF look, of 0 accepts ?fetch first last' suffix'])
        (use none lookup_coherent(1) [OF coh look] coherent_invalidate in auto)
    with attempt [of c1 1] show ?thesis by (auto simp: get_body_def)
  qed
qed

section \<open>Transactions leave the rows at other keys alone\<close>

lemma find_complete_other:
  assumes "complete_tx sha now uid b k listed db = (Inr (CompleteDone b k etag n, ids, ends), db')"
    and "(b', k') \<noteq> (b, k)"
  shows "find_object db' b' k' = find_object db b' k'"
proof -
  obtain w db1 where "swap_object now b k w db = Inr db1" "db' = drop_upload uid db1"
    using assms(1)
    by (auto simp: complete_tx_def Let_def split: if_splits option.splits sum.splits prod.splits)
  with find_swap_other [OF this(1) assms(2)] show ?thesis by (simp add: find_object_def drop_upload_def)
qed

section \<open>The gateway's invariant\<close>

definition gw_ok :: "gateway \<Rightarrow> bool" where
  "gw_ok g \<longleftrightarrow> db_ok (g_db g) \<and> coherent (g_db g) (g_cache g)"

text \<open>A step that keeps the rows at other keys keeps the entries there.\<close>

lemma coherent_put:
  assumes "coherent db c" and "\<And>b' k'. (b', k') \<noteq> (b, k) \<Longrightarrow> find_object db' b' k' = find_object db b' k'"
    and "describes db' (b, k) m"
  shows "coherent db' (meta_put c (b, k) m)"
proof -
  let ?c = "meta_invalidate c (b, k)"
  have inv: "cache_inv c" using assms(1) by (auto simp: coherent_def dest: mc.entries_inv)
  have "describes db' bk v" if "meta_get (meta_put c (b, k) m) bk = Some v" for bk v
  proof (cases "bk = (b, k)")
    case True
    with that mc.get_put_same [OF inv] assms(3) show ?thesis by simp
  next
    case False
    then have "meta_get c bk = Some v" using that mc.get_put_other [OF inv] by blast
    then have "describes db bk v" by (rule mc.entriesD [OF assms(1) [unfolded coherent_def]])
    with False assms(2) [of "fst bk" "snd bk"] show ?thesis by (simp add: describes_def)
  qed
  with mc.inv_put [OF inv] show ?thesis by (simp add: coherent_def mc.entries_def)
qed

lemma coherent_drop:
  assumes "coherent db c" and "\<And>b' k'. (b', k') \<noteq> (b, k) \<Longrightarrow> find_object db' b' k' = find_object db b' k'"
  shows "coherent db' (meta_invalidate c (b, k))"
proof -
  have inv: "cache_inv c" using assms(1) by (auto simp: coherent_def dest: mc.entries_inv)
  have "describes db' bk v" if get: "meta_get (meta_invalidate c (b, k)) bk = Some v" for bk v
  proof -
    from get have "bk \<noteq> (b, k)" and "meta_get c bk = Some v" by (auto simp: mc.get_invalidate split: if_splits)
    from mc.entriesD [OF assms(1) [unfolded coherent_def] this(2)] assms(2) [of "fst bk" "snd bk"] this(1)
    show ?thesis by (simp add: describes_def)
  qed
  with mc.inv_invalidate [OF inv] show ?thesis by (simp add: coherent_def mc.entries_def)
qed

lemma coherent_same:
  assumes "coherent db c" and "d_objects db' = d_objects db"
  shows "coherent db' c"
proof -
  have "describes db' = describes db" by (simp add: fun_eq_iff describes_def find_object_def assms(2))
  with assms(1) show ?thesis by (simp add: coherent_def)
qed

lemma writer_ok:
  assumes gw: "gw_ok g" and fresh: "fresh_id (g_db g) fid" and fits: "fits_file (msgs_bytes msgs)"
    and run: "ingest_writer sha now clock fid target msgs g = (r, g')"
  shows "gw_ok g'" and "r = Inl e \<Longrightarrow> g' = g"
proof -
  obtain r' db' where tx: "ingest_tx sha now fid target msgs (g_db g) = (r', db')" by fastforce
  have "sys_ok (g_db g, [fid])" using gw fresh by (simp add: gw_ok_def sys_ok_def)
  then have ok: "db_ok db'" using writer_step [OF _ _ fits tx, of "[fid]"] by (simp add: sys_ok_def)
  have coh: "coherent (g_db g) (g_cache g)" and db: "db_ok (g_db g)" using gw by (simp_all add: gw_ok_def)
  have "gw_ok g' \<and> (r = Inl e \<longrightarrow> g' = g)"
  proof (cases r')
    case (Inl e')
    then have "db' = g_db g" using tx ingest_tx_error by blast
    with run tx Inl gw show ?thesis by (auto simp: ingest_writer_def)
  next
    case (Inr res)
    obtain tot digest where res: "res = (tot, digest)" by (cases res)
    have "Abort \<notin> set msgs" using tx Inr ingest_aborted by (auto simp: ingest_tx_def split: if_splits)
    then obtain cs where cs: "msgs = map Data cs" using messages_cases by blast
    show ?thesis
    proof (cases target)
      case (ToPart uid no)
      with run tx Inr res have "g' = \<lparr>g_db = db', g_cache = g_cache g\<rparr>" "r = Inr res"
        by (auto simp: ingest_writer_def)
      with ok coherent_same [OF coh find_part_tx_objects [OF tx [unfolded ToPart]]] show ?thesis
        by (simp add: gw_ok_def)
    next
      case (ToObject b k c)
      have fits': "fits_file (concat cs)" using fits by (simp add: cs)
      have bucket: "bucket_exists (g_db g) b" and allowed: "write_allowed c (find_object (g_db g) b k)"
        by (rule put_tx_outcome [OF db fresh fits', of sha now b k c];
            use tx Inr in \<open>simp add: ToObject cs bucket_exists_abs write_allowed_abs\<close>)+
      have "describes db' (b, k) \<lparr>m_size = tot, m_etag = digest, m_created = clock, m_file_id = fid,
          m_parts = None, m_part_ends = None\<rparr>"
        by (rule put_tx_spec [OF db fresh bucket fits' allowed, of sha now])
          (use tx Inr res in \<open>auto simp: ToObject cs describes_def written_row_def\<close>)
      then have "coherent db' (publish_cache clock b k fid tot digest None (g_cache g))"
        using coherent_put [OF coh] find_ingest_other [OF tx [unfolded ToObject Inr]]
        unfolding publish_cache_def by simp
      with ok run tx Inr res show ?thesis by (auto simp: ingest_writer_def ToObject gw_ok_def)
    qed
  qed
  then show "gw_ok g'" and "r = Inl e \<Longrightarrow> g' = g" by auto
qed

text \<open>The messages of a body whose writer stays: its chunks, then Abort if it breaks off.\<close>

fun body_msgs :: "(unit + bytes) list \<Rightarrow> ingest_msg list" where
  "body_msgs [] = []"
| "body_msgs (Inr chunk # rest) = Data chunk # body_msgs rest"
| "body_msgs (Inl _ # _) = [Abort]"

lemma body_msgs_map [simp]: "body_msgs (map Inr cs) = map Data cs"
  by (induction cs) auto

lemma push_body_stays:
  "push_body (\<lambda>_. False) n body w = (w', failed) \<Longrightarrow>
     cw_file_id w' = cw_file_id w \<and> cw_target w' = cw_target w \<and> failed = (Inl () \<in> set body) \<and>
     cw_sent w' @ (if failed then [Abort] else []) = cw_sent w @ body_msgs body"
  by (induction "\<lambda>_ :: nat. False" n body w rule: push_body.induct) (auto simp: writer_push_def)

lemma push_body_writer:
  "push_body gone n body w = (w', failed) \<Longrightarrow> cw_target w' = cw_target w"
  by (induction gone n body w rule: push_body.induct) (auto simp: writer_push_def split: if_splits)

lemma push_pieces_stays:
  "push_pieces (\<lambda>_. False) n cs w = Some (w\<lparr>cw_sent := cw_sent w @ map Data cs\<rparr>)"
  by (induction cs arbitrary: n w) (simp_all add: writer_push_def)

lemma refused_writer:
  "writer_refuses target (g_db g) \<Longrightarrow> ingest_writer sha now clock fid target msgs g = (Inl NoBucket, g)"
  by (auto simp: ingest_writer_def ingest_tx_def writer_refuses_def split: writer_target.splits)

text \<open>
  A writer that refuses its bucket fails and changes nothing, wherever the sends stop;
  any other gets the messages of the whole body.
\<close>

lemma write_body_run:
  assumes "writer_begin target (g_db g) = (Inr w, db1)" and run: "write_body sha now clock gone target body g = (r, g')"
  shows "writer_refuses target db1 \<Longrightarrow> g' = g\<lparr>g_db := db1\<rparr> \<and> (r = Inl NoBucket \<or> r = Inl IngestAborted)"
    and "\<not> writer_refuses target db1 \<Longrightarrow>
      (\<exists>r1. ingest_writer sha now clock (cw_file_id w) target (body_msgs body) (g\<lparr>g_db := db1\<rparr>) = (r1, g') \<and>
        r = (if Inl () \<in> set body then Inl IngestAborted else r1))"
proof -
  have w: "cw_target w = target" "cw_sent w = []" using assms(1) by (auto simp: writer_begin_def split: sum.splits)
  obtain w' failed where push: "push_body (\<lambda>n. gone n \<and> writer_refuses target db1) 0 body w = (w', failed)" by fastforce
  then have run': "(r, g') = (if failed then (Inl IngestAborted, writer_abort sha now clock w' (g\<lparr>g_db := db1\<rparr>))
      else writer_finish sha now clock w' (g\<lparr>g_db := db1\<rparr>))"
    using run assms(1) w(1) by (auto simp: write_body_def ingest_body_def)
  show "g' = g\<lparr>g_db := db1\<rparr> \<and> (r = Inl NoBucket \<or> r = Inl IngestAborted)" if "writer_refuses target db1"
    using run' refused_writer [of target "g\<lparr>g_db := db1\<rparr>"] push_body_writer [OF push] that w(1)
    by (auto simp: writer_abort_def writer_finish_def split: if_splits)
  show "\<exists>r1. ingest_writer sha now clock (cw_file_id w) target (body_msgs body) (g\<lparr>g_db := db1\<rparr>) = (r1, g') \<and>
      r = (if Inl () \<in> set body then Inl IngestAborted else r1)" if "\<not> writer_refuses target db1"
  proof -
    have "push_body (\<lambda>_. False) 0 body w = (w', failed)" using push that by simp
    from push_body_stays [OF this] run' w show ?thesis
      by (cases failed) (auto simp: writer_abort_def writer_finish_def intro: prod.collapse [symmetric])
  qed
qed

lemma write_body_begun: "writer_begin target (g_db g) = (Inl e, db1) \<Longrightarrow>
    write_body sha now clock gone target body g = (Inl e, g)"
  by (auto simp: write_body_def writer_begin_def split: sum.splits)

lemma writer_begin_nextval:
  "writer_begin target db = (Inr w, db1) \<longleftrightarrow>
     (\<exists>f. nextval db = Inr (f, db1) \<and> w = \<lparr>cw_file_id = f, cw_target = target, cw_sent = []\<rparr>)"
  by (auto simp: writer_begin_def split: sum.splits)

lemma nextval_gw:
  assumes "gw_ok g" and "nextval (g_db g) = Inr (fid, db1)"
  shows "gw_ok (g\<lparr>g_db := db1\<rparr>)" and "fresh_id db1 fid" and "abs_of db1 = abs_of (g_db g)"
proof -
  have "sys_ok (g_db g, [])" using assms(1) by (simp add: gw_ok_def sys_ok_def)
  note step = nextval_step [OF this assms(2)]
  have "d_objects db1 = d_objects (g_db g)" using assms(2) by (auto simp: nextval_def split: if_splits)
  with assms(1) step(1) show "gw_ok (g\<lparr>g_db := db1\<rparr>)"
    by (auto simp: gw_ok_def sys_ok_def intro: coherent_same)
  show "fresh_id db1 fid" and "abs_of db1 = abs_of (g_db g)" using step by (simp_all add: sys_ok_def)
qed

lemma write_body_ok:
  assumes "gw_ok g" and "fits_file (msgs_bytes (body_msgs body))"
    and "write_body sha now clock gone target body g = (r, g')"
  shows "gw_ok g'"
proof (cases "writer_begin target (g_db g)")
  case (Pair r0 db1)
  show ?thesis
  proof (cases r0)
    case (Inl e)
    with assms Pair show ?thesis by (simp add: write_body_begun)
  next
    case (Inr w)
    with Pair have begun: "writer_begin target (g_db g) = (Inr w, db1)" by simp
    then have nx: "nextval (g_db g) = Inr (cw_file_id w, db1)" by (auto simp: writer_begin_nextval)
    note gw = nextval_gw [OF assms(1) nx]
    show ?thesis
    proof (cases "writer_refuses target db1")
      case True
      with write_body_run(1) [OF begun assms(3)] gw(1) show ?thesis by simp
    next
      case False
      with write_body_run(2) [OF begun assms(3)] obtain r1 where
        "ingest_writer sha now clock (cw_file_id w) target (body_msgs body) (g\<lparr>g_db := db1\<rparr>) = (r1, g')" by blast
      from writer_ok(1) [OF gw(1) _ assms(2) this] gw(2) show ?thesis by simp
    qed
  qed
qed

lemma Inl_Inr_image [simp]: "Inl u \<notin> Inr ` A"
  by auto

text \<open>A whole body that arrives: what \<open>ingest_body\<close> does to an object key.\<close>

lemma write_body_object:
  assumes gw: "gw_ok g" and fits: "fits_file (concat cs)" and id: "d_next_id (g_db g) < 2 ^ 63"
    and bucket: "b \<in> a_buckets (abs_of (g_db g))"
  obtains g' where "write_body sha now clock gone (ToObject b k c) (map Inr cs) g = (Inl PreconditionFailed, g')"
    "\<not> a_allowed c (a_objects (abs_of (g_db g)) (b, k))" "abs_of (g_db g') = abs_of (g_db g)"
  | g' where "write_body sha now clock gone (ToObject b k c) (map Inr cs) g =
      (Inr (int (length (concat cs)), sha (concat cs)), g')"
    "a_allowed c (a_objects (abs_of (g_db g)) (b, k))"
    "abs_of (g_db g') = (abs_of (g_db g))\<lparr>a_objects := (a_objects (abs_of (g_db g)))((b, k) \<mapsto> (concat cs, sha (concat cs)))\<rparr>"
proof -
  obtain fid db1 where nx: "nextval (g_db g) = Inr (fid, db1)" using id by (simp add: nextval_def)
  note gw1 = nextval_gw [OF gw nx]
  have db1: "db_ok db1" using gw1(1) by (simp add: gw_ok_def)
  obtain r g' where run: "write_body sha now clock gone (ToObject b k c) (map Inr cs) g = (r, g')" by fastforce
  have "writer_begin (ToObject b k c) (g_db g) = (Inr \<lparr>cw_file_id = fid, cw_target = ToObject b k c, cw_sent = []\<rparr>, db1)"
    using nx by (simp add: writer_begin_nextval)
  moreover have "\<not> writer_refuses (ToObject b k c) db1" using bucket gw1(3) by (simp add: writer_refuses_def bucket_exists_abs)
  ultimately have "ingest_writer sha now clock fid (ToObject b k c) (map Data cs) (g\<lparr>g_db := db1\<rparr>) = (r, g')"
    using write_body_run(2) [OF _ run] by fastforce
  note writer = this
  show thesis
    by (rule put_tx_outcome [OF db1 gw1(2) fits, of sha now b k c])
      (use bucket gw1(3) run writer that in \<open>auto simp: ingest_writer_def\<close>)
qed

text \<open>A buffered put is the put of its pieces, when the bucket is there.\<close>

lemma put_buffer_pieces:
  assumes "bucket_exists (g_db g) b"
  shows "put_buffer sha now clock gone b k data g =
    write_body sha now clock gone (ToObject b k Unconditional) (map Inr (pieces SEND_BATCH data)) g"
proof -
  have push: "push_body (\<lambda>_. False) n (map Inr cs) w = (w\<lparr>cw_sent := cw_sent w @ map Data cs\<rparr>, False)" for n cs w
    by (induction cs arbitrary: n w) (simp_all add: writer_push_def)
  have "\<not> writer_refuses (cw_target w) db1"
    if "writer_begin (ToObject b k Unconditional) (g_db g) = (Inr w, db1)" for w db1
    using that assms by (auto simp: writer_begin_nextval writer_refuses_def nextval_def bucket_exists_def split: if_splits)
  then show ?thesis
    by (auto simp: put_buffer_def write_body_def ingest_body_def push push_pieces_stays split: prod.split sum.split)
qed

section \<open>Properties of one gateway\<close>

text \<open>The answer GET gives for the bytes and digest of an object.\<close>

definition get_answer :: "byte_range option \<Rightarrow> bytes \<Rightarrow> bytes \<Rightarrow> s3_error + get_output \<Rightarrow> bool" where
  "get_answer rng data digest res =
     (case range_params rng of (first, last', suffix') \<Rightarrow>
      (case eff_range (int (length data)) first last' suffix' of (start, end') \<Rightarrow>
         if data \<noteq> [] \<and> (start > end' \<or> start \<ge> int (length data)) then res = Inl EInvalidRange
         else
           (case res of
              Inl _ \<Rightarrow> False
            | Inr out \<Rightarrow>
                body_bytes (go_body out) = Inr (take (nat (end' - start + 1)) (drop (nat start) data)) \<and>
                go_length out = max (end' - start + 1) 0 \<and> go_etag out = etag_of digest \<and>
                go_range out = (if rng = None then None else Some (start, end', int (length data))))))"

lemma get_answer_whole:
  assumes "get_answer None data digest res"
  obtains out where "res = Inr out" "body_bytes (go_body out) = Inr data" "go_length out = int (length data)"
    "go_etag out = etag_of digest"
  using assms by (cases res) (auto simp: get_answer_def eff_range_def split: if_splits)

lemma stored_length:
  assumes "db_ok db" and "find_object db b k = Some r"
  shows "o_size r = int (length (fst (stored_object db r)))"
proof -
  have "r \<in> set (d_objects db)" using assms by (simp add: find_object_Some [OF db_okD(2) [OF assms(1)]])
  from row_meta_ok [OF assms(1) this] show ?thesis by (simp add: meta_ok_def stored_object_def row_meta_def)
qed

lemma get_object_quiet:
  assumes ok: "db_ok db" and coh: "coherent db c"
  shows "\<exists>res c'. get_object (\<lambda>_. True) (\<lambda>_. db) (\<lambda>_. fetch_part (d_chunks db)) c b k rng = (Some res, c') \<and>
    coherent db c' \<and>
    (case a_objects (abs_of db) (b, k) of
       None \<Rightarrow> res = Inl (if b \<in> a_buckets (abs_of db) then ENoSuchKey else ENoSuchBucket)
     | Some (data, digest) \<Rightarrow> get_answer rng data digest res)"
proof -
  obtain first last' suffix' where params: "range_params rng = (first, last', suffix')" by (cases "range_params rng")
  show ?thesis
  proof (cases "find_object db b k")
    case None
    obtain c' where "get_body (\<lambda>_. True) (\<lambda>_. db) (\<lambda>_. fetch_part (d_chunks db)) c b k first last' suffix' = (Some GetNone, c')"
      "coherent db c'" using get_body_missing [OF coh None] by blast
    with None show ?thesis
      by (simp add: get_object_def params missing_key_def bucket_exists_abs) (simp add: abs_of_def)
  next
    case (Some r)
    obtain start end' where range: "eff_range (o_size r) first last' suffix' = (start, end')" by fastforce
    obtain sm body c' where get: "get_body (\<lambda>_. True) (\<lambda>_. db) (\<lambda>_. fetch_part (d_chunks db)) c b k first last' suffix' =
        (Some (GetBody sm body), c')" "coherent db c'" "s_size sm = o_size r" "s_etag sm = o_etag r"
      "s_start sm = start" "s_end sm = end'"
      "body_bytes body = Inr (take (nat (end' - start + 1)) (drop (nat start) (fst (stored_object db r))))"
      using get_body_present [OF ok coh Some range, of "\<lambda>_. True"] by auto
    note size = stored_length [OF ok Some]
    have obj: "a_objects (abs_of db) (b, k) = Some (fst (stored_object db r), o_etag r)"
      by (simp add: abs_of_def Some) (simp add: stored_object_def)
    show ?thesis
      using get range by (auto simp: get_object_def params obj get_answer_def size slice_len_def)
  qed
qed

text \<open>
  C4. GET on a gateway whose database is quiet is exact. It never panics; a missing
  key answers NoSuchKey, in a missing bucket NoSuchBucket; an unsatisfiable range
  of a non-empty object InvalidRange; anything else the bytes of the effective
  range with their length and the object's ETag. The cache stays coherent.
\<close>

theorem get_object_exact:
  assumes "gw_ok g"
  shows "\<exists>res c'. get_object (\<lambda>_. True) (\<lambda>_. g_db g) (\<lambda>_. fetch_part (d_chunks (g_db g))) (g_cache g) b k rng =
      (Some res, c') \<and> gw_ok (g\<lparr>g_cache := c'\<rparr>) \<and>
    (case a_objects (abs_of (g_db g)) (b, k) of
       None \<Rightarrow> res = Inl (if b \<in> a_buckets (abs_of (g_db g)) then ENoSuchKey else ENoSuchBucket)
     | Some (data, digest) \<Rightarrow> get_answer rng data digest res)"
  using get_object_quiet [of "g_db g" "g_cache g" b k rng] assms by (auto simp: gw_ok_def)

definition sample_gw :: gateway where
  "sample_gw = \<lparr>g_db = sample_db, g_cache = cache_empty\<rparr>"

lemma sample_gw_ok: "gw_ok sample_gw"
  using sample_ok(1) cache_inv_empty
  by (simp add: gw_ok_def sample_gw_def coherent_def mc.entries_def meta_get_def cache_empty_def)

theorem get_object_exact_witness:
  "\<exists>out c'. get_object (\<lambda>_. True) (\<lambda>_. sample_db) (\<lambda>_. fetch_part (d_chunks sample_db)) cache_empty [98] [107]
      (Some (RangeInt 1 None)) = (Some (Inr out), c') \<and> body_bytes (go_body out) = Inr [11]"
proof -
  obtain res c' where get: "get_object (\<lambda>_. True) (\<lambda>_. sample_db) (\<lambda>_. fetch_part (d_chunks sample_db)) cache_empty
      [98] [107] (Some (RangeInt 1 None)) = (Some res, c')"
    and answer: "get_answer (Some (RangeInt 1 None)) [10, 11] [171] res"
    using get_object_exact [OF sample_gw_ok, of "[98]" "[107]" "Some (RangeInt 1 None)"]
    by (auto simp: sample_gw_def sample_abs)
  from answer obtain out where "res = Inr out" "body_bytes (go_body out) = Inr [11]"
    by (cases res) (auto simp: get_answer_def eff_range_def)
  with get show ?thesis by blast
qed

text \<open>
  C17. PUT through a gateway with a free file id answers exactly: a malformed
  condition InvalidRequest, a missing bucket NoSuchBucket, a condition the current
  object does not meet PreconditionFailed, each leaving every object as it was;
  otherwise the ETag of the body, which the key now maps to. The gateway's
  invariant holds afterwards.
\<close>

theorem put_object_exact:
  assumes "gw_ok g" and "fits_file (concat cs)" and "d_next_id (g_db g) < 2 ^ 63"
  shows "case put_object sha now clock gone im inm b k (Some (map Inr cs)) g of (res, g') \<Rightarrow> gw_ok g' \<and>
    (case put_condition_of im inm of
       None \<Rightarrow> res = Inl EInvalidRequest \<and> g' = g
     | Some c \<Rightarrow>
         if b \<notin> a_buckets (abs_of (g_db g)) then res = Inl ENoSuchBucket \<and> g' = g
         else if \<not> a_allowed c (a_objects (abs_of (g_db g)) (b, k))
         then res = Inl EPreconditionFailed \<and> abs_of (g_db g') = abs_of (g_db g)
         else res = Inr (etag_of (sha (concat cs))) \<and>
           abs_of (g_db g') = (abs_of (g_db g))\<lparr>a_objects :=
             (a_objects (abs_of (g_db g)))((b, k) \<mapsto> (concat cs, sha (concat cs)))\<rparr>)"
proof (cases "put_condition_of im inm")
  case None
  then show ?thesis using assms(1) by (simp add: put_object_def)
next
  case (Some c)
  show ?thesis
  proof (cases "b \<in> a_buckets (abs_of (g_db g))")
    case False
    with Some assms(1) show ?thesis by (simp add: put_object_def bucket_exists_abs)
  next
    case True
    obtain r g' where run: "write_body sha now clock gone (ToObject b k c) (map Inr cs) g = (r, g')" by fastforce
    have "gw_ok g'" by (rule write_body_ok [OF assms(1) _ run]) (simp add: assms(2))
    then show ?thesis
      using Some True run
      by (cases rule: write_body_object [OF assms True, of sha now clock gone k c])
        (auto simp: put_object_def bucket_exists_abs)
  qed
qed

theorem put_object_exact_witness:
  "\<exists>g'. put_object (\<lambda>b. b) 1 1 (\<lambda>_. True) None (Some CondAny) [98] [122] (Some (map Inr [[5], [6]])) sample_gw =
      (Inr (Strong (hex [5, 6])), g') \<and> a_objects (abs_of (g_db g')) ([98], [122]) = Some ([5, 6], [5, 6])"
proof -
  obtain res g' where run: "put_object (\<lambda>b. b) 1 1 (\<lambda>_. True) None (Some CondAny) [98] [122] (Some (map Inr [[5], [6]])) sample_gw = (res, g')"
    by fastforce
  have "d_next_id (g_db sample_gw) < 2 ^ 63" by (simp add: sample_gw_def sample_db_def)
  from put_object_exact [OF sample_gw_ok _ this, where cs = "[[5], [6]]" and sha = "\<lambda>b. b" and now = 1 and clock = 1
      and gone = "\<lambda>_. True" and im = None and inm = "Some CondAny" and b = "[98]" and k = "[122]", unfolded run]
  have "res = Inr (Strong (hex [5, 6])) \<and> a_objects (abs_of (g_db g')) ([98], [122]) = Some ([5, 6], [5, 6])"
    by (simp add: fits_file_def ROW_BYTES_def put_condition_of_def a_allowed_def sample_gw_def sample_abs etag_of_def)
  with run show ?thesis by blast
qed

text \<open>The state after a PUT that succeeded, without its preconditions spelled out.\<close>

lemma put_object_success:
  assumes gw: "gw_ok g" and fits: "fits_file (concat cs)"
    and run: "put_object sha now clock gone im inm b k (Some (map Inr cs)) g = (Inr e, g')"
  shows "gw_ok g'" and "e = etag_of (sha (concat cs))"
    and "a_objects (abs_of (g_db g')) (b, k) = Some (concat cs, sha (concat cs))"
proof -
  obtain c where c: "put_condition_of im inm = Some c" and b: "b \<in> a_buckets (abs_of (g_db g))"
    using run by (cases "put_condition_of im inm") (auto simp: put_object_def bucket_exists_abs split: if_splits)
  then obtain n d where body: "write_body sha now clock gone (ToObject b k c) (map Inr cs) g = (Inr (n, d), g')"
    and e: "e = etag_of d"
    using run by (auto simp: put_object_def bucket_exists_abs split: prod.splits sum.splits db_error.splits if_splits)
  have id: "d_next_id (g_db g) < 2 ^ 63"
    using body by (simp add: write_body_def writer_begin_def nextval_def split: if_splits)
  show "gw_ok g'" by (rule write_body_ok [OF gw _ body]) (simp add: fits)
  show "e = etag_of (sha (concat cs))"
    and "a_objects (abs_of (g_db g')) (b, k) = Some (concat cs, sha (concat cs))"
    by (rule write_body_object [OF gw fits id b, of sha now clock gone k c]; use body e in simp)+
qed

text \<open>
  C3. Read your writes. After a PUT that answered an ETag, GET of the key through the
  same gateway returns exactly the body that was sent, however it was cut into
  chunks, under that ETag and with its length.
\<close>

theorem read_after_write:
  assumes "gw_ok g" and "fits_file (concat cs)"
    and "put_object sha now clock gone im inm b k (Some (map Inr cs)) g = (Inr e, g')"
  shows "\<exists>out c'. get_object (\<lambda>_. True) (\<lambda>_. g_db g') (\<lambda>_. fetch_part (d_chunks (g_db g'))) (g_cache g') b k None =
      (Some (Inr out), c') \<and>
    body_bytes (go_body out) = Inr (concat cs) \<and> go_length out = int (length (concat cs)) \<and> go_etag out = e"
proof -
  note put = put_object_success [OF assms]
  obtain res c' where get: "get_object (\<lambda>_. True) (\<lambda>_. g_db g') (\<lambda>_. fetch_part (d_chunks (g_db g'))) (g_cache g') b k None =
      (Some res, c')" and answer: "get_answer None (concat cs) (sha (concat cs)) res"
    using get_object_quiet [of "g_db g'" "g_cache g'" b k None] put(1,3) by (auto simp: gw_ok_def)
  from get_answer_whole [OF answer] obtain out where "res = Inr out" "body_bytes (go_body out) = Inr (concat cs)"
    "go_length out = int (length (concat cs))" "go_etag out = e" by (auto simp: put(2))
  with get show ?thesis by blast
qed

theorem read_after_write_witness:
  "\<exists>e g' out c'. put_object (\<lambda>b. b) 1 1 (\<lambda>_. True) None None [98] [122] (Some (map Inr [[5], [6]])) sample_gw = (Inr e, g') \<and>
    get_object (\<lambda>_. True) (\<lambda>_. g_db g') (\<lambda>_. fetch_part (d_chunks (g_db g'))) (g_cache g') [98] [122] None = (Some (Inr out), c') \<and>
    body_bytes (go_body out) = Inr [5, 6] \<and> go_etag out = e"
proof -
  have fits: "fits_file (concat [[5], [6]])" by (simp add: fits_file_def ROW_BYTES_def)
  have "d_next_id (g_db sample_gw) < 2 ^ 63" "[98] \<in> a_buckets (abs_of (g_db sample_gw))"
    by (simp_all add: sample_gw_def sample_abs) (simp add: sample_db_def)
  then have "\<exists>g'. put_object (\<lambda>b. b) 1 1 (\<lambda>_. True) None None [98] [122] (Some (map Inr [[5], [6]])) sample_gw =
      (Inr (etag_of [5, 6]), g')"
    by (cases rule: write_body_object [OF sample_gw_ok fits, of "[98]" "\<lambda>b. b" 1 1 "\<lambda>_. True" "[122]" Unconditional])
      (auto simp: put_object_def put_condition_of_def bucket_exists_abs a_allowed_def)
  then obtain g' where put: "put_object (\<lambda>b. b) 1 1 (\<lambda>_. True) None None [98] [122] (Some (map Inr [[5], [6]])) sample_gw =
      (Inr (etag_of [5, 6]), g')" by blast
  from read_after_write [OF sample_gw_ok fits put] put show ?thesis by auto
qed

text \<open>
  C32. A PUT that is cancelled halfway is published. If the request is dropped after the
  writer took the first \<open>n\<close> chunks of its body, the key maps to those chunks, under
  their digest, as if they had been the whole object.
\<close>

theorem dropped_put_publishes_prefix:
  assumes "gw_ok g" and "fits_file (concat (take n cs))" and "b \<in> a_buckets (abs_of (g_db g))"
    and "a_allowed c (a_objects (abs_of (g_db g)) (b, k))"
    and "writer_begin (ToObject b k c) (g_db g) = (Inr w, db1)"
    and "push_body (\<lambda>_. False) 0 (map Inr (take n cs)) w = (w', failed)"
  shows "a_objects (abs_of (g_db (writer_drop sha now clock w' (g\<lparr>g_db := db1\<rparr>)))) (b, k) =
    Some (concat (take n cs), sha (concat (take n cs)))"
proof -
  have nx: "nextval (g_db g) = Inr (cw_file_id w, db1)" and w: "cw_target w = ToObject b k c" "cw_sent w = []"
    using assms(5) by (auto simp: writer_begin_nextval)
  then have id: "d_next_id (g_db g) < 2 ^ 63" by (simp add: nextval_def split: if_splits)
  obtain r g' where run: "write_body sha now clock (\<lambda>_. False) (ToObject b k c) (map Inr (take n cs)) g = (r, g')" by fastforce
  have "writer_drop sha now clock w' (g\<lparr>g_db := db1\<rparr>) = g'"
    using run assms(5,6) push_body_stays [OF assms(6)]
    by (auto simp: write_body_def ingest_body_def writer_drop_def writer_finish_def split: bool.splits)
  then show ?thesis
    by (cases rule: write_body_object [OF assms(1,2) id assms(3), of sha now clock "\<lambda>_. False" k c])
      (use run assms(4) in auto)
qed

theorem dropped_put_publishes_prefix_witness:
  "\<exists>w db1 w' failed. writer_begin (ToObject [98] [122] Unconditional) (g_db sample_gw) = (Inr w, db1) \<and>
    push_body (\<lambda>_. False) 0 (map Inr (take 1 [[5], [6]])) w = (w', failed) \<and>
    a_objects (abs_of (g_db (writer_drop (\<lambda>b. b) 1 1 w' (sample_gw\<lparr>g_db := db1\<rparr>)))) ([98], [122]) = Some ([5], [5])"
proof -
  have "d_next_id (g_db sample_gw) = 5" and b: "[98] \<in> a_buckets (abs_of (g_db sample_gw))"
    by (simp_all add: sample_gw_def sample_abs) (simp add: sample_db_def)
  then obtain w db1 where begun: "writer_begin (ToObject [98] [122] Unconditional) (g_db sample_gw) = (Inr w, db1)"
    by (simp add: writer_begin_def nextval_def)
  obtain w' failed where push: "push_body (\<lambda>_. False) 0 (map Inr (take 1 [[5 :: byte], [6]])) w = (w', failed)" by fastforce
  from dropped_put_publishes_prefix [OF sample_gw_ok _ b _ begun push, of "\<lambda>b. b" 1 1] begun push
  show ?thesis by (auto simp: fits_file_def ROW_BYTES_def a_allowed_def)
qed

section \<open>Buffered reads\<close>

lemma get_slice_quiet:
  assumes ok: "db_ok db" and coh: "coherent db c" and obj: "find_object db b k = Some r"
    and rng: "eff_range (o_size r) first last' suffix' = (start, end')"
  obtains sl c' where "get_slice (\<lambda>_. True) (\<lambda>_. db) (\<lambda>_. fetch_part (d_chunks db)) c b k first last' suffix' =
      (Some (Inr (Some sl)), c')" "coherent db c'" "sl_size sl = o_size r" "sl_etag sl = o_etag r"
    "sl_start sl = start" "sl_end sl = end'"
    "sl_bytes sl = take (nat (end' - start + 1)) (drop (nat start) (fst (stored_object db r)))"
proof -
  have "\<forall>n. (\<lambda>_ :: nat. True) n" by simp
  then show thesis
    using get_body_present [OF ok coh obj rng, of "\<lambda>_. True"] that by (fastforce simp: get_slice_def)
qed

section \<open>Reads while other gateways write\<close>

lemma attempt_never_wrong:
  assumes run: "get_attempt i (\<lambda>_. True) db fetch c b k first last' suffix' = (Some (GetBody sm body), c')"
    and ok: "\<And>m. meta_get c (b, k) = Some m \<or> (\<exists>r. find_object db b k = Some r \<and> m = row_meta r) \<Longrightarrow> meta_ok content m"
    and rows: "\<And>p. rows_from content p (fetch p)" and body: "body_bytes body = Inr bs"
  shows "\<exists>m. (meta_get c (b, k) = Some m \<or> (\<exists>r. find_object db b k = Some r \<and> m = row_meta r)) \<and>
    s_size sm = m_size m \<and> s_etag sm = m_etag m \<and>
    (s_start sm, s_end sm) = eff_range (m_size m) first last' suffix' \<and>
    bs = slice_of content m (s_start sm) (s_end sm)"
proof -
  obtain mo c1 where look: "meta_lookup db c b k = (mo, c1)" by fastforce
  with run obtain m where mo: "mo = Some m" by (cases mo) (auto simp: get_attempt_def)
  have known: "meta_get c (b, k) = Some m \<or> (\<exists>r. find_object db b k = Some r \<and> m = row_meta r)"
    using look mo by (auto simp: meta_lookup_def meta_fresh_def split: option.splits)
  obtain start end' where rng: "eff_range (m_size m) first last' suffix' = (start, end')" by fastforce
  have "attempt_with i (\<lambda>_. True) fetch m (start, end') = Some (GetBody sm body)"
    by (rule get_attempt_with [OF look [unfolded mo], of i "\<lambda>_. True" fetch first last' suffix'])
      (use run rng in simp)
  from attempt_with_body [OF ok [OF known] _ _ _ _ this body] eff_range_bounds [OF rng] rows known rng
  show ?thesis by (intro exI [of _ m]) simp
qed

lemma attempt_retry:
  assumes "get_attempt i accepts db fetch c b k first last' suffix' = (None, c')" and "cache_inv c"
  shows "meta_get c' (b, k) = None"
proof -
  obtain mo c0 where look: "meta_lookup db c b k = (mo, c0)" by fastforce
  with assms(1) obtain m where mo: "mo = Some m" by (cases mo) (auto simp: get_attempt_def)
  have "c' = meta_invalidate c0 (b, k)"
    by (rule get_attempt_with [OF look [unfolded mo], of i accepts fetch first last' suffix']) (use assms(1) in simp)
  then show ?thesis by (simp add: mc.get_invalidate)
qed

text \<open>
  A read never serves wrong bytes. Let \<open>content\<close> give the bytes of every file id
  ever handed out. If the cached entry and the rows both attempts find describe
  files of \<open>content\<close>, and every row a query returns, missing or reordered rows and
  errors included, is a row of its file, then a response that ends without an
  error carries exactly the requested range of one version of the object that was
  cached or stored, under that version's size and digest.
\<close>

theorem get_body_never_wrong:
  assumes "\<And>m. meta_get c (b, k) = Some m \<Longrightarrow> meta_ok content m"
    and "\<And>i r. find_object (dbs i) b k = Some r \<Longrightarrow> meta_ok content (row_meta r)"
    and "\<And>i p. rows_from content p (fetch i p)" and "cache_inv c"
    and "get_body (\<lambda>_. True) dbs fetch c b k first last' suffix' = (Some (GetBody sm body), c')"
    and "body_bytes body = Inr bs"
  shows "\<exists>m. (meta_get c (b, k) = Some m \<or> (\<exists>i r. find_object (dbs i) b k = Some r \<and> m = row_meta r)) \<and>
    s_size sm = m_size m \<and> s_etag sm = m_etag m \<and>
    (s_start sm, s_end sm) = eff_range (m_size m) first last' suffix' \<and>
    bs = slice_of content m (s_start sm) (s_end sm)"
proof -
  obtain o1 c1 where first_try: "get_attempt 0 (\<lambda>_. True) (dbs 0) (fetch 0) c b k first last' suffix' = (o1, c1)"
    by fastforce
  show ?thesis
  proof (cases o1)
    case (Some res)
    with first_try assms(5) have "get_attempt 0 (\<lambda>_. True) (dbs 0) (fetch 0) c b k first last' suffix' =
        (Some (GetBody sm body), c')" by (simp add: get_body_def)
    from attempt_never_wrong [OF this _ assms(3,6)] assms(1,2) show ?thesis by blast
  next
    case None
    with first_try assms(5) have "get_attempt 1 (\<lambda>_. True) (dbs 1) (fetch 1) c1 b k first last' suffix' =
        (Some (GetBody sm body), c')" by (simp add: get_body_def)
    from attempt_never_wrong [OF this _ assms(3,6)] attempt_retry [OF first_try [unfolded None] assms(4)] assms(2)
    show ?thesis by (metis option.distinct(1))
  qed
qed

theorem get_body_never_wrong_witness:
  "\<exists>sm body c'. get_body (\<lambda>_. True) (\<lambda>_. db_empty) (\<lambda>_. fetch_down sample_content)
      (meta_put cache_empty ([98], [107]) sample_meta) [98] [107] 1 3 (-1) = (Some (GetBody sm body), c') \<and>
    s_size sm = 5 \<and> body_bytes body = Inr [11, 12, 13]"
proof -
  let ?c = "meta_put cache_empty ([98], [107]) sample_meta :: cache"
  have c: "meta_get ?c ([98], [107]) = Some sample_meta" "cache_inv ?c"
    by (simp_all add: mc.get_put_same mc.inv_put cache_inv_empty)
  have size: "m_size sample_meta = 5" by (simp add: sample_meta_def)
  have rng: "eff_range (m_size sample_meta) 1 3 (-1) = (1, 3)" by (simp add: eff_range_def size)
  obtain body where body: "attempt_with 0 (\<lambda>_. True) (fetch_down sample_content) sample_meta (1, 3) =
      Some (GetBody \<lparr>s_size = m_size sample_meta, s_etag = m_etag sample_meta, s_created = m_created sample_meta,
        s_file_id = m_file_id sample_meta, s_start = 1, s_end = 3\<rparr> body)"
    "body_bytes body = Inr (slice_of sample_content sample_meta 1 3)"
    using attempt_with_complete [OF sample_meta_ok, of 1 3 "fetch_down sample_content" "\<lambda>_. True" 0] fetch_down_rows
    by (auto simp: size)
  have "meta_lookup db_empty ?c [98] [107] = (Some sample_meta, ?c)" by (simp add: meta_lookup_def c)
  then obtain c' where "get_attempt 0 (\<lambda>_. True) db_empty (fetch_down sample_content) ?c [98] [107] 1 3 (-1) =
      (attempt_with 0 (\<lambda>_. True) (fetch_down sample_content) sample_meta (1, 3), c')"
    by (rule get_attempt_with [of db_empty ?c "[98]" "[107]" sample_meta ?c 0 "\<lambda>_. True" "fetch_down sample_content" 1 3 "-1",
          unfolded rng]) blast
  then obtain sm where get: "get_body (\<lambda>_. True) (\<lambda>_. db_empty) (\<lambda>_. fetch_down sample_content) ?c [98] [107] 1 3 (-1) =
      (Some (GetBody sm body), c')"
    unfolding body(1) by (simp add: get_body_def)
  have none: "find_object db_empty [98] [107] = None" by (simp add: find_object_def db_empty_def)
  have "\<exists>m. (meta_get ?c ([98], [107]) = Some m \<or> (\<exists>(i :: nat) r. find_object db_empty [98] [107] = Some r \<and> m = row_meta r)) \<and>
      s_size sm = m_size m \<and> s_etag sm = m_etag m \<and> (s_start sm, s_end sm) = eff_range (m_size m) 1 3 (-1) \<and>
      slice_of sample_content sample_meta 1 3 = slice_of sample_content m (s_start sm) (s_end sm)"
    by (rule get_body_never_wrong [where dbs = "\<lambda>_. db_empty" and fetch = "\<lambda>_. fetch_down sample_content",
          OF _ _ _ c(2) get body(2)]) (use c none fetch_down_rows sample_meta_ok in auto)
  moreover have "slice_of sample_content sample_meta 1 3 = [11, 12, 13]"
    by (simp add: slice_of_def object_bytes_def sample_content_def sample_meta_def segments_def)
  ultimately show ?thesis using get body(2) c none size by auto
qed

lemma stale_attempt:
  assumes stale: "meta_get c (b, k) = Some m" and described: "meta_ok content m" and nonempty: "0 < m_size m"
    and gone: "\<forall>f \<in> fst ` set (segments m). no_file (d_chunks db) f"
  shows "get_attempt 0 (\<lambda>_. True) db (fetch_part (d_chunks db)) c b k first last' suffix' = (None, meta_invalidate c (b, k))"
proof -
  let ?fetch = "fetch_part (d_chunks db)"
  have look: "meta_lookup db c b k = (Some m, c)" by (simp add: meta_lookup_def stale)
  obtain start end' where range: "eff_range (m_size m) first last' suffix' = (start, end')" by fastforce
  have "attempt_with 0 (\<lambda>_. True) ?fetch m (start, end') = None"
  proof (cases "start > end' \<or> start \<ge> m_size m")
    case True
    with nonempty show ?thesis by (simp add: attempt_with_def)
  next
    case False
    have "?fetch p = []" if "p \<in> set (plan m start end' PART_ROWS)" for p
    proof -
      have "no_file (d_chunks db) (p_file_id p)" using gone plan_file [OF that] by blast
      then show ?thesis by (simp add: fetch_part_def select_range_def no_file_iff filter_empty_conv)
    qed
    then obtain e where "span_msgs (stream_span (\<lambda>n. n = 0 \<or> True) ?fetch m start end') = [Inl e]"
      using span_rows_gone [OF described, of start end' ?fetch] False eff_range_bounds [OF range] by fastforce
    with False show ?thesis by (simp add: attempt_with_def Let_def slice_len_def)
  qed
  then show ?thesis
    by - (rule get_attempt_with [OF look, of 0 "\<lambda>_. True" ?fetch first last' suffix'], use range in auto)
qed

text \<open>The second attempt, with nothing cached.\<close>

lemma uncached_attempt:
  assumes ok: "db_ok db" and miss: "meta_get c (b, k) = None"
    and obj: "find_object db b k = Some r" and rng: "eff_range (o_size r) first last' suffix' = (s, e)"
  obtains sm body c' where "get_attempt 1 (\<lambda>_. True) db (fetch_part (d_chunks db)) c b k first last' suffix' =
      (Some (GetBody sm body), c')" and "s_size sm = o_size r" and "s_etag sm = o_etag r" and "s_start sm = s" and "s_end sm = e"
    and "body_bytes body = Inr (take (nat (e - s + 1)) (drop (nat s) (fst (stored_object db r))))"
proof -
  have "meta_lookup db c b k = (Some (row_meta r), meta_put c (b, k) (row_meta r))"
    by (simp add: meta_lookup_def meta_fresh_def miss obj)
  moreover have "describes db (b, k) (row_meta r)" by (simp add: describes_def obj row_meta_def)
  ultimately show thesis
    using attempt_described [OF ok _ _ obj rng, of "row_meta r" c _ "\<lambda>_. True" 1] that by auto
qed

text \<open>
  C18. A stale entry does not stick. If another gateway replaced or deleted the key,
  so that the files of the cached, non-empty version are gone, one GET answers as
  if nothing had been cached: the current bytes, or the missing key.
\<close>

theorem stale_entry_recovers:
  assumes ok: "db_ok db" and inv: "cache_inv c" and stale: "meta_get c (b, k) = Some m"
    and described: "meta_ok content m" and nonempty: "0 < m_size m"
    and gone: "\<forall>f \<in> fst ` set (segments m). no_file (d_chunks db) f"
  shows "\<exists>res c'. get_object (\<lambda>_. True) (\<lambda>_. db) (\<lambda>_. fetch_part (d_chunks db)) c b k rng = (Some res, c') \<and>
    (case a_objects (abs_of db) (b, k) of
       None \<Rightarrow> res = Inl (if b \<in> a_buckets (abs_of db) then ENoSuchKey else ENoSuchBucket)
     | Some (data, digest) \<Rightarrow> get_answer rng data digest res)"
proof -
  obtain first last' suffix' where params: "range_params rng = (first, last', suffix')" by (cases "range_params rng")
  let ?c1 = "meta_invalidate c (b, k)"
  note first_try = stale_attempt [OF stale described nonempty gone, of first last' suffix']
  have miss: "meta_get ?c1 (b, k) = None" by (simp add: mc.get_invalidate)
  show ?thesis
  proof (cases "find_object db b k")
    case None
    with miss first_try show ?thesis
      by (simp add: get_object_def params get_body_def get_attempt_def meta_lookup_def meta_fresh_def
          missing_key_def bucket_exists_abs) (simp add: abs_of_def)
  next
    case (Some r)
    obtain s e where rng: "eff_range (o_size r) first last' suffix' = (s, e)" by fastforce
    have obj: "a_objects (abs_of db) (b, k) = Some (fst (stored_object db r), o_etag r)"
      by (simp add: abs_of_def Some) (simp add: stored_object_def)
    obtain sm body c' where "get_attempt 1 (\<lambda>_. True) db (fetch_part (d_chunks db)) ?c1 b k first last' suffix' =
        (Some (GetBody sm body), c')" "s_size sm = o_size r" "s_etag sm = o_etag r" "s_start sm = s" "s_end sm = e"
      "body_bytes body = Inr (take (nat (e - s + 1)) (drop (nat s) (fst (stored_object db r))))"
      by (rule uncached_attempt [OF ok miss Some rng])
    with first_try rng show ?thesis
      by (auto simp: get_object_def get_body_def params obj get_answer_def stored_length [OF ok Some] slice_len_def)
  qed
qed

theorem stale_entry_recovers_witness:
  "\<exists>out c'. get_object (\<lambda>_. True) (\<lambda>_. sample_db) (\<lambda>_. fetch_part (d_chunks sample_db))
      (meta_put cache_empty ([98], [107]) \<lparr>m_size = 1, m_etag = [9], m_created = 0, m_file_id = 4,
        m_parts = None, m_part_ends = None\<rparr>) [98] [107] None = (Some (Inr out), c') \<and>
    body_bytes (go_body out) = Inr [10, 11]"
proof -
  let ?m = "\<lparr>m_size = 1, m_etag = [9], m_created = 0, m_file_id = 4, m_parts = None, m_part_ends = None\<rparr>"
  let ?c = "meta_put cache_empty ([98], [107]) ?m :: cache"
  have seg: "segments ?m = [(4, 0, 1)]" by (simp add: segments_def)
  have c: "meta_get ?c ([98], [107]) = Some ?m" "cache_inv ?c"
    by (simp_all add: mc.get_put_same mc.inv_put cache_inv_empty)
  have ok: "meta_ok (\<lambda>_. [9]) ?m"
    by (simp add: meta_ok_def object_bytes_def segments_def fits_file_def ROW_BYTES_def)
  have gone: "\<forall>f \<in> fst ` set (segments ?m). no_file (d_chunks sample_db) f"
    by (simp add: seg no_file_iff) (simp add: sample_db_def)
  obtain res c' where get: "get_object (\<lambda>_. True) (\<lambda>_. sample_db) (\<lambda>_. fetch_part (d_chunks sample_db)) ?c
      [98] [107] None = (Some res, c')" and answer: "get_answer None [10, 11] [171] res"
    using stale_entry_recovers [OF sample_ok(1) c(2,1) ok _ gone, of None] by (auto simp: sample_abs)
  from answer obtain out where "res = Inr out" "body_bytes (go_body out) = Inr [10, 11]"
    by (cases res) (auto simp: get_answer_def eff_range_def)
  with get show ?thesis by blast
qed

text \<open>
  Unless the stale version was empty. Then there are no rows to be missing, and
  GET quietly answers the old empty body under the old ETag, whatever the database
  now holds, even after the key was deleted.
\<close>

theorem stale_empty_entry_served:
  assumes "meta_get c (b, k) = Some m" and "m_size m = 0"
  shows "get_object accepts dbs fetch c b k None =
    (Some (Inr \<lparr>go_body = OneShot [], go_length = 0, go_range = None, go_etag = etag_of (m_etag m),
       go_modified = m_created m\<rparr>), c)"
  using assms
  by (simp add: get_object_def get_body_def get_attempt_def meta_lookup_def eff_range_def Let_def slice_len_def)

theorem stale_empty_entry_served_witness:
  "\<exists>out. get_object (\<lambda>_. True) (\<lambda>_. sample_db) (\<lambda>_. fetch_part (d_chunks sample_db))
      (meta_put cache_empty ([98], [107]) \<lparr>m_size = 0, m_etag = [9], m_created = 0, m_file_id = 4,
        m_parts = None, m_part_ends = None\<rparr>) [98] [107] None =
    (Some (Inr out), meta_put cache_empty ([98], [107]) \<lparr>m_size = 0, m_etag = [9], m_created = 0, m_file_id = 4,
        m_parts = None, m_part_ends = None\<rparr>) \<and>
    body_bytes (go_body out) = Inr [] \<and> go_etag out = Strong (hex [9]) \<and>
    a_objects (abs_of sample_db) ([98], [107]) = Some ([10, 11], [171])"
  using stale_empty_entry_served [OF mc.get_put_same [OF cache_inv_empty]]
  by (simp add: etag_of_def body_bytes_def sample_abs)

section \<open>Deletions and completions through a gateway\<close>

lemma delete_key_ok:
  assumes "gw_ok g"
  shows "gw_ok (snd (delete_key b k g))"
    and "abs_of (g_db (snd (delete_key b k g))) =
      (abs_of (g_db g))\<lparr>a_objects := (a_objects (abs_of (g_db g)))((b, k) := None)\<rparr>"
proof -
  have ok: "db_ok (g_db g)" and coh: "coherent (g_db g) (g_cache g)" using assms by (simp_all add: gw_ok_def)
  obtain db' where db': "delete_tx b k (g_db g) = (find_object (g_db g) b k \<noteq> None, db')" "db_ok db'"
    "abs_of db' = (abs_of (g_db g))\<lparr>a_objects := (a_objects (abs_of (g_db g)))((b, k) := None)\<rparr>"
    by (rule delete_tx_spec [OF ok])
  have "coherent db' (meta_invalidate (g_cache g) (b, k))"
    using coherent_drop [OF coh] find_delete_other [of _ _ b k "g_db g"] by (simp add: db'(1))
  with db' show "gw_ok (snd (delete_key b k g))"
    and "abs_of (g_db (snd (delete_key b k g))) =
      (abs_of (g_db g))\<lparr>a_objects := (a_objects (abs_of (g_db g)))((b, k) := None)\<rparr>"
    by (simp_all add: delete_key_def gw_ok_def)
qed

lemma delete_all_ok:
  "gw_ok g \<Longrightarrow> gw_ok (delete_all b ks g) \<and>
    abs_of (g_db (delete_all b ks g)) = (abs_of (g_db g))\<lparr>a_objects :=
      (\<lambda>bk. if fst bk = b \<and> snd bk \<in> set ks then None else a_objects (abs_of (g_db g)) bk)\<rparr>"
proof (induction b ks g rule: delete_all.induct)
  case (2 b k ks g)
  note del = delete_key_ok [OF "2.prems", of b k]
  have eq: "(\<lambda>bk. if fst bk = b \<and> snd bk \<in> set ks then None else if bk = (b, k) then None else a_objects (abs_of (g_db g)) bk) =
      (\<lambda>bk. if fst bk = b \<and> (snd bk = k \<or> snd bk \<in> set ks) then None else a_objects (abs_of (g_db g)) bk)"
    by (auto simp: fun_eq_iff)
  show ?case using "2.IH" [OF del(1)] by (simp add: del(2) cong: if_cong) (simp only: eq)
qed simp

text \<open>
  C30. A batch deletion is validated before it deletes: if the bucket is missing, the
  batch has more than 1000 entries or any entry carries a version or a condition,
  it is refused with the error of that case and nothing changes; in all other cases exactly
  the named keys are gone afterwards, and the gateway's invariant holds.
\<close>

theorem delete_objects_all_or_nothing:
  assumes "gw_ok g"
  shows "case delete_objects quiet b objects g of
      (Inl e, g') \<Rightarrow> g' = g \<and>
        (e = ENoSuchBucket \<and> b \<notin> a_buckets (abs_of (g_db g)) \<or> e = EInvalidRequest \<and> 1000 < length objects \<or>
         e = ENotImplemented \<and> (\<exists>x \<in> set objects. snd x))
    | (Inr ks, g') \<Rightarrow> b \<in> a_buckets (abs_of (g_db g)) \<and> length objects \<le> 1000 \<and> \<not> (\<exists>x \<in> set objects. snd x) \<and> ks = (if quiet then [] else map fst objects) \<and> gw_ok g' \<and>
        abs_of (g_db g') = (abs_of (g_db g))\<lparr>a_objects :=
          (\<lambda>bk. if fst bk = b \<and> snd bk \<in> fst ` set objects then None else a_objects (abs_of (g_db g)) bk)\<rparr>"
  using delete_all_ok [OF assms, of b "map fst objects"]
  by (simp add: delete_objects_def bucket_exists_abs list_ex_iff)

theorem delete_objects_all_or_nothing_witness:
  "\<exists>g'. delete_objects False [98] [([107], False), ([122], False)] sample_gw = (Inr [[107], [122]], g') \<and>
    a_objects (abs_of (g_db g')) ([98], [107]) = None"
proof -
  obtain g' where run: "delete_objects False [98] [([107], False), ([122], False)] sample_gw = (Inr [[107], [122]], g')"
    by (simp add: delete_objects_def sample_gw_def bucket_exists_abs sample_abs)
  with delete_objects_all_or_nothing [OF sample_gw_ok, where quiet = False and b = "[98]"
      and objects = "[([107], False), ([122], False)]"]
  show ?thesis by simp
qed

lemma listed_parts_Some:
  "listed_parts xs = Some ps \<Longrightarrow> length ps = length xs"
  by (induction xs arbitrary: ps rule: listed_parts.induct) (auto split: option.splits)

text \<open>
  C40. Complete of an upload that is not in progress for the key succeeds whenever
  some object has the key: the answer is that object's ETag, whatever upload id and
  parts were named, and nothing is published.
\<close>

theorem complete_of_unknown_upload:
  assumes gw: "gw_ok g" and unknown: "a_uploads (abs_of (g_db g)) uid \<noteq> Some (b, k)"
    and numbered: "listed_parts listed = Some parts"
    and there: "a_objects (abs_of (g_db g)) (b, k) = Some (data, digest)"
  shows "\<exists>g'. complete_multipart_upload sha now clock uid b k listed g = (Inr (etag_of digest), g') \<and> g_db g' = g_db g"
proof -
  have "complete_tx sha now uid b k parts (g_db g) = (Inr (NoSuchUpload, [], []), g_db g)"
    using complete_no_upload [of "g_db g" uid b k] gw unknown by (simp add: gw_ok_def)
  moreover obtain r where "find_object (g_db g) b k = Some r" "o_etag r = digest"
    using there by (auto simp: abs_of_def stored_object_def)
  ultimately show ?thesis
    by (simp add: complete_multipart_upload_def numbered complete_upload_def meta_fresh_def row_meta_def)
qed

theorem complete_of_unknown_upload_witness:
  "\<exists>g'. complete_multipart_upload (\<lambda>b. b) 0 0 [1, 2, 3] [98] [107] [(Some 1, None)] sample_gw =
    (Inr (Strong (hex [171])), g') \<and> g_db g' = sample_db"
  using complete_of_unknown_upload [OF sample_gw_ok, of "[1, 2, 3]" "[98]" "[107]" "[(Some 1, None)]" "[(1, [])]"]
  by (simp add: sample_gw_def sample_abs etag_of_def) (simp add: abs_of_def sample_db_def find_upload_def)

end
