(* ===== verification/Fleet.thy ===== *)
theory Fleet
  imports Gateway_Spec
begin

text \<open>
  Any number of gateway processes on one database. A commit and the \<^verbatim>\<open>publish_cache\<close> behind
  it are two steps, and so are the SELECT of \<^verbatim>\<open>meta_fresh\<close> and its \<^verbatim>\<open>meta_put\<close>: another
  gateway, or another task of the same one, can come in between, and what is cached last
  need not be what was committed last. The theory shows what a read may nevertheless
  rely on. The steps are those of \<open>sys_step\<close>; the cron job of \<open>Expiry\<close>, whose partial
  deletions break the invariant of the store, is not among them.
\<close>

section \<open>The files a transaction touches\<close>

text \<open>
  The rows and references after a transaction were there before or belong to the
  file it wrote.
\<close>

definition touches :: "(int \<times> bytes) list \<Rightarrow> db \<Rightarrow> db \<Rightarrow> bool" where
  "touches new db db' \<longleftrightarrow>
     set (refs db') \<subseteq> set (refs db) \<union> (\<lambda>(f, d). (f, int (length d))) ` set new \<and>
     set (d_chunks db') \<subseteq> set (d_chunks db) \<union> (\<Union>(f, d) \<in> set new. set (file_rows f d)) \<and>
     d_next_id db \<le> d_next_id db'"

lemma touches_refl [simp]: "touches [] db db"
  by (simp add: touches_def)

lemma delete_files_subset: "set (delete_files chunks ids) \<subseteq> set chunks"
  by (auto simp: delete_files_def)

lemma swap_touches:
  assumes "swap_object now b k w db = Inr db'"
  shows "set (d_objects db') \<subseteq> insert (written_row now b k w) (set (d_objects db))"
    and "set (d_chunks db') \<subseteq> set (d_chunks db)" and "d_parts db' = d_parts db" and "d_next_id db' = d_next_id db"
  using assms delete_files_subset
  by (auto simp: swap_object_def upsert_object_def reap_def Let_def split: if_splits option.splits sum.splits) force

lemma part_touches:
  assumes "commit_part uid no f tot digest db = Inr db'"
  shows "set (d_parts db') \<subseteq> insert \<lparr>pt_upload = uid, pt_no = no, pt_file_id = f, pt_size = tot, pt_sha = digest\<rparr> (set (d_parts db))"
    and "set (d_chunks db') \<subseteq> set (d_chunks db)" and "d_objects db' = d_objects db" and "d_next_id db' = d_next_id db"
  using assms delete_files_subset
  by (auto simp: commit_part_def Let_def split: if_splits option.splits) force

lemma ingest_touches:
  assumes run: "ingest_tx sha now f target msgs db = (Inr (tot, digest), db')" and fits: "fits_file (msgs_bytes msgs)"
    and f: "0 < f" "f < 2 ^ 63"
  shows "touches [(f, msgs_bytes msgs)] db db'" and "tot = int (length (msgs_bytes msgs))" and "digest = sha (msgs_bytes msgs)"
proof -
  have "Abort \<notin> set msgs" using run ingest_aborted by (auto simp: ingest_tx_def split: if_splits)
  then obtain cs where cs: "msgs = map Data cs" using messages_cases by blast
  let ?data = "concat cs"
  have fits': "fits_file ?data" using fits by (simp add: cs)
  have stream: "ingest_stream sha f msgs = Some (COPY_HEADER @ frame_list f 0 (pieces ROW_BYTES ?data) @ COPY_TRAILER,
      int (length ?data), sha ?data)" by (simp add: cs ingest_stream_framed)
  have parse: "copy_parse (COPY_HEADER @ frame_list f 0 (pieces ROW_BYTES ?data) @ COPY_TRAILER) = Some (file_rows f ?data)"
    using copy_parse_framed [OF _ f(2) fits'] f(1) by simp
  obtain chunks where chunks: "copy_in (d_chunks db) (file_rows f ?data) = Some chunks"
    using run by (auto simp: ingest_tx_def stream parse split: if_splits option.splits)
  have rows: "chunks = d_chunks db @ file_rows f ?data"
    using chunks by (auto simp: copy_in_def Let_def split: if_splits)
  let ?tx = "db\<lparr>d_chunks := chunks\<rparr>"
  have out: "tot = int (length ?data)" "digest = sha ?data"
    using run by (auto simp: ingest_tx_def stream parse chunks Let_def split: if_splits sum.splits)
  then show "tot = int (length (msgs_bytes msgs))" "digest = sha (msgs_bytes msgs)" by (simp_all add: cs)
  show "touches [(f, msgs_bytes msgs)] db db'"
  proof (cases target)
    case (ToObject b k c)
    then have "swap_object now b k \<lparr>w_file_id = f, w_size = int (length ?data), w_etag = sha ?data,
        w_parts = None, w_condition = c\<rparr> ?tx = Inr db'"
      using run by (auto simp: ingest_tx_def stream parse chunks Let_def split: if_splits sum.splits)
    note tx = swap_touches [OF this]
    have "object_refs (written_row now b k \<lparr>w_file_id = f, w_size = int (length ?data), w_etag = sha ?data,
        w_parts = None, w_condition = c\<rparr>) = [(f, int (length ?data))]"
      by (simp add: object_refs_single written_row_def)
    with tx show ?thesis by (fastforce simp: touches_def refs_def rows cs)
  next
    case (ToPart uid no)
    then have "commit_part uid no f (int (length ?data)) (sha ?data) ?tx = Inr db'"
      using run by (auto simp: ingest_tx_def stream parse chunks Let_def split: if_splits sum.splits)
    note tx = part_touches [OF this]
    from tx show ?thesis by (fastforce simp: touches_def refs_def rows cs part_ref_def)
  qed
qed

lemma complete_touches:
  assumes run: "complete_tx sha now uid b k listed db = (c, db')" and ok: "db_ok db"
    and fits: "sum_list (map pt_size (parts_of db uid)) < 2 ^ 63"
  shows "touches [] db db'"
proof -
  have "set (d_chunks db') \<subseteq> set (d_chunks db)"
    using run by (auto simp: complete_tx_def Let_def drop_upload_def dest!: swap_touches(2)
        split: option.splits if_splits sum.splits prod.splits)
  with complete_step(3,4) [OF ok fits run] show ?thesis by (simp add: touches_def)
qed

text \<open>Every transaction that ends no writer.\<close>

lemma sys_step_touches:
  assumes "sys_step sha (db, fl) (db', fl')" and "set fl \<subseteq> set fl'" and "sys_ok (db, fl)"
  shows "touches [] db db'" and "set fl' \<subseteq> set fl \<union> {f. d_next_id db \<le> f}"
proof -
  have db: "db_ok db" using assms(3) by (simp add: sys_ok_def)
  obtain l where step: "tx_step sha l (db, fl) (db', fl')" using assms(1) by (auto simp: sys_step_def)
  have "touches [] db db' \<and> set fl' \<subseteq> set fl \<union> {f. d_next_id db \<le> f}"
    using step
  proof (cases rule: tx_step.cases)
    case (tx_begin f)
    then have "f = d_next_id db" "db' = db\<lparr>d_next_id := d_next_id db + 1\<rparr>"
      by (auto simp: nextval_def split: if_splits)
    with tx_begin show ?thesis by (auto simp: touches_def refs_def)
  next
    case (tx_writer f msgs now target r)
    moreover have "distinct fl" using assms(3) by (simp add: sys_ok_def)
    ultimately have "f \<in> set fl'" "f \<notin> set fl'" using assms(2) by auto
    then show ?thesis by simp
  next
    case (tx_delete b k found)
    then show ?thesis using delete_files_subset
      by (fastforce simp: delete_tx_def Let_def touches_def refs_def reap_def split: option.splits)
  next
    case (tx_delete_bucket b d)
    then show ?thesis by (auto simp: delete_bucket_def touches_def refs_def split: if_splits)
  next
    case (tx_create_upload uuid now b k u)
    then show ?thesis by (auto simp: create_upload_def touches_def refs_def split: if_splits option.splits)
  next
    case (tx_complete uid now b k listed c)
    then show ?thesis using complete_touches [OF _ db] by simp
  next
    case (tx_abort uid b k a)
    then show ?thesis using delete_files_subset
      by (fastforce simp: abort_upload_def Let_def touches_def refs_def drop_upload_def split: if_splits)
  qed (auto simp: touches_def refs_def create_bucket_def)
  then show "touches [] db db'" and "set fl' \<subseteq> set fl \<union> {f. d_next_id db \<le> f}" by blast+
qed

section \<open>The bytes behind the file ids\<close>

text \<open>Every referenced file is stored whole, with the bytes \<open>content\<close> gives for its id.\<close>

definition content_ok :: "(int \<Rightarrow> bytes) \<Rightarrow> db \<Rightarrow> bool" where
  "content_ok content db \<longleftrightarrow> (\<forall>f \<in> fst ` set (refs db). holds_file (d_chunks db) f (content f))"

lemma file_rows_inject:
  assumes sub: "set (file_rows f d') \<subseteq> set (file_rows f d)" and len: "length d' = length d"
  shows "d' = d"
proof -
  have n: "length (pieces ROW_BYTES d') = length (pieces ROW_BYTES d)" by (simp add: length_pieces len)
  have "pieces ROW_BYTES d' = pieces ROW_BYTES d"
  proof (rule nth_equalityI [OF n])
    fix i assume "i < length (pieces ROW_BYTES d')"
    then have "(f, int i, pieces ROW_BYTES d' ! i) \<in> set (file_rows f d')" by (force simp: file_rows_def)
    then have "(f, int i, pieces ROW_BYTES d' ! i) \<in> set (file_rows f d)" using sub by blast
    then show "pieces ROW_BYTES d' ! i = pieces ROW_BYTES d ! i" by (auto simp: file_rows_def)
  qed
  then show ?thesis by (metis concat_pieces ROW_BYTES_pos(1))
qed

lemma content_ok_file: "content_ok content db \<Longrightarrow> (f, n) \<in> set (refs db) \<Longrightarrow> holds_file (d_chunks db) f (content f)"
  by (force simp: content_ok_def)

lemma content_ok_length:
  "content_ok content db \<Longrightarrow> db_ok db \<Longrightarrow> (f, n) \<in> set (refs db) \<Longrightarrow> n = int (length (content f))"
  using ct.backed_holds [OF db_okD(1), of db f n] content_ok_file [of content db f n]
  by (metis holds_file_bytes)

text \<open>A stored row is a row of its file.\<close>

lemma content_ok_row:
  assumes "content_ok content db" and "db_ok db" and "(f, no, data) \<in> set (d_chunks db)"
  shows "(f, no, data) \<in> set (file_rows f (content f))"
proof -
  have "f \<in> fst ` set (refs db)"
    using ct.backed_absent [OF db_okD(1) [OF assms(2)], of f] assms(3) by (force simp: no_file_iff)
  then have "holds_file (d_chunks db) f (content f)" using assms(1) unfolding content_ok_def by blast
  then have "rows_of_file (d_chunks db) f = file_rows f (content f)" by (simp add: holds_file_def)
  moreover have "(f, no, data) \<in> set (rows_of_file (d_chunks db) f)" using assms(3) by (simp add: rows_of_file_def)
  ultimately show ?thesis by simp
qed

lemma content_ok_step:
  assumes content: "content_ok content db" and ok: "db_ok db" "db_ok db'" and step: "touches new db db'"
    and new: "\<And>f d. (f, d) \<in> set new \<Longrightarrow> content' f = d \<and> f \<notin> fst ` set (refs db)"
    and old: "\<And>f. f \<in> fst ` set (refs db) \<Longrightarrow> content' f = content f"
  shows "content_ok content' db'"
  unfolding content_ok_def
proof
  fix g assume "g \<in> fst ` set (refs db')"
  then obtain n where g: "(g, n) \<in> set (refs db')" by force
  from ct.backed_holds [OF db_okD(1) [OF ok(2)] this] obtain d where d: "holds_file (d_chunks db') g d" "int (length d) = n"
    by blast
  consider "(g, n) \<in> set (refs db)" | d' where "(g, d') \<in> set new" "n = int (length d')"
    using g step by (auto simp: touches_def)
  then have "int (length (content' g)) = n"
  proof cases
    case 1
    then have "g \<in> fst ` set (refs db)" by force
    with old content_ok_length [OF content ok(1) 1] show ?thesis by simp
  next
    case 2
    with new show ?thesis by simp
  qed
  moreover have "r \<in> set (file_rows g (content' g))" if r: "r \<in> set (file_rows g d)" for r
  proof -
    have "r \<in> set (rows_of_file (d_chunks db') g)" using d(1) r by (simp add: holds_file_def)
    then have row: "r \<in> set (d_chunks db')" "fst r = g" by (simp_all add: rows_of_file_def)
    have "r \<in> set (d_chunks db) \<union> (\<Union>(f, d) \<in> set new. set (file_rows f d))"
      using step row(1) unfolding touches_def by blast
    then consider "r \<in> set (d_chunks db)" | f d' where "(f, d') \<in> set new" "r \<in> set (file_rows f d')" by auto
    then show ?thesis
    proof cases
      case 1
      obtain no data where r': "r = (g, no, data)" using row(2) by (cases r) auto
      have "r \<in> set (file_rows g (content g))" using content_ok_row [OF content ok(1) 1 [unfolded r']] by (simp add: r')
      moreover have "g \<in> fst ` set (refs db)"
        using ct.backed_absent [OF db_okD(1) [OF ok(1)], of g] 1 row(2) by (force simp: no_file_iff)
      ultimately show ?thesis using old by simp
    next
      case 2
      with new [OF 2(1)] fst_file_rows [OF 2(2)] row(2) show ?thesis by simp
    qed
  qed
  ultimately have "d = content' g" using d(2) by (intro file_rows_inject [of g]) auto
  with d(1) show "holds_file (d_chunks db') g (content' g)" by simp
qed

section \<open>The fleet\<close>

text \<open>
  The database, the writers in flight, the cache of each gateway, the entries on their way
  into a cache, and (a ghost) the bytes of each file committed so far.
\<close>

type_synonym news = "nat \<times> (ustring \<times> ustring) \<times> meta"

record fleet =
  fl_db :: db
  fl_writers :: "int list"
  fl_caches :: "nat \<Rightarrow> cache"
  fl_news :: "news list"
  fl_log :: "(int \<times> bytes) list"

definition fleet_init :: fleet where
  "fleet_init = \<lparr>fl_db = db_empty, fl_writers = [], fl_caches = (\<lambda>_. cache_empty), fl_news = [], fl_log = []\<rparr>"

definition file_of :: "fleet \<Rightarrow> int \<Rightarrow> bytes" where
  "file_of s f = (case map_of (fl_log s) f of None \<Rightarrow> [] | Some d \<Rightarrow> d)"

text \<open>What \<^verbatim>\<open>publish_cache\<close> puts into the cache.\<close>

definition published_meta :: "int \<Rightarrow> int \<Rightarrow> int \<Rightarrow> bytes \<Rightarrow> (int list \<times> int list) option \<Rightarrow> meta" where
  "published_meta clock file_id size' etag parts =
     \<lparr>m_size = size', m_etag = etag, m_created = clock, m_file_id = file_id,
      m_parts = map_option fst parts, m_part_ends = map_option snd parts\<rparr>"

lemma publish_cache_put:
  "publish_cache clock b k file_id size' etag parts c = meta_put c (b, k) (published_meta clock file_id size' etag parts)"
  by (simp add: publish_cache_def published_meta_def)

definition written_news :: "nat \<Rightarrow> int \<Rightarrow> int \<Rightarrow> int \<Rightarrow> bytes \<Rightarrow> writer_target \<Rightarrow> news list" where
  "written_news i clock f tot digest target =
     (case target of
        ToObject b k _ \<Rightarrow> [(i, (b, k), published_meta clock f tot digest None)]
      | ToPart _ _ \<Rightarrow> [])"

text \<open>
  Gateway \<open>i\<close> commits, looks up, publishes what it knows, invalidates or restarts. \<open>fleet_db\<close> is
  every transaction that ends no writer, also one whose gateway publishes nothing afterwards.
\<close>

inductive fleet_step :: "(bytes \<Rightarrow> bytes) \<Rightarrow> fleet \<Rightarrow> fleet \<Rightarrow> bool" for sha where
  fleet_db: "sys_step sha (db, fl) (db', fl') \<Longrightarrow> set fl \<subseteq> set fl' \<Longrightarrow>
    fleet_step sha \<lparr>fl_db = db, fl_writers = fl, fl_caches = cs, fl_news = ns, fl_log = log\<rparr>
      \<lparr>fl_db = db', fl_writers = fl', fl_caches = cs, fl_news = ns, fl_log = log\<rparr>"
| fleet_write: "f \<in> set fl \<Longrightarrow> fits_file (msgs_bytes msgs) \<Longrightarrow>
    ingest_tx sha now f target msgs db = (Inr (tot, digest), db') \<Longrightarrow>
    fleet_step sha \<lparr>fl_db = db, fl_writers = fl, fl_caches = cs, fl_news = ns, fl_log = log\<rparr>
      \<lparr>fl_db = db', fl_writers = remove1 f fl, fl_caches = cs,
       fl_news = ns @ written_news i clock f tot digest target, fl_log = (f, msgs_bytes msgs) # log\<rparr>"
| fleet_fail: "f \<in> set fl \<Longrightarrow> fits_file (msgs_bytes msgs) \<Longrightarrow> ingest_tx sha now f target msgs db = (Inl e, db') \<Longrightarrow>
    fleet_step sha \<lparr>fl_db = db, fl_writers = fl, fl_caches = cs, fl_news = ns, fl_log = log\<rparr>
      \<lparr>fl_db = db', fl_writers = remove1 f fl, fl_caches = cs, fl_news = ns, fl_log = log\<rparr>"
| fleet_complete: "sum_list (map pt_size (parts_of db uid)) < 2 ^ 63 \<Longrightarrow>
    complete_tx sha now uid b k listed db = (Inr (CompleteDone b' k' etag size', ids, ends), db') \<Longrightarrow>
    fleet_step sha \<lparr>fl_db = db, fl_writers = fl, fl_caches = cs, fl_news = ns, fl_log = log\<rparr>
      \<lparr>fl_db = db', fl_writers = fl, fl_caches = cs,
       fl_news = ns @ [(i, (b', k'), published_meta clock (ids ! 0) size' etag (Some (ids, ends)))], fl_log = log\<rparr>"
| fleet_lookup: "find_object db b k = Some r \<Longrightarrow>
    fleet_step sha \<lparr>fl_db = db, fl_writers = fl, fl_caches = cs, fl_news = ns, fl_log = log\<rparr>
      \<lparr>fl_db = db, fl_writers = fl, fl_caches = cs, fl_news = ns @ [(i, (b, k), row_meta r)], fl_log = log\<rparr>"
| fleet_publish: "fleet_step sha \<lparr>fl_db = db, fl_writers = fl, fl_caches = cs, fl_news = xs @ (i, bk, m) # ys, fl_log = log\<rparr>
      \<lparr>fl_db = db, fl_writers = fl, fl_caches = cs(i := meta_put (cs i) bk m), fl_news = xs @ ys, fl_log = log\<rparr>"
| fleet_invalidate: "fleet_step sha \<lparr>fl_db = db, fl_writers = fl, fl_caches = cs, fl_news = ns, fl_log = log\<rparr>
      \<lparr>fl_db = db, fl_writers = fl, fl_caches = cs(i := meta_invalidate (cs i) bk), fl_news = ns, fl_log = log\<rparr>"
| fleet_restart: "fleet_step sha \<lparr>fl_db = db, fl_writers = fl, fl_caches = cs, fl_news = ns, fl_log = log\<rparr>
      \<lparr>fl_db = db, fl_writers = fl, fl_caches = cs(i := cache_empty), fl_news = filter (\<lambda>n. fst n \<noteq> i) ns, fl_log = log\<rparr>"

text \<open>An id that has been handed out and whose writer has ended is never written again.\<close>

definition settled :: "fleet \<Rightarrow> int \<Rightarrow> bool" where
  "settled s f \<longleftrightarrow> f < d_next_id (fl_db s) \<and> f \<notin> set (fl_writers s)"

definition fleet_ok :: "fleet \<Rightarrow> bool" where
  "fleet_ok s \<longleftrightarrow> sys_ok (fl_db s, fl_writers s) \<and> content_ok (file_of s) (fl_db s) \<and>
     (\<forall>i. cache_inv (fl_caches s i))"

lemma fleet_refs_settled: "fleet_ok s \<Longrightarrow> f \<in> fst ` set (refs (fl_db s)) \<Longrightarrow> settled s f"
  by (auto simp: fleet_ok_def sys_ok_def fresh_id_def settled_def db_ok_def)

text \<open>A step keeps the invariant and the bytes of the settled files.\<close>

definition keeps_settled :: "fleet \<Rightarrow> fleet \<Rightarrow> bool" where
  "keeps_settled s s' \<longleftrightarrow> (\<forall>f. settled s f \<longrightarrow> settled s' f \<and> file_of s' f = file_of s f)"

lemma fleet_same_db:
  assumes "fleet_ok s" and "fl_db s' = fl_db s" and "fl_writers s' = fl_writers s" and "fl_log s' = fl_log s"
    and "\<And>i. cache_inv (fl_caches s' i)"
  shows "fleet_ok s' \<and> keeps_settled s s'"
proof -
  have "file_of s' = file_of s" by (simp add: fun_eq_iff file_of_def assms(4))
  with assms show ?thesis by (simp add: fleet_ok_def keeps_settled_def settled_def)
qed

lemma fleet_quiet_db:
  assumes ok: "fleet_ok s" and sys: "sys_ok (fl_db s', fl_writers s')" and step: "touches [] (fl_db s) (fl_db s')"
    and fl: "set (fl_writers s') \<subseteq> set (fl_writers s) \<union> {f. d_next_id (fl_db s) \<le> f}"
    and log: "fl_log s' = fl_log s" and caches: "fl_caches s' = fl_caches s"
  shows "fleet_ok s' \<and> keeps_settled s s'"
proof -
  have bytes: "file_of s' = file_of s" by (simp add: fun_eq_iff file_of_def log)
  have "content_ok (file_of s) (fl_db s')"
    by (rule content_ok_step [OF _ _ _ step]) (use ok sys in \<open>auto simp: fleet_ok_def sys_ok_def\<close>)
  moreover have "settled s' f" if "settled s f" for f
    using that fl step by (auto simp: settled_def touches_def)
  ultimately show ?thesis using ok sys by (simp add: fleet_ok_def keeps_settled_def bytes caches)
qed

lemma fleet_write_ok:
  assumes ok: "fleet_ok s" and f: "f \<in> set (fl_writers s)" and fits: "fits_file (msgs_bytes msgs)"
    and run: "ingest_tx sha now f target msgs (fl_db s) = (Inr (tot, digest), fl_db s')"
    and s': "fl_writers s' = remove1 f (fl_writers s)" "fl_log s' = (f, msgs_bytes msgs) # fl_log s" "fl_caches s' = fl_caches s"
  shows "fleet_ok s' \<and> keeps_settled s s'"
proof -
  have sys: "sys_ok (fl_db s, fl_writers s)" using ok by (simp add: fleet_ok_def)
  from writer_step [OF this f fits run] have sys': "sys_ok (fl_db s', fl_writers s')" by (simp add: s')
  have fresh: "fresh_id (fl_db s) f" and db: "db_ok (fl_db s)" and dist: "distinct (fl_writers s)"
    using sys f by (auto simp: sys_ok_def)
  then have bounds: "0 < f" "f < 2 ^ 63" by (auto simp: fresh_id_def db_ok_def)
  note tx = ingest_touches(1) [OF run fits bounds]
  have bytes: "file_of s' g = (if g = f then msgs_bytes msgs else file_of s g)" for g by (simp add: file_of_def s')
  have "content_ok (file_of s') (fl_db s')"
    by (rule content_ok_step [of "file_of s", OF _ db _ tx]) (use ok sys' fresh in \<open>auto simp: fleet_ok_def sys_ok_def bytes fresh_id_def\<close>)
  moreover have "settled s' g \<and> file_of s' g = file_of s g" if "settled s g" for g
    using that f tx dist by (auto simp: settled_def touches_def s' bytes)
  ultimately show ?thesis using ok sys' by (simp add: fleet_ok_def keeps_settled_def s')
qed

lemma fleet_step_ok: "fleet_step sha s s' \<Longrightarrow> fleet_ok s \<Longrightarrow> fleet_ok s' \<and> keeps_settled s s'"
proof (induction rule: fleet_step.induct)
  case (fleet_db db fl db' fl' cs ns log)
  let ?s = "\<lparr>fl_db = db, fl_writers = fl, fl_caches = cs, fl_news = ns, fl_log = log\<rparr>"
  have sys: "sys_ok (db, fl)" using fleet_db(3) by (simp add: fleet_ok_def)
  from store.step_ok [OF fleet_db(1) sys] sys_step_touches [OF fleet_db(1,2) sys] show ?case
    by (intro fleet_quiet_db [OF fleet_db(3)]) simp_all
next
  case (fleet_write f fl msgs now target db tot digest db' cs ns log i clock)
  then show ?case by (intro fleet_write_ok [of _ f msgs sha now target tot digest]) simp_all
next
  case (fleet_fail f fl msgs now target db e db' cs ns log)
  then have sys: "sys_ok (db, fl)" by (simp add: fleet_ok_def)
  have "db' = db" by (rule ingest_tx_error [OF fleet_fail(3)])
  with writer_step [OF sys fleet_fail(1-3)] show ?case
    by (intro fleet_quiet_db [OF fleet_fail(4)]) (auto dest: notin_set_remove1)
next
  case (fleet_complete db uid now b k listed b' k' etag size' ids ends db' fl cs ns log i clock)
  then have sys: "sys_ok (db, fl)" and db: "db_ok db" by (simp_all add: fleet_ok_def sys_ok_def)
  note tx = complete_step [OF db fleet_complete(1,2)]
  from sys_ok_step [OF sys tx(1) image_mono [OF tx(3)] tx(4)] complete_touches [OF fleet_complete(2) db fleet_complete(1)]
  show ?case by (intro fleet_quiet_db [OF fleet_complete(3)]) simp_all
next
  case (fleet_lookup db b k r fl cs ns log i)
  then show ?case by (intro fleet_same_db) (simp_all add: fleet_ok_def)
next
  case (fleet_publish db fl cs xs i bk m ys log)
  then show ?case by (intro fleet_same_db) (simp_all add: fleet_ok_def mc.inv_put)
next
  case (fleet_invalidate db fl cs ns log i bk)
  then show ?case by (intro fleet_same_db) (simp_all add: fleet_ok_def mc.inv_invalidate)
next
  case (fleet_restart db fl cs ns log i)
  then show ?case by (intro fleet_same_db) (simp_all add: fleet_ok_def cache_inv_empty)
qed

lemma fleet_init_ok: "fleet_ok fleet_init"
  using sys_ok_init by (simp add: fleet_ok_def fleet_init_def content_ok_def db_empty_def refs_def cache_inv_empty)

interpretation fleet: invariant_system "fleet_step sha" fleet_ok for sha
  by unfold_locales (simp add: fleet_step_ok)

abbreviation fleet_run :: "(bytes \<Rightarrow> bytes) \<Rightarrow> fleet \<Rightarrow> fleet \<Rightarrow> bool" where
  "fleet_run sha \<equiv> (fleet_step sha)\<^sup>*\<^sup>*"

lemma fleet_run_settled: "fleet_run sha s s' \<Longrightarrow> fleet_ok s \<Longrightarrow> keeps_settled s s'"
proof (induction rule: rtranclp_induct)
  case (step s' s'')
  from fleet_step_ok [OF step(2)] fleet.run_ok [OF step(1,4)] step.IH [OF step(4)] show ?case
    by (simp add: keeps_settled_def)
qed (simp add: keeps_settled_def)

text \<open>So every state of a run stores the bytes that its last state has on record.\<close>

lemma fleet_run_content:
  assumes "fleet_run sha s s'" and "fleet_ok s"
  shows "content_ok (file_of s') (fl_db s)"
proof -
  have "file_of s' f = file_of s f" if "f \<in> fst ` set (refs (fl_db s))" for f
    using fleet_run_settled [OF assms] fleet_refs_settled [OF assms(2) that] by (simp add: keeps_settled_def)
  moreover have "content_ok (file_of s) (fl_db s)" using assms(2) by (simp add: fleet_ok_def)
  ultimately show ?thesis unfolding content_ok_def by simp
qed

section \<open>Where an entry comes from\<close>

text \<open>It describes the row its key had in some earlier state.\<close>

definition once :: "(bytes \<Rightarrow> bytes) \<Rightarrow> fleet \<Rightarrow> ustring \<times> ustring \<Rightarrow> meta \<Rightarrow> bool" where
  "once sha s bk m \<longleftrightarrow> (\<exists>v. fleet_run sha fleet_init v \<and> fleet_run sha v s \<and> describes (fl_db v) bk m)"

definition entries_once :: "(bytes \<Rightarrow> bytes) \<Rightarrow> fleet \<Rightarrow> bool" where
  "entries_once sha s \<longleftrightarrow> (\<forall>i. mc.entries (once sha s) (fl_caches s i)) \<and> (\<forall>(i, bk, m) \<in> set (fl_news s). once sha s bk m)"

lemma once_later: "once sha s bk m \<Longrightarrow> fleet_step sha s s' \<Longrightarrow> once sha s' bk m"
  unfolding once_def by (meson rtranclp.rtrancl_into_rtrancl)

lemma once_now: "fleet_run sha fleet_init s \<Longrightarrow> describes (fl_db s) bk m \<Longrightarrow> once sha s bk m"
  unfolding once_def by blast

lemma find_replaced: "P new \<Longrightarrow> List.find P xs = Some y \<Longrightarrow> List.find P (map (\<lambda>r. if P r then new else r) xs) = Some new"
  by (induction xs) (auto split: if_splits)

lemma swap_find:
  assumes "swap_object now b k w db = Inr db'"
  shows "find_object db' b k = Some (written_row now b k w)"
proof -
  have "at_key b k (written_row now b k w)" by (simp add: at_key_def written_row_def)
  then show ?thesis
    using assms find_replaced [of "at_key b k" "written_row now b k w" "d_objects db"]
    by (auto simp: swap_object_def upsert_object_def reap_def Let_def find_object_def find_append
        split: if_splits option.splits sum.splits)
qed

text \<open>What a gateway publishes after its commit describes what it committed.\<close>

lemma swap_describes:
  assumes "swap_object now b k w db = Inr db1" and "d_objects db' = d_objects db1"
  shows "describes db' (b, k) (published_meta clock (w_file_id w) (w_size w) (w_etag w) (w_parts w))"
proof -
  have "find_object db' b k = Some (written_row now b k w)"
    using swap_find [OF assms(1)] assms(2) by (simp add: find_object_def)
  then show ?thesis by (simp add: describes_def published_meta_def written_row_def)
qed

lemma written_news_describe:
  assumes "ingest_tx sha now f target msgs db = (Inr (tot, digest), db')" and "(j, bk, m) \<in> set (written_news i clock f tot digest target)"
  shows "describes db' bk m"
proof (cases target)
  case (ToObject b k c)
  with assms(1) obtain tx where "swap_object now b k \<lparr>w_file_id = f, w_size = tot, w_etag = digest,
      w_parts = None, w_condition = c\<rparr> tx = Inr db'"
    by (auto simp: ingest_tx_def Let_def split: if_splits option.splits sum.splits)
  from swap_describes [OF this refl, of clock] assms(2) show ?thesis by (simp add: written_news_def ToObject)
qed (use assms(2) in \<open>simp add: written_news_def\<close>)

lemma complete_describes:
  assumes "complete_tx sha now uid b k listed db = (Inr (CompleteDone b' k' etag size', ids, ends), db')"
  shows "describes db' (b', k') (published_meta clock (ids ! 0) size' etag (Some (ids, ends)))"
proof -
  obtain db1 where "swap_object now b' k' \<lparr>w_file_id = ids ! 0, w_size = size', w_etag = etag,
      w_parts = Some (ids, ends), w_condition = Unconditional\<rparr> db = Inr db1" "db' = drop_upload uid db1"
    using assms by (auto simp: complete_tx_def Let_def split: option.splits if_splits sum.splits prod.splits)
  from swap_describes [OF this(1), of db' clock] this(2) show ?thesis by (simp add: drop_upload_def)
qed

lemma lookup_describes: "find_object db b k = Some r \<Longrightarrow> describes db (b, k) (row_meta r)"
  by (simp add: describes_def row_meta_def)

lemma entries_empty: "mc.entries P cache_empty"
  by (simp add: mc.entries_def cache_inv_empty empty_get)

lemma entries_once_step:
  assumes step: "fleet_step sha s s'" and run: "fleet_run sha fleet_init s" and once: "entries_once sha s"
  shows "entries_once sha s'"
proof -
  have run': "fleet_run sha fleet_init s'" using run step by (rule rtranclp.rtrancl_into_rtrancl)
  have caches: "mc.entries (once sha s') (fl_caches s i)" for i
    using once mc.entries_weaken once_later [OF _ step] unfolding entries_once_def by blast
  have news: "once sha s' bk m" if "(i, bk, m) \<in> set (fl_news s)" for i bk m
    using once that once_later [OF _ step] unfolding entries_once_def by blast
  note now = once_now [OF run']
  from step caches news now show ?thesis
  proof (cases rule: fleet_step.cases)
    case (fleet_write f fl msgs now target db tot digest db' cs ns log i clock)
    with caches news now written_news_describe [OF fleet_write(5)] show ?thesis
      by (auto simp: entries_once_def)
  next
    case (fleet_complete db uid now b k listed b' k' etag size' ids ends db' fl cs ns log i clock)
    with caches news now complete_describes [OF fleet_complete(4), of clock] show ?thesis
      by (auto simp: entries_once_def)
  next
    case (fleet_lookup db b k r fl cs ns log i)
    with caches news now lookup_describes [OF fleet_lookup(3)] show ?thesis by (auto simp: entries_once_def)
  next
    case (fleet_publish db fl cs xs i bk m ys log)
    have "once sha s' bk m" and "\<forall>(j, bk', m') \<in> set (xs @ ys). once sha s' bk' m'"
      using news unfolding fleet_publish(1) by fastforce+
    then show ?thesis
      using caches unfolding entries_once_def fleet_publish by (auto intro!: mc.entries_put)
  next
    case (fleet_invalidate db fl cs ns log i bk)
    with caches news show ?thesis by (auto simp: entries_once_def intro!: mc.entries_invalidate)
  next
    case (fleet_restart db fl cs ns log i)
    with caches news show ?thesis
      by (auto simp: entries_once_def entries_empty)
  qed (auto simp: entries_once_def)
qed

lemma entries_once_run: "fleet_run sha fleet_init s \<Longrightarrow> entries_once sha s"
proof (induction rule: rtranclp_induct)
  case base
  show ?case by (simp add: entries_once_def fleet_init_def entries_empty)
next
  case (step s s')
  then show ?case using entries_once_step by blast
qed

section \<open>Reads\<close>

text \<open>
  What a query delivers: rows of its range, in any order, some perhaps missing as the
  connection may fail, and errors.
\<close>

definition delivers :: "db \<Rightarrow> piece \<Rightarrow> recv \<Rightarrow> bool" where
  "delivers db p rx \<longleftrightarrow> (\<forall>r. Inr r \<in> set rx \<longrightarrow> r \<in> set (select_range (d_chunks db) (p_file_id p) (p_lo p) (p_hi p)))"

lemma delivers_rows:
  assumes "delivers db p rx" and "content_ok content db" and "db_ok db"
  shows "rows_from content p rx"
  unfolding rows_from_def
proof (intro allI impI)
  fix r assume "Inr r \<in> set rx"
  then have "r \<in> set (select_range (d_chunks db) (p_file_id p) (p_lo p) (p_hi p))" using assms(1) unfolding delivers_def by blast
  then obtain no data where r: "r = (no, data)" "(p_file_id p, no, data) \<in> set (d_chunks db)" "p_lo p \<le> no" "no \<le> p_hi p"
    by (auto simp: select_range_def)
  from file_rows_row_of [OF content_ok_row [OF assms(2,3) r(2)]] r(1,3,4) show "row_ok content p r"
    by (simp add: row_ok_def row_of_def)
qed

lemma described_content:
  assumes "describes db (b, k) m" and "db_ok db" and "content_ok content db"
  shows "meta_ok content m" and "a_objects (abs_of db) (b, k) = Some (object_bytes content m, m_etag m)"
proof -
  obtain r where r: "find_object db b k = Some r" "m_size m = o_size r" "m_etag m = o_etag r"
    "m_file_id m = o_file_id r" "m_parts m = o_parts r" "m_part_ends m = o_part_ends r"
    using assms(1) by (auto simp: describes_def)
  then have mem: "r \<in> set (d_objects db)" by (simp add: find_object_Some [OF db_okD(2) [OF assms(2)]])
  have seg: "segments m = segments (row_meta r)" by (simp add: segments_def row_meta_def r split: option.split)
  have same: "content f = file_bytes (d_chunks db) f" if "(f, x, l) \<in> set (segments m)" for f x l
  proof -
    have "(f, l) \<in> set (refs db)" using that mem by (force simp: seg refs_def object_refs_def)
    from holds_file_bytes [OF content_ok_file [OF assms(3) this]] show ?thesis by simp
  qed
  then have bytes: "object_bytes content m = object_bytes (file_bytes (d_chunks db)) (row_meta r)"
    by (auto simp: object_bytes_def seg intro!: arg_cong [where f = concat])
  show "meta_ok content m"
    using row_meta_ok [OF assms(2) mem] same by (auto simp: meta_ok_def seg bytes r(2)) (auto simp: row_meta_def)
  show "a_objects (abs_of db) (b, k) = Some (object_bytes content m, m_etag m)"
    by (simp add: abs_of_def r(1,3) bytes stored_object_def)
qed

lemma once_content:
  assumes "once sha t (b, k) m" and "fleet_run sha t s"
  obtains v where "fleet_run sha fleet_init v" and "fleet_run sha v t" and "meta_ok (file_of s) m"
    and "a_objects (abs_of (fl_db v)) (b, k) = Some (object_bytes (file_of s) m, m_etag m)"
proof -
  obtain v where v: "fleet_run sha fleet_init v" "fleet_run sha v t" "describes (fl_db v) (b, k) m"
    using assms(1) by (auto simp: once_def)
  have ok: "fleet_ok v" by (rule fleet.run_ok [OF v(1) fleet_init_ok])
  then have "db_ok (fl_db v)" by (simp add: fleet_ok_def sys_ok_def)
  moreover have "content_ok (file_of s) (fl_db v)"
    using v(2) assms(2) by (intro fleet_run_content [OF _ ok]) (rule rtranclp_trans)
  ultimately show thesis using that [OF v(1,2)] described_content [OF v(3)] by blast
qed

text \<open>
  C5. No gateway ever serves wrong bytes. Any number of gateways commit, look up, publish into
  their caches late and in any order, invalidate and restart; a read starts in a state \<open>t\<close> with
  whatever its gateway has cached then, and each of its queries runs in a later state
  and may lose or reorder rows or fail. If the response ends without an error, it is
  exactly the requested range of a version that was stored under the key at some
  earlier moment, with the length and the digest of that version.
\<close>

theorem fleet_reads_right:
  assumes "fleet_run sha fleet_init t"
    and "\<And>p. fleet_run sha t (moment p) \<and> fleet_run sha (moment p) s"
    and "\<And>p. delivers (fl_db (moment p)) p (fetch p)"
    and "get_attempt n (\<lambda>_. True) (fl_db t) fetch (fl_caches t i) b k first last' suffix' = (Some (GetBody sm body), c')"
    and "body_bytes body = Inr bs"
  shows "\<exists>v data. fleet_run sha fleet_init v \<and> fleet_run sha v t \<and>
    a_objects (abs_of (fl_db v)) (b, k) = Some (data, s_etag sm) \<and> s_size sm = int (length data) \<and>
    (s_start sm, s_end sm) = eff_range (int (length data)) first last' suffix' \<and>
    bs = take (nat (s_end sm - s_start sm + 1)) (drop (nat (s_start sm)) data)"
proof -
  let ?known = "\<lambda>m. meta_get (fl_caches t i) (b, k) = Some m \<or> (\<exists>r. find_object (fl_db t) b k = Some r \<and> m = row_meta r)"
  have run: "fleet_run sha t s" using assms(2) by (meson rtranclp_trans)
  have once: "once sha t (b, k) m" if "?known m" for m
    using that entries_once_run [OF assms(1)] lookup_describes once_now [OF assms(1)]
    by (auto simp: entries_once_def mc.entries_def)
  have rows: "rows_from (file_of s) p (fetch p)" for p
  proof -
    have ok: "fleet_ok (moment p)"
      by (rule fleet.run_ok [OF rtranclp_trans [OF assms(1) conjunct1 [OF assms(2)]] fleet_init_ok])
    then show ?thesis
      using delivers_rows [OF assms(3) fleet_run_content [OF conjunct2 [OF assms(2)] ok]]
      by (simp add: fleet_ok_def sys_ok_def)
  qed
  have "meta_ok (file_of s) m" if "?known m" for m by (rule once_content [OF once [OF that] run])
  then obtain m where m: "?known m" "s_size sm = m_size m" "s_etag sm = m_etag m"
    "(s_start sm, s_end sm) = eff_range (m_size m) first last' suffix'" "bs = slice_of (file_of s) m (s_start sm) (s_end sm)"
    using attempt_never_wrong [OF assms(4) _ rows assms(5)] by blast
  obtain v where v: "fleet_run sha fleet_init v" "fleet_run sha v t" "meta_ok (file_of s) m"
    "a_objects (abs_of (fl_db v)) (b, k) = Some (object_bytes (file_of s) m, m_etag m)"
    by (rule once_content [OF once [OF m(1)] run])
  then have "m_size m = int (length (object_bytes (file_of s) m))" by (simp add: meta_ok_def)
  with v m(2-5) show ?thesis
    by (intro exI [of _ v] exI [of _ "object_bytes (file_of s) m"]) (simp add: slice_of_def)
qed

section \<open>Runs\<close>

lemma fleet_begin:
  assumes "d_next_id (fl_db s) < 2 ^ 63"
  obtains s' where "fleet_step sha s s'" and "fl_db s' = (fl_db s)\<lparr>d_next_id := d_next_id (fl_db s) + 1\<rparr>"
    and "fl_writers s' = fl_writers s @ [d_next_id (fl_db s)]" and "fl_caches s' = fl_caches s" and "fl_news s' = fl_news s"
proof -
  have "nextval (fl_db s) = Inr (d_next_id (fl_db s), (fl_db s)\<lparr>d_next_id := d_next_id (fl_db s) + 1\<rparr>)"
    using assms by (simp add: nextval_def)
  from fleet_db [OF step_begin [OF this, of sha "fl_writers s"], of "fl_caches s" "fl_news s" "fl_log s"] that
  show thesis by (cases s) force
qed

lemma fleet_put:
  assumes ok: "fleet_ok s" and f: "f \<in> set (fl_writers s)" and bucket: "bucket_exists (fl_db s) b" and fits: "fits_file (concat cs)"
  obtains s' where "fleet_step sha s s'" and "fl_writers s' = remove1 f (fl_writers s)" and "fl_caches s' = fl_caches s"
    and "fl_news s' = fl_news s @ [(i, (b, k), published_meta clock f (int (length (concat cs))) (sha (concat cs)) None)]"
    and "bucket_exists (fl_db s') b" and "a_objects (abs_of (fl_db s')) (b, k) = Some (concat cs, sha (concat cs))"
    and "find_object (fl_db s') b k = Some \<lparr>o_bucket = b, o_key = k, o_file_id = f, o_size = int (length (concat cs)),
      o_etag = sha (concat cs), o_created = now, o_parts = None, o_part_ends = None\<rparr>"
proof -
  have "db_ok (fl_db s)" and "fresh_id (fl_db s) f" using ok f by (simp_all add: fleet_ok_def sys_ok_def)
  moreover have "write_allowed Unconditional (find_object (fl_db s) b k)" by (simp add: write_allowed_def)
  ultimately obtain db' where db': "ingest_tx sha now f (ToObject b k Unconditional) (map Data cs) (fl_db s) =
      (Inr (int (length (concat cs)), sha (concat cs)), db')" "d_buckets db' = d_buckets (fl_db s)"
    "a_objects (abs_of db') (b, k) = Some (concat cs, sha (concat cs))"
    "find_object db' b k = Some \<lparr>o_bucket = b, o_key = k, o_file_id = f, o_size = int (length (concat cs)),
      o_etag = sha (concat cs), o_created = now, o_parts = None, o_part_ends = None\<rparr>"
    by (rule put_tx_spec [OF _ _ bucket fits, of f Unconditional k sha now]) (auto simp: written_row_def)
  let ?s = "\<lparr>fl_db = db', fl_writers = remove1 f (fl_writers s), fl_caches = fl_caches s,
    fl_news = fl_news s @ written_news i clock f (int (length (concat cs))) (sha (concat cs)) (ToObject b k Unconditional),
    fl_log = (f, concat cs) # fl_log s\<rparr>"
  have "fleet_step sha s ?s"
    using fleet_write [OF f _ db'(1), of "fl_caches s" "fl_news s" "fl_log s" i clock] fits by (cases s) simp
  then show thesis
    using bucket db' by (intro that [of ?s]) (simp_all add: written_news_def bucket_exists_def)
qed

text \<open>The bucket \<open>b\<close> is there and a first writer has begun.\<close>

lemma fleet_start:
  obtains s where "fleet_run sha fleet_init s" and "bucket_exists (fl_db s) b" and "d_next_id (fl_db s) = 2"
    and "fl_writers s = [1]" and "fl_caches s = (\<lambda>_. cache_empty)" and "fl_news s = []"
proof -
  let ?s1 = "\<lparr>fl_db = create_bucket 0 b db_empty, fl_writers = [], fl_caches = (\<lambda>_. cache_empty), fl_news = [], fl_log = []\<rparr>"
  have s1: "fleet_step sha fleet_init ?s1"
    unfolding fleet_init_def by (rule fleet_db) (auto intro: step_create_bucket)
  have one: "d_next_id (fl_db ?s1) = 1" and bucket: "bucket_exists (fl_db ?s1) b"
    by (simp_all add: create_bucket_def bucket_exists_def db_empty_def)
  obtain s2 where s2: "fleet_step sha ?s1 s2" "fl_db s2 = (fl_db ?s1)\<lparr>d_next_id := 1 + 1\<rparr>" "fl_writers s2 = [1]"
    "fl_caches s2 = fl_caches ?s1" "fl_news s2 = []"
    by (rule fleet_begin [of ?s1 sha]) (use one in simp_all)
  show thesis
    using s1 s2 bucket one by (intro that [of s2]) (auto simp: bucket_exists_def intro: rtranclp.rtrancl_into_rtrancl)
qed

text \<open>Gateway 0 writes an object; gateway 1, which has nothing cached, reads its second byte.\<close>

theorem fleet_reads_right_witness:
  "\<exists>t sm body c' v. fleet_run (\<lambda>b. b) fleet_init t \<and>
    get_attempt 0 (\<lambda>_. True) (fl_db t) (fetch_part (d_chunks (fl_db t))) (fl_caches t 1) [98] [107] 1 5 (-1) =
      (Some (GetBody sm body), c') \<and> body_bytes body = Inr [11] \<and>
    fleet_run (\<lambda>b. b) v t \<and>
    (\<exists>data. a_objects (abs_of (fl_db v)) ([98], [107]) = Some (data, s_etag sm) \<and>
      [11] = take (nat (s_end sm - s_start sm + 1)) (drop (nat (s_start sm)) data))"
proof -
  obtain s where s: "fleet_run (\<lambda>b. b) fleet_init s" "bucket_exists (fl_db s) [98]" "d_next_id (fl_db s) = 2"
    "fl_writers s = [1]" "fl_caches s = (\<lambda>_. cache_empty)" "fl_news s = []" by (rule fleet_start)
  let ?r = "\<lparr>o_bucket = [98], o_key = [107], o_file_id = 1, o_size = 2, o_etag = [10, 11],
    o_created = 0, o_parts = None, o_part_ends = None\<rparr>"
  obtain t where t: "fleet_step (\<lambda>b. b) s t" "fl_caches t = (\<lambda>_. cache_empty)" "find_object (fl_db t) [98] [107] = Some ?r"
    "a_objects (abs_of (fl_db t)) ([98], [107]) = Some ([10, 11], [10, 11])"
    by (rule fleet_put [OF fleet.run_ok [OF s(1) fleet_init_ok], of 1 "[98]" "[[10, 11]]" "\<lambda>b. b" 0 "[107]" 0 0])
      (use s in \<open>simp_all add: fits_file_def ROW_BYTES_def\<close>)
  have run: "fleet_run (\<lambda>b. b) fleet_init t" using s(1) t(1) by (rule rtranclp.rtrancl_into_rtrancl)
  then have ok: "db_ok (fl_db t)" using fleet.run_ok [OF _ fleet_init_ok] by (simp add: fleet_ok_def sys_ok_def)
  have range: "eff_range (o_size ?r) 1 5 (-1) = (1, 1)" by (simp add: eff_range_def)
  have "meta_lookup (fl_db t) (fl_caches t 1) [98] [107] = (Some (row_meta ?r), meta_put cache_empty ([98], [107]) (row_meta ?r))"
    by (simp add: meta_lookup_def meta_fresh_def empty_get t(2,3))
  from attempt_described [OF ok lookup_describes [OF t(3)] this t(3) range, of "\<lambda>_. True" 0] t(3,4)
  obtain sm body c' where get: "get_attempt 0 (\<lambda>_. True) (fl_db t) (fetch_part (d_chunks (fl_db t))) (fl_caches t 1)
      [98] [107] 1 5 (-1) = (Some (GetBody sm body), c')" "body_bytes body = Inr [11]"
    by (auto simp: abs_of_def)
  have "\<exists>v data. fleet_run (\<lambda>b. b) fleet_init v \<and> fleet_run (\<lambda>b. b) v t \<and>
      a_objects (abs_of (fl_db v)) ([98], [107]) = Some (data, s_etag sm) \<and> s_size sm = int (length data) \<and>
      (s_start sm, s_end sm) = eff_range (int (length data)) 1 5 (-1) \<and>
      [11] = take (nat (s_end sm - s_start sm + 1)) (drop (nat (s_start sm)) data)"
    by (rule fleet_reads_right [OF run _ _ get, where moment = "\<lambda>_. t" and s = t]) (simp_all add: delivers_def fetch_part_def image_iff)
  with run get show ?thesis by blast
qed

section \<open>Late publication\<close>

text \<open>
  C39. What is cached last wins, not what was committed last. Any gateway can commit an empty object,
  then commit a body of one byte for the same key, publish the metadata of the second commit and then, late, the
  metadata of the first. With nothing in flight any more the database holds the second version, yet the
  cache describes the empty one, and GET answers the old empty body under the old ETag, since no row is missing from it.
\<close>

theorem late_publication_serves_old:
  "\<exists>s0 s1 s2 s3 t r1 r2 out. fleet_run sha fleet_init s0 \<and> fl_news s0 = [] \<and>
    fleet_step sha s0 s1 \<and> a_objects (abs_of (fl_db s1)) (b, k) = Some ([], sha []) \<and>
    find_object (fl_db s1) b k = Some r1 \<and> fl_news s1 = [(i, (b, k), row_meta r1)] \<and>
    fleet_step sha s1 s2 \<and> a_objects (abs_of (fl_db s2)) (b, k) = Some ([5], sha [5]) \<and>
    find_object (fl_db s2) b k = Some r2 \<and> fl_news s2 = [(i, (b, k), row_meta r1), (i, (b, k), row_meta r2)] \<and>
    fleet_step sha s2 s3 \<and> fl_db s3 = fl_db s2 \<and> fl_news s3 = [(i, (b, k), row_meta r1)] \<and>
    fl_caches s3 = (fl_caches s2)(i := meta_put (fl_caches s2 i) (b, k) (row_meta r2)) \<and>
    fleet_step sha s3 t \<and> fl_db t = fl_db s2 \<and> fl_news t = [] \<and> fl_writers t = [] \<and>
    fl_caches t = (fl_caches s3)(i := meta_put (fl_caches s3 i) (b, k) (row_meta r1)) \<and>
    get_object (\<lambda>_. True) (\<lambda>_. fl_db t) (\<lambda>_. fetch_part (d_chunks (fl_db t))) (fl_caches t i) b k None =
      (Some (Inr out), fl_caches t i) \<and>
    body_bytes (go_body out) = Inr [] \<and> go_etag out = etag_of (sha [])"
proof -
  obtain s' where s': "fleet_run sha fleet_init s'" "bucket_exists (fl_db s') b" "d_next_id (fl_db s') = 2"
    "fl_writers s' = [1]" "fl_caches s' = (\<lambda>_. cache_empty)" "fl_news s' = []" by (rule fleet_start)
  obtain s0 where s0: "fleet_step sha s' s0" "fl_db s0 = (fl_db s')\<lparr>d_next_id := 2 + 1\<rparr>" "fl_writers s0 = [1, 2]"
    "fl_caches s0 = (\<lambda>_. cache_empty)" "fl_news s0 = []"
    by (rule fleet_begin [of s' sha]) (use s' in simp_all)
  have run0: "fleet_run sha fleet_init s0" using s'(1) s0(1) by (rule rtranclp.rtrancl_into_rtrancl)
  let ?r = "\<lambda>f data. \<lparr>o_bucket = b, o_key = k, o_file_id = f, o_size = int (length data), o_etag = sha data,
    o_created = 0, o_parts = None, o_part_ends = None\<rparr>"
  have row: "published_meta 0 f (int (length data)) (sha data) None = row_meta (?r f data)" for f data
    by (simp add: published_meta_def row_meta_def)
  obtain s1 where s1: "fleet_step sha s0 s1" "fl_writers s1 = [2]" "fl_caches s1 = (\<lambda>_. cache_empty)"
    "fl_news s1 = [(i, (b, k), row_meta (?r 1 []))]" "bucket_exists (fl_db s1) b"
    "a_objects (abs_of (fl_db s1)) (b, k) = Some ([], sha [])" "find_object (fl_db s1) b k = Some (?r 1 [])"
    by (rule fleet_put [OF fleet.run_ok [OF run0 fleet_init_ok], of 1 b "[]" sha i k 0 0])
      (use s' s0 row [of 1 "[]"] in \<open>simp_all add: fits_file_def bucket_exists_def\<close>)
  have run1: "fleet_run sha fleet_init s1" using run0 s1(1) by (rule rtranclp.rtrancl_into_rtrancl)
  obtain s2 where s2: "fleet_step sha s1 s2" "fl_writers s2 = []" "fl_caches s2 = (\<lambda>_. cache_empty)"
    "fl_news s2 = [(i, (b, k), row_meta (?r 1 [])), (i, (b, k), row_meta (?r 2 [5]))]"
    "a_objects (abs_of (fl_db s2)) (b, k) = Some ([5], sha [5])" "find_object (fl_db s2) b k = Some (?r 2 [5])"
    by (rule fleet_put [OF fleet.run_ok [OF run1 fleet_init_ok], of 2 b "[[5]]" sha i k 0 0])
      (use s1 row [of 2 "[5]"] in \<open>simp_all add: fits_file_def ROW_BYTES_def\<close>)
  let ?s3 = "s2\<lparr>fl_caches := (fl_caches s2)(i := meta_put (fl_caches s2 i) (b, k) (row_meta (?r 2 [5]))),
    fl_news := [(i, (b, k), row_meta (?r 1 []))]\<rparr>"
  let ?t = "?s3\<lparr>fl_caches := (fl_caches ?s3)(i := meta_put (fl_caches ?s3 i) (b, k) (row_meta (?r 1 []))), fl_news := []\<rparr>"
  have s3: "fleet_step sha s2 ?s3"
    using fleet_publish [of sha "fl_db s2" "fl_writers s2" "fl_caches s2" "[(i, (b, k), row_meta (?r 1 []))]" i "(b, k)"
        "row_meta (?r 2 [5])" "[]" "fl_log s2"] s2(4) by (cases s2) simp
  have t: "fleet_step sha ?s3 ?t"
    using fleet_publish [of sha "fl_db ?s3" "fl_writers ?s3" "fl_caches ?s3" "[]" i "(b, k)" "row_meta (?r 1 [])" "[]" "fl_log ?s3"]
    by (cases s2) simp
  let ?out = "\<lparr>go_body = OneShot [], go_length = 0, go_range = None, go_etag = etag_of (sha []), go_modified = 0\<rparr>"
  have "meta_get (fl_caches ?t i) (b, k) = Some (row_meta (?r 1 []))"
    by (simp add: mc.get_put_same mc.inv_put cache_inv_empty s2(3))
  from stale_empty_entry_served [OF this] have get:
    "get_object (\<lambda>_. True) (\<lambda>_. fl_db ?t) (\<lambda>_. fetch_part (d_chunks (fl_db ?t))) (fl_caches ?t i) b k None =
      (Some (Inr ?out), fl_caches ?t i)" by (simp add: row_meta_def)
  have out: "body_bytes (go_body ?out) = Inr []" "go_etag ?out = etag_of (sha [])" by (simp_all add: body_bytes_def)
  have ends: "fl_db ?s3 = fl_db s2" "fl_news ?s3 = [(i, (b, k), row_meta (?r 1 []))]" "fl_db ?t = fl_db s2" "fl_news ?t = []"
    "fl_writers ?t = []" by (simp_all add: s2(2))
  have "fl_caches ?s3 = (fl_caches s2)(i := meta_put (fl_caches s2 i) (b, k) (row_meta (?r 2 [5])))"
    "fl_caches ?t = (fl_caches ?s3)(i := meta_put (fl_caches ?s3 i) (b, k) (row_meta (?r 1 [])))" by simp_all
  note facts = run0 s0(5) s1(1,6,7,4) s2(1,5,6,4) s3 ends(1,2) this(1) t ends(3,4,5) this(2) get out
  show ?thesis
    by (rule exI [of _ s0], rule exI [of _ s1], rule exI [of _ s2], rule exI [of _ ?s3], rule exI [of _ ?t],
        rule exI [of _ "?r 1 []"], rule exI [of _ "?r 2 [5]"], rule exI [of _ ?out], intro conjI) (rule facts)+
qed

end
