(* ===== verification/Listing.thy ===== *)
theory Listing
  imports Gateway "HOL-Library.List_Lexorder"
begin

text \<open>
  ListObjectsV2 and ListBuckets (\<^verbatim>\<open>src/server.rs\<close>: \<^verbatim>\<open>prefix_end\<close>, \<^verbatim>\<open>listing_step\<close>,
  \<^verbatim>\<open>list_objects_v2\<close>, \<^verbatim>\<open>list_buckets\<close>; \<^verbatim>\<open>src/db.rs\<close>: \<^verbatim>\<open>list\<close>, \<^verbatim>\<open>buckets\<close>). Keys compare by
  their UTF-8 bytes, the order of the library on lists. A handler may read several
  times, so it takes what the database shows at each read.
\<close>

section \<open>Strings\<close>

text \<open>
  \<^verbatim>\<open>&s[n..]\<close> takes a byte offset and panics (None) unless it is a character boundary;
  \<^verbatim>\<open>s.find(pat)\<close> is the first match, here counted in characters.
\<close>

fun str_from :: "nat \<Rightarrow> ustring \<Rightarrow> ustring option" where
  "str_from n [] = (if n = 0 then Some [] else None)"
| "str_from n (c # s) =
     (if n = 0 then Some (c # s)
      else if length (utf8_char c) \<le> n then str_from (n - length (utf8_char c)) s else None)"

fun str_find :: "ustring \<Rightarrow> ustring \<Rightarrow> nat option" where
  "str_find pat [] = (if pat = [] then Some 0 else None)"
| "str_find pat (c # s) = (if prefix pat (c # s) then Some 0 else map_option Suc (str_find pat s))"

definition char_from_u32 :: "nat \<Rightarrow> nat option" where
  "char_from_u32 n = (if is_char n then Some n else None)"

function prefix_end :: "ustring \<Rightarrow> ustring" where
  "prefix_end s =
     (if s = [] then [0x10FFFF]
      else
        (case char_from_u32 (last s + 1) of
           Some c \<Rightarrow> butlast s @ [c]
         | None \<Rightarrow> prefix_end (butlast s)))"
  by pat_completeness auto
termination
  by (relation "measure length") auto

declare prefix_end.simps [simp del]

section \<open>The query\<close>

record listed =
  l_key :: ustring
  l_size :: int
  l_etag :: bytes
  l_created :: int

definition listed_row :: "object_row \<Rightarrow> listed" where
  "listed_row r = \<lparr>l_key = o_key r, l_size = o_size r, l_etag = o_etag r, l_created = o_created r\<rparr>"

definition list_rows :: "db \<Rightarrow> ustring \<Rightarrow> ustring \<Rightarrow> ustring \<Rightarrow> ustring \<Rightarrow> nat \<Rightarrow> listed list" where
  "list_rows db b pfx bound after limit =
     take limit (map listed_row (sort_key (\<lambda>r. utf8 (o_key r))
       (filter (\<lambda>r. o_bucket r = b \<and> utf8 pfx \<le> utf8 (o_key r) \<and> utf8 (o_key r) < utf8 bound \<and>
          utf8 after < utf8 (o_key r)) (d_objects db))))"

section \<open>One row of the scan\<close>

record object_entry =
  e_key :: ustring
  e_size :: int
  e_etag :: etag
  e_modified :: int

definition entry_of :: "listed \<Rightarrow> object_entry" where
  "entry_of r = \<lparr>e_key = l_key r, e_size = l_size r, e_etag = etag_of (l_etag r), e_modified = l_created r\<rparr>"

record listing =
  ls_contents :: "object_entry list"
  ls_common :: "ustring list"
  ls_seen :: "ustring set"

text \<open>None is a panic of the slice.\<close>

definition listing_step :: "listed \<Rightarrow> ustring \<Rightarrow> ustring \<Rightarrow> nat \<Rightarrow> listing \<Rightarrow> ((ustring \<times> bool) \<times> listing) option" where
  "listing_step r pfx delimiter mx st =
     (case str_from (length (utf8 pfx)) (l_key r) of
        None \<Rightarrow> None
      | Some rest \<Rightarrow>
          (case (if delimiter \<noteq> [] then str_find delimiter rest else None) of
             Some idx \<Rightarrow>
               (let cp = pfx @ take (idx + length delimiter) rest
                in if cp \<notin> ls_seen st then
                     (let st1 = st\<lparr>ls_seen := insert cp (ls_seen st)\<rparr>
                      in if length (ls_contents st1) + length (ls_common st1) \<ge> mx then Some ((l_key r, True), st1)
                         else Some ((l_key r, False), st1\<lparr>ls_common := ls_common st1 @ [cp]\<rparr>))
                   else Some ((l_key r, False), st))
           | None \<Rightarrow>
               if length (ls_contents st) + length (ls_common st) \<ge> mx then Some ((l_key r, True), st)
               else Some ((l_key r, False), st\<lparr>ls_contents := ls_contents st @ [entry_of r]\<rparr>)))"

section \<open>The handler\<close>

text \<open>The rows of one query; true when the page is full.\<close>

fun scan_rows :: "ustring \<Rightarrow> ustring \<Rightarrow> nat \<Rightarrow> listed list \<Rightarrow> ustring \<Rightarrow> listing \<Rightarrow> (ustring \<times> bool \<times> listing) option" where
  "scan_rows pfx delimiter mx [] after st = Some (after, False, st)"
| "scan_rows pfx delimiter mx (r # rows) after st =
     (case listing_step r pfx delimiter mx st of
        None \<Rightarrow> None
      | Some ((cursor, full), st') \<Rightarrow>
          if full then Some (cursor, True, st') else scan_rows pfx delimiter mx rows cursor st')"

definition LIST_LIMIT :: nat where
  "LIST_LIMIT = 1024"

text \<open>The loop over the queries: None never returns, Some None panics.\<close>

partial_function (option) list_rounds :: "(nat \<Rightarrow> db) \<Rightarrow> nat \<Rightarrow> ustring \<Rightarrow> ustring \<Rightarrow> ustring \<Rightarrow> ustring \<Rightarrow> nat \<Rightarrow>
    ustring \<Rightarrow> listing \<Rightarrow> (ustring \<times> bool \<times> listing) option option" where
  "list_rounds dbs n b pfx bound delimiter mx after st =
     (let rows = list_rows (dbs n) b pfx bound after LIST_LIMIT
      in if rows = [] then Some (Some (after, False, st))
         else
           (case scan_rows pfx delimiter mx rows after st of
              None \<Rightarrow> Some None
            | Some (cursor, full, st') \<Rightarrow>
                if full then Some (Some (cursor, True, st'))
                else if length rows < LIST_LIMIT then Some (Some (cursor, False, st'))
                else list_rounds dbs (Suc n) b pfx bound delimiter mx cursor st'))"

record list_input =
  li_bucket :: ustring
  li_prefix :: "ustring option"
  li_delimiter :: "ustring option"
  li_max_keys :: "int option"
  li_token :: "ustring option"
  li_start_after :: "ustring option"

record list_output =
  lo_name :: ustring
  lo_prefix :: ustring
  lo_max_keys :: int
  lo_key_count :: int
  lo_token :: "ustring option"
  lo_truncated :: bool
  lo_next_token :: "ustring option"
  lo_contents :: "object_entry list"
  lo_common :: "ustring list option"
  lo_delimiter :: "ustring option"

definition unwrap_or :: "'a \<Rightarrow> 'a option \<Rightarrow> 'a" where
  "unwrap_or d x = (case x of None \<Rightarrow> d | Some v \<Rightarrow> v)"

definition start_cursor :: "list_input \<Rightarrow> ustring" where
  "start_cursor input = unwrap_or [] (case li_token input of Some t \<Rightarrow> Some t | None \<Rightarrow> li_start_after input)"

definition page_size :: "list_input \<Rightarrow> nat" where
  "page_size input = nat (min 1000 (max 0 (unwrap_or 1000 (li_max_keys input))))"

definition list_objects_v2 :: "(nat \<Rightarrow> db) \<Rightarrow> list_input \<Rightarrow> (s3_error + list_output) option option" where
  "list_objects_v2 dbs input =
     (let b = li_bucket input
      in if \<not> bucket_exists (dbs 0) b then Some (Some (Inl ENoSuchBucket))
         else
           (let pfx = unwrap_or [] (li_prefix input);
                delimiter = unwrap_or [] (li_delimiter input);
                mx = page_size input
            in case list_rounds dbs 1 b pfx (prefix_end pfx) delimiter mx (start_cursor input)
                   \<lparr>ls_contents = [], ls_common = [], ls_seen = {}\<rparr> of
                 None \<Rightarrow> None
               | Some None \<Rightarrow> Some None
               | Some (Some (after, truncated, st)) \<Rightarrow>
                   Some (Some (Inr
                     \<lparr>lo_name = b, lo_prefix = pfx, lo_max_keys = as_i32 (int mx),
                      lo_key_count = as_i32 (int (length (ls_contents st) + length (ls_common st))),
                      lo_token = li_token input, lo_truncated = truncated,
                      lo_next_token = (if truncated then Some after else None),
                      lo_contents = ls_contents st,
                      lo_common = (if ls_common st \<noteq> [] then Some (ls_common st) else None),
                      lo_delimiter = (if delimiter \<noteq> [] then Some delimiter else None)\<rparr>))))"

text \<open>The collation of the bucket names is the byte order, as for keys.\<close>

definition buckets :: "db \<Rightarrow> (ustring \<times> int) list" where
  "buckets db = sort_key (\<lambda>x. utf8 (fst x)) (d_buckets db)"

record bucket_entry =
  be_name :: "ustring option"
  be_creation :: "int option"

definition list_buckets :: "db \<Rightarrow> bucket_entry list" where
  "list_buckets db = map (\<lambda>(name, created). \<lparr>be_name = Some name, be_creation = Some created\<rparr>) (buckets db)"

end
