(* ===== verification/Listing_Spec.thy ===== *)
theory Listing_Spec
  imports Listing Gateway_Spec
begin

text \<open>
  What a listing answers: the bound of a prefix is exact (with its exceptions), the
  queries of one request together read the sorted keys under the prefix once, and
  the page is the first distinct items of that sequence. Then what goes wrong
  between two pages.
\<close>

section \<open>Byte order and prefixes\<close>

lemma bytes_less_eq: "bytes_less xs ys \<longleftrightarrow> xs < ys"
  by (induction xs ys rule: bytes_less.induct) auto

definition valid_str :: "ustring \<Rightarrow> bool" where
  "valid_str s \<longleftrightarrow> (\<forall>c \<in> set s. is_char c)"

lemma valid_str_bound: "valid_str s \<Longrightarrow> \<forall>c \<in> set s. c < 0x110000"
  by (auto simp: valid_str_def is_char_def)

lemma valid_str_append [simp]: "valid_str (s @ t) \<longleftrightarrow> valid_str s \<and> valid_str t"
  by (auto simp: valid_str_def)

lemma utf8_lt: "valid_str s \<Longrightarrow> valid_str t \<Longrightarrow> utf8 s < utf8 t \<longleftrightarrow> s < t"
  using utf8_less [of s t] valid_str_bound by (simp add: bytes_less_eq)

lemma utf8_eq: "valid_str s \<Longrightarrow> valid_str t \<Longrightarrow> utf8 s = utf8 t \<longleftrightarrow> s = t"
  using utf8_inj valid_str_bound by blast

lemma utf8_le: "valid_str s \<Longrightarrow> valid_str t \<Longrightarrow> utf8 s \<le> utf8 t \<longleftrightarrow> s \<le> t"
  using utf8_lt [of s t] utf8_eq [of s t] by (auto simp: le_less)

lemma append_less_append [simp]:
  fixes p :: "'a::linorder list"
  shows "p @ xs < p @ ys \<longleftrightarrow> xs < ys"
  by (induction p) auto

lemma append_le_append [simp]:
  fixes p :: "'a::linorder list"
  shows "p @ xs \<le> p @ ys \<longleftrightarrow> xs \<le> ys"
  by (induction p) auto

lemma prefix_less_eq:
  fixes p :: "'a::linorder list"
  shows "prefix p k \<Longrightarrow> p \<le> k"
  by (auto simp: prefix_def) (metis append.right_neutral append_le_append Nil_le_Cons)

text \<open>The strings between \<open>q c\<close> and \<open>q (c + 1)\<close> are those that start with \<open>q c\<close>.\<close>

lemma between_successors:
  fixes k :: "nat list"
  shows "q @ [c] \<le> k \<and> k < q @ [Suc c] \<longleftrightarrow> prefix (q @ [c]) k"
proof (induction q arbitrary: k)
  case Nil
  show ?case by (cases k) auto
next
  case (Cons a q)
  show ?case
  proof (cases k)
    case (Cons b k')
    then show ?thesis using Cons.IH [of k'] by auto
  qed simp
qed

lemma prefix_end_Nil [simp]: "prefix_end [] = [0x10FFFF]"
  by (simp add: prefix_end.simps)

lemma prefix_end_snoc [simp]:
  "prefix_end (q @ [c]) = (if is_char (Suc c) then q @ [Suc c] else prefix_end q)"
  by (subst prefix_end.simps) (simp add: char_from_u32_def)

text \<open>
  The bound is exact for prefixes without U+D7FF, whose successor is no character,
  and keys that do not start with U+10FFFF, which has none.
\<close>

lemma prefix_end_exact:
  assumes "valid_str p" and "0xD7FF \<notin> set p" and "valid_str k" and "k = [] \<or> hd k \<noteq> 0x10FFFF"
  shows "valid_str (prefix_end p) \<and> (p \<le> k \<and> k < prefix_end p \<longleftrightarrow> prefix p k)"
  using assms
proof (induction p rule: prefix_end.induct)
  case (1 p)
  show ?case
  proof (cases p rule: rev_cases)
    case Nil
    have "k < [0x10FFFF]"
      using 1(3-) by (cases k) (auto simp: valid_str_def is_char_def)
    with Nil show ?thesis by (simp add: valid_str_def is_char_def)
  next
    case (snoc q c)
    with 1(2,3) have c: "is_char c" "c \<noteq> 0xD7FF" "valid_str q" "0xD7FF \<notin> set q" by (auto simp: valid_str_def)
    show ?thesis
    proof (cases "is_char (Suc c)")
      case True
      with snoc c show ?thesis
        using between_successors [of q c k] by (simp add: valid_str_def)
    next
      case False
      with c have top: "c = 0x10FFFF" by (auto simp: is_char_def)
      from False have bound: "prefix_end p = prefix_end q" by (simp add: snoc)
      have ih: "valid_str (prefix_end q) \<and> (q \<le> k \<and> k < prefix_end q \<longleftrightarrow> prefix q k)"
        using 1(1) snoc False c 1(4,5) by (simp add: char_from_u32_def)
      have "prefix p k" if le: "p \<le> k" and lt: "k < prefix_end q"
      proof -
        have "q \<le> p" using snoc by (simp add: prefix_less_eq)
        from this le have "q \<le> k" by (rule order_trans)
        with ih lt obtain s where k: "k = q @ s" by (auto simp: prefix_def)
        with le snoc top have "[0x10FFFF] \<le> s" by simp
        moreover have "valid_str s" using 1(4) k by simp
        ultimately show ?thesis using k snoc top by (cases s) (auto simp: valid_str_def is_char_def)
      qed
      moreover have "k < prefix_end q \<and> p \<le> k" if "prefix p k"
      proof -
        have "prefix q k" using that snoc append_prefixD by blast
        with ih that show ?thesis by (simp add: prefix_less_eq)
      qed
      ultimately show ?thesis unfolding bound using ih by blast
    qed
  qed
qed


section \<open>The queries of one request\<close>

text \<open>All rows of the query, without its limit.\<close>

definition rows_after :: "db \<Rightarrow> ustring \<Rightarrow> ustring \<Rightarrow> ustring \<Rightarrow> ustring \<Rightarrow> listed list" where
  "rows_after db b p bound after =
     map listed_row (sort_key (\<lambda>r. utf8 (o_key r))
       (filter (\<lambda>r. o_bucket r = b \<and> utf8 p \<le> utf8 (o_key r) \<and> utf8 (o_key r) < utf8 bound \<and>
          utf8 after < utf8 (o_key r)) (d_objects db)))"

lemma list_rows_take: "list_rows db b p bound after n = take n (rows_after db b p bound after)"
  by (simp add: list_rows_def rows_after_def)

definition valid_keys :: "db \<Rightarrow> bool" where
  "valid_keys db \<longleftrightarrow> (\<forall>r \<in> set (d_objects db). valid_str (o_key r) \<and> (o_key r = [] \<or> hd (o_key r) \<noteq> 0x10FFFF))"

lemma rows_after_sorted:
  assumes "db_ok db" and "valid_keys db"
  shows "sorted_wrt (<) (map (\<lambda>r. utf8 (l_key r)) (rows_after db b p bound after))"
proof -
  let ?rs = "filter (\<lambda>r. o_bucket r = b \<and> utf8 p \<le> utf8 (o_key r) \<and> utf8 (o_key r) < utf8 bound \<and>
          utf8 after < utf8 (o_key r)) (d_objects db)"
  have "distinct (map okey ?rs)" using db_okD(2) [OF assms(1)] by (rule distinct_map_filter)
  moreover have "inj_on (\<lambda>r. utf8 (o_key r)) (set ?rs)" if "inj_on okey (set ?rs)"
    using that assms(2) by (auto simp: inj_on_def okey_def valid_keys_def utf8_eq)
  ultimately have "distinct (map (\<lambda>r. utf8 (o_key r)) ?rs)" by (simp add: distinct_map)
  then have "distinct (map (\<lambda>r. utf8 (o_key r)) (sort_key (\<lambda>r. utf8 (o_key r)) ?rs))"
    by (simp add: distinct_map)
  then show ?thesis
    unfolding rows_after_def strict_sorted_iff by (simp add: listed_row_def comp_def)
qed

text \<open>Continuing after a key reads exactly the rows behind it.\<close>

lemma rows_after_cursor:
  assumes "db_ok db" and "valid_keys db" and "rows_after db b p bound after = xs @ r # ys"
  shows "rows_after db b p bound (l_key r) = ys"
proof -
  let ?L = "rows_after db b p bound after"
  let ?k = "\<lambda>r. utf8 (l_key r)"
  have srt: "sorted_wrt (<) (map ?k (xs @ r # ys))" using rows_after_sorted [OF assms(1,2)] assms(3) by metis
  have "r \<in> set ?L" using assms(3) by simp
  then have "utf8 after < ?k r" by (auto simp: rows_after_def listed_row_def)
  then have "rows_after db b p bound (l_key r) = filter (\<lambda>x. ?k r < ?k x) ?L"
    by (auto simp: rows_after_def filter_map filter_sort comp_def listed_row_def intro!: arg_cong [where f = "map listed_row"]
        arg_cong [where f = "sort_key _"] filter_cong)
  also have "\<dots> = ys"
    unfolding assms(3) using srt
    by (auto simp: sorted_wrt_append filter_empty_conv filter_id_conv order_less_imp_not_less)
  finally show ?thesis .
qed

lemma listing_step_cursor: "listing_step r p d mx st = Some ((c, full), st') \<Longrightarrow> c = l_key r"
  by (auto simp: listing_step_def Let_def split: option.splits if_splits)

lemma scan_rows_append:
  "scan_rows p d mx (xs @ ys) after st =
     (case scan_rows p d mx xs after st of
        None \<Rightarrow> None
      | Some (c, full, st') \<Rightarrow> if full then Some (c, True, st') else scan_rows p d mx ys c st')"
  by (induction xs arbitrary: after st) (auto split: option.splits)

lemma scan_rows_cursor:
  "scan_rows p d mx xs after st = Some (c, False, st') \<Longrightarrow> xs \<noteq> [] \<Longrightarrow> c = l_key (last xs)"
  by (induction xs arbitrary: after st)
    (auto split: option.splits prod.splits if_splits dest: listing_step_cursor)

text \<open>Once the database rests, the rounds return, and scan the rows of the whole query.\<close>

lemma list_rounds_rest:
  assumes "db_ok db" and "valid_keys db" and "\<forall>m \<ge> n. dbs m = db"
  shows "list_rounds dbs n b p bound d mx after st =
    Some (scan_rows p d mx (rows_after db b p bound after) after st)"
  using assms(3)
proof (induction "length (rows_after db b p bound after)" arbitrary: n after st rule: less_induct)
  case less
  let ?L = "rows_after db b p bound after"
  let ?xs = "take LIST_LIMIT ?L"
  have split: "scan_rows p d mx ?L after st = (case scan_rows p d mx ?xs after st of
        None \<Rightarrow> None
      | Some (c, full, st') \<Rightarrow> if full then Some (c, True, st') else scan_rows p d mx (drop LIST_LIMIT ?L) c st')"
    using scan_rows_append [of p d mx ?xs "drop LIST_LIMIT ?L" after st] by simp
  show ?case
  proof (cases "?L = []")
    case True
    then show ?thesis using less.prems by (subst list_rounds.simps) (simp add: list_rows_take)
  next
    case False
    then have ne: "?xs \<noteq> []" by (simp add: LIST_LIMIT_def)
    have go: "list_rounds dbs (Suc n) b p bound d mx (l_key (last ?xs)) st' =
        Some (scan_rows p d mx (drop LIST_LIMIT ?L) (l_key (last ?xs)) st')" for st'
    proof -
      have "?L = butlast ?xs @ last ?xs # drop LIST_LIMIT ?L"
        using ne by (metis append_butlast_last_id append_take_drop_id append.assoc append_Cons append_Nil)
      then have rest: "rows_after db b p bound (l_key (last ?xs)) = drop LIST_LIMIT ?L"
        by (rule rows_after_cursor [OF assms(1,2)])
      have "length (drop LIST_LIMIT ?L) < length ?L" using False by (simp add: LIST_LIMIT_def)
      with less.hyps [of "l_key (last ?xs)" "Suc n"] less.prems rest show ?thesis by simp
    qed
    have "drop LIST_LIMIT ?L = []" if "length ?xs < LIST_LIMIT" using that by simp
    with ne go less.prems show ?thesis
      unfolding split
      by (subst list_rounds.simps) (auto simp: list_rows_take Let_def dest!: scan_rows_cursor split: option.splits)
  qed
qed

lemma list_rounds_scan:
  assumes "db_ok db" and "valid_keys db"
  shows "list_rounds (\<lambda>_. db) n b p bound d mx after st =
    Some (scan_rows p d mx (rows_after db b p bound after) after st)"
  by (rule list_rounds_rest [OF assms]) simp

section \<open>The items of a page\<close>

text \<open>What a listing shows for a row: the object, or the prefix it is rolled up under.\<close>

datatype list_item = Entry object_entry | Common ustring

definition roll_up :: "ustring \<Rightarrow> ustring \<Rightarrow> listed \<Rightarrow> list_item" where
  "roll_up p d r =
     (let rest = drop (length p) (l_key r)
      in case (if d \<noteq> [] then str_find d rest else None) of
           Some i \<Rightarrow> Common (p @ take (i + length d) rest)
         | None \<Rightarrow> Entry (entry_of r))"

fun entries :: "list_item list \<Rightarrow> object_entry list" where
  "entries [] = []"
| "entries (Entry e # xs) = e # entries xs"
| "entries (Common _ # xs) = entries xs"

fun commons :: "list_item list \<Rightarrow> ustring list" where
  "commons [] = []"
| "commons (Common c # xs) = c # commons xs"
| "commons (Entry _ # xs) = commons xs"

text \<open>The items of a list in order, each at its first place, without those of \<open>D\<close>.\<close>

fun firsts :: "'a list \<Rightarrow> 'a list \<Rightarrow> 'a list" where
  "firsts D [] = []"
| "firsts D (x # xs) = (if x \<in> set D then firsts D xs else x # firsts (D @ [x]) xs)"

lemma entries_append [simp]: "entries (xs @ ys) = entries xs @ entries ys"
  by (induction xs rule: entries.induct) auto

lemma commons_append [simp]: "commons (xs @ ys) = commons xs @ commons ys"
  by (induction xs rule: commons.induct) auto

lemma items_length: "length (entries xs) + length (commons xs) = length xs"
  by (induction xs rule: entries.induct) auto

lemma firsts_distinct: "distinct xs \<Longrightarrow> set xs \<inter> set D = {} \<Longrightarrow> firsts D xs = xs"
  by (induction xs arbitrary: D) auto

lemma str_from_append: "str_from (length (utf8 p)) (p @ s) = Some s"
proof (induction p)
  case Nil
  show ?case by (cases s) auto
qed simp

definition shows_items :: "list_item list \<Rightarrow> listing \<Rightarrow> bool" where
  "shows_items D st \<longleftrightarrow> ls_contents st = entries D \<and> ls_common st = commons D \<and>
     (\<forall>c. c \<in> ls_seen st \<longleftrightarrow> Common c \<in> set D)"

lemma listing_step_item:
  assumes "prefix p (l_key r)" and "shows_items D st" and "\<forall>e. roll_up p d r = Entry e \<longrightarrow> Entry e \<notin> set D"
  shows "\<exists>st'. listing_step r p d mx st = Some ((l_key r, roll_up p d r \<notin> set D \<and> mx \<le> length D), st') \<and>
    ls_contents st' = entries (if roll_up p d r \<in> set D \<or> mx \<le> length D then D else D @ [roll_up p d r]) \<and>
    ls_common st' = commons (if roll_up p d r \<in> set D \<or> mx \<le> length D then D else D @ [roll_up p d r]) \<and>
    (roll_up p d r \<in> set D \<or> length D < mx \<longrightarrow>
      shows_items (if roll_up p d r \<in> set D then D else D @ [roll_up p d r]) st')"
proof -
  obtain rest where key: "l_key r = p @ rest" using assms(1) by (auto simp: prefix_def)
  have n: "length (ls_contents st) + length (ls_common st) = length D"
    using assms(2) items_length [of D] by (simp add: shows_items_def)
  show ?thesis
    using assms(2,3) n
    by (auto simp: listing_step_def key str_from_append roll_up_def shows_items_def Let_def split: option.splits)
qed

text \<open>
  A scan shows the first \<open>mx\<close> items; the cursor of a full page is the key of a row
  of the next item, the first one not shown.
\<close>

definition page_result :: "ustring \<Rightarrow> ustring \<Rightarrow> nat \<Rightarrow> listed list \<Rightarrow> list_item list \<Rightarrow>
    (ustring \<times> bool \<times> listing) option \<Rightarrow> bool" where
  "page_result p d mx rows items res \<longleftrightarrow>
     (\<exists>c st. res = Some (c, mx < length items, st) \<and> ls_contents st = entries (take mx items) \<and>
        ls_common st = commons (take mx items) \<and>
        (mx < length items \<longrightarrow> (\<exists>r \<in> set rows. c = l_key r \<and> roll_up p d r = items ! mx)))"

lemma page_result_mono: "page_result p d mx rows items res \<Longrightarrow> set rows \<subseteq> set rows' \<Longrightarrow> page_result p d mx rows' items res"
  by (fastforce simp: page_result_def)

lemma scan_rows_items:
  assumes "\<forall>r \<in> set L. prefix p (l_key r)" and "shows_items D st" and "length D \<le> mx"
    and "distinct (map l_key L)" and "\<forall>r \<in> set L. Entry (entry_of r) \<notin> set D"
  shows "page_result p d mx L (D @ firsts D (map (roll_up p d) L)) (scan_rows p d mx L after st)"
  using assms
proof (induction L arbitrary: D after st)
  case Nil
  then show ?case by (auto simp: shows_items_def page_result_def)
next
  case (Cons r L)
  let ?x = "roll_up p d r"
  have ent: "?x = Entry e \<Longrightarrow> e = entry_of r" for e
    by (auto simp: roll_up_def Let_def split: option.splits)
  have new: "\<forall>e. ?x = Entry e \<longrightarrow> Entry e \<notin> set D" using ent Cons.prems(5) by auto
  from listing_step_item [OF _ Cons.prems(2) new, of mx] Cons.prems(1)
  obtain st' where step: "listing_step r p d mx st = Some ((l_key r, ?x \<notin> set D \<and> mx \<le> length D), st')"
    and shown: "ls_contents st' = entries (if ?x \<in> set D \<or> mx \<le> length D then D else D @ [?x])"
      "ls_common st' = commons (if ?x \<in> set D \<or> mx \<le> length D then D else D @ [?x])"
    and inv: "?x \<in> set D \<or> length D < mx \<longrightarrow> shows_items (if ?x \<in> set D then D else D @ [?x]) st'"
    by auto
  have keys: "Entry (entry_of r') \<noteq> ?x" if "r' \<in> set L" for r'
  proof
    assume "Entry (entry_of r') = ?x"
    then have "entry_of r' = entry_of r" using ent by metis
    then have "l_key r' = l_key r" by (simp add: entry_of_def)
    with that Cons.prems(4) show False by (metis distinct.simps(2) image_eqI list.set_map list.simps(9))
  qed
  have rest: "\<forall>r \<in> set L. prefix p (l_key r)" "distinct (map l_key L)" "set L \<subseteq> set (r # L)"
    using Cons.prems(1,4) by auto
  consider (old) "?x \<in> set D" | (full) "?x \<notin> set D" "mx \<le> length D" | (more) "?x \<notin> set D" "length D < mx" by linarith
  then show ?case
  proof cases
    case old
    have "page_result p d mx L (D @ firsts D (map (roll_up p d) L)) (scan_rows p d mx L (l_key r) st')"
      by (rule Cons.IH) (use old inv rest Cons.prems(3,5) in auto)
    from page_result_mono [OF this rest(3)] old step show ?thesis by simp
  next
    case full
    with Cons.prems(3) have "length D = mx" by simp
    with full step shown show ?thesis by (simp add: page_result_def nth_append)
  next
    case more
    have "page_result p d mx L ((D @ [?x]) @ firsts (D @ [?x]) (map (roll_up p d) L)) (scan_rows p d mx L (l_key r) st')"
      by (rule Cons.IH) (use more inv rest keys Cons.prems(5) in auto)
    from page_result_mono [OF this rest(3)] more step show ?thesis by simp
  qed
qed

section \<open>Properties of the listing\<close>

text \<open>The objects of a bucket under a prefix, behind a cursor, in byte order.\<close>

definition keys_under :: "db \<Rightarrow> ustring \<Rightarrow> ustring \<Rightarrow> ustring \<Rightarrow> listed list" where
  "keys_under db b p after =
     map listed_row (sort_key (\<lambda>r. utf8 (o_key r))
       (filter (\<lambda>r. o_bucket r = b \<and> prefix p (o_key r) \<and> utf8 after < utf8 (o_key r)) (d_objects db)))"

lemma rows_after_prefix:
  assumes "valid_keys db" and "valid_str p" and "0xD7FF \<notin> set p"
  shows "rows_after db b p (prefix_end p) after = keys_under db b p after"
proof -
  have "utf8 p \<le> utf8 (o_key r) \<and> utf8 (o_key r) < utf8 (prefix_end p) \<longleftrightarrow> prefix p (o_key r)"
    if "r \<in> set (d_objects db)" for r
    using that assms(1) prefix_end_exact [OF assms(2,3), of "o_key r"]
    by (auto simp: valid_keys_def utf8_le [OF assms(2)] utf8_lt)
  then show ?thesis
    by (auto simp: rows_after_def keys_under_def intro!: arg_cong [where f = "map listed_row"]
        arg_cong [where f = "sort_key _"] filter_cong)
qed

lemma list_rounds_page:
  assumes "db_ok db" and "valid_keys db" and "valid_str p" and "0xD7FF \<notin> set p"
  shows "\<exists>res. list_rounds (\<lambda>_. db) n b p (prefix_end p) d mx after \<lparr>ls_contents = [], ls_common = [], ls_seen = {}\<rparr> =
      Some res \<and> page_result p d mx (keys_under db b p after) (firsts [] (map (roll_up p d) (keys_under db b p after))) res"
proof -
  have "sorted_wrt (<) (map (\<lambda>r. utf8 (l_key r)) (keys_under db b p after))"
    using rows_after_sorted [OF assms(1,2)] rows_after_prefix [OF assms(2-4)] by metis
  then have "distinct (map (utf8 \<circ> l_key) (keys_under db b p after))"
    by (simp add: strict_sorted_iff comp_def)
  then have "distinct (map l_key (keys_under db b p after))" by (auto simp: distinct_map intro: inj_on_imageI2)
  moreover have "\<forall>r \<in> set (keys_under db b p after). prefix p (l_key r)"
    by (auto simp: keys_under_def listed_row_def)
  ultimately show ?thesis
    using scan_rows_items [of "keys_under db b p after" p "[]" "\<lparr>ls_contents = [], ls_common = [], ls_seen = {}\<rparr>" mx d after]
    by (simp add: list_rounds_scan [OF assms(1,2)] rows_after_prefix [OF assms(2-4)] shows_items_def)
qed

lemma unwrap_or_simps [simp]: "unwrap_or d None = d" "unwrap_or d (Some v) = v"
  by (simp_all add: unwrap_or_def)

definition list_items :: "db \<Rightarrow> list_input \<Rightarrow> list_item list" where
  "list_items db input =
     (let p = unwrap_or [] (li_prefix input)
      in firsts [] (map (roll_up p (unwrap_or [] (li_delimiter input)))
           (keys_under db (li_bucket input) p (start_cursor input))))"

definition plain_prefix :: "list_input \<Rightarrow> bool" where
  "plain_prefix input \<longleftrightarrow> (let p = unwrap_or [] (li_prefix input) in valid_str p \<and> 0xD7FF \<notin> set p)"

lemma page_size_bound: "page_size input \<le> 1000"
  by (simp add: page_size_def)

lemma list_objects_page:
  assumes "db_ok db" and "valid_keys db" and "plain_prefix input" and "bucket_exists db (li_bucket input)"
  shows "\<exists>out. list_objects_v2 (\<lambda>_. db) input = Some (Some (Inr out)) \<and>
    lo_contents out = entries (take (page_size input) (list_items db input)) \<and>
    unwrap_or [] (lo_common out) = commons (take (page_size input) (list_items db input)) \<and>
    lo_key_count out = int (length (take (page_size input) (list_items db input))) \<and>
    lo_truncated out = (page_size input < length (list_items db input)) \<and>
    (case lo_next_token out of
       None \<Rightarrow> \<not> lo_truncated out
     | Some t \<Rightarrow> lo_truncated out \<and>
         (\<exists>r \<in> set (keys_under db (li_bucket input) (unwrap_or [] (li_prefix input)) (start_cursor input)).
           t = l_key r \<and> roll_up (unwrap_or [] (li_prefix input)) (unwrap_or [] (li_delimiter input)) r =
             list_items db input ! page_size input))"
proof -
  let ?p = "unwrap_or [] (li_prefix input)" and ?d = "unwrap_or [] (li_delimiter input)"
  let ?L = "keys_under db (li_bucket input) ?p (start_cursor input)"
  have p: "valid_str ?p" "0xD7FF \<notin> set ?p" using assms(3) by (simp_all add: plain_prefix_def Let_def)
  obtain c st where run: "list_rounds (\<lambda>_. db) 1 (li_bucket input) ?p (prefix_end ?p) ?d (page_size input)
        (start_cursor input) \<lparr>ls_contents = [], ls_common = [], ls_seen = {}\<rparr> =
        Some (Some (c, page_size input < length (list_items db input), st))"
    and st: "ls_contents st = entries (take (page_size input) (list_items db input))"
      "ls_common st = commons (take (page_size input) (list_items db input))"
    and c: "page_size input < length (list_items db input) \<longrightarrow>
      (\<exists>r \<in> set ?L. c = l_key r \<and> roll_up ?p ?d r = list_items db input ! page_size input)"
    using list_rounds_page [OF assms(1,2) p, of 1 "li_bucket input" ?d "page_size input" "start_cursor input"]
    by (auto simp: page_result_def list_items_def Let_def)
  have n: "length (ls_contents st) + length (ls_common st) = length (take (page_size input) (list_items db input))"
    unfolding st by (rule items_length)
  have count: "as_i32 (int (length (ls_contents st) + length (ls_common st))) =
      int (length (take (page_size input) (list_items db input)))"
    unfolding n using page_size_bound [of input] by (intro as_i32_id) auto
  show ?thesis
    using assms(4) c run count st
    by (auto simp: list_objects_v2_def Let_def simp del: One_nat_def of_nat_add)
qed

text \<open>A bucket with four empty objects: a, b/x, b/y and c.\<close>

definition empty_row :: "ustring \<Rightarrow> int \<Rightarrow> object_row" where
  "empty_row k f = \<lparr>o_bucket = [98], o_key = k, o_file_id = f, o_size = 0, o_etag = [171],
     o_created = 0, o_parts = None, o_part_ends = None\<rparr>"

fun empty_rows :: "int \<Rightarrow> ustring list \<Rightarrow> object_row list" where
  "empty_rows f [] = []"
| "empty_rows f (k # ks) = empty_row k f # empty_rows (f + 1) ks"

definition empty_objects :: "ustring list \<Rightarrow> db" where
  "empty_objects ks = \<lparr>d_buckets = [([98], 0)], d_objects = empty_rows 1 ks,
     d_chunks = [], d_uploads = [], d_parts = [], d_next_id = int (length ks) + 1\<rparr>"

lemma empty_file: "holds_file [] f []"
  by (simp add: holds_file_def rows_of_file_def file_rows_def pieces.simps fits_file_def)

lemma empty_rows_refs: "concat (map object_refs (empty_rows f ks)) = map (\<lambda>i. (i, 0)) [f..f + int (length ks) - 1]"
proof (induction f ks rule: empty_rows.induct)
  case (2 f k ks)
  have "object_refs (empty_row k f) = [(f, 0)]" by (simp add: object_refs_single empty_row_def)
  moreover have "[f..f + int (length (k # ks)) - 1] = f # [f + 1..f + 1 + int (length ks) - 1]"
    by (subst upto.simps) simp
  ultimately show ?case by (simp add: 2)
qed simp

lemma empty_rows_okey: "map okey (empty_rows f ks) = map (Pair [98]) ks"
  by (induction f ks rule: empty_rows.induct) (auto simp: empty_row_def okey_def)

lemma empty_rows_shape: "r \<in> set (empty_rows f ks) \<Longrightarrow> row_shape r \<and> o_bucket r = [98]"
  by (induction f ks rule: empty_rows.induct) (auto simp: empty_row_def row_shape_def object_refs_single)

lemma empty_objects_ok:
  assumes "distinct ks" and "int (length ks) < 2 ^ 63"
  shows "db_ok (empty_objects ks)"
proof -
  let ?db = "empty_objects ks"
  have refs: "refs ?db = map (\<lambda>i. (i, 0)) [1..int (length ks)]"
    by (simp add: refs_def empty_objects_def empty_rows_refs)
  have "ct.backed [] (refs ?db)"
    unfolding refs ct.backed_def using empty_file by (auto simp: no_file_iff comp_def)
  moreover have "distinct (map okey (d_objects ?db))"
    using assms(1) by (simp add: empty_objects_def empty_rows_okey distinct_map inj_on_def)
  moreover have "\<forall>r \<in> set (d_objects ?db). row_shape r \<and> bucket_exists ?db (o_bucket r)"
    using empty_rows_shape by (fastforce simp: empty_objects_def bucket_exists_def)
  ultimately show ?thesis
    unfolding db_ok_def refs using assms(2) by (simp add: empty_objects_def)
qed

definition abc_db :: db where
  "abc_db = empty_objects [[97], [98, 47, 120], [98, 47, 121], [99]]"

definition list_request :: list_input where
  "list_request = \<lparr>li_bucket = [98], li_prefix = None, li_delimiter = None, li_max_keys = None,
     li_token = None, li_start_after = None\<rparr>"

lemma list_request_simps [simp]:
  "li_bucket list_request = [98]" "li_prefix list_request = None" "li_delimiter list_request = None"
  "li_max_keys list_request = None" "li_token list_request = None" "li_start_after list_request = None"
  by (simp_all add: list_request_def)

lemma abc_ok: "db_ok abc_db" "valid_keys abc_db" "bucket_exists abc_db [98]"
  unfolding abc_db_def
  by (rule empty_objects_ok)
    (simp_all add: valid_keys_def valid_str_def is_char_def empty_objects_def empty_row_def bucket_exists_def)

lemma abc_keys:
  "keys_under abc_db [98] [] [] = map (\<lambda>k. \<lparr>l_key = k, l_size = 0, l_etag = [171], l_created = 0\<rparr>)
    [[97], [98, 47, 120], [98, 47, 121], [99]]"
  by (simp add: keys_under_def abc_db_def empty_objects_def empty_row_def listed_row_def utf8_char_def)

text \<open>
  C12. On a quiet database, for a prefix without U+D7FF and as long as no stored key starts with
  U+10FFFF, ListObjectsV2 returns without a panic, with NoSuchBucket exactly for a bucket that is not there.
  Otherwise it shows exactly the first \<open>max_keys\<close> (at most 1000) items
  of the keys under the prefix behind the cursor in byte order, where the keys that
  share a delimited prefix are one item; it says truncated exactly when there are
  more, and then gives the key of a row of the first item not shown as token.
\<close>

theorem list_page_exact:
  assumes "db_ok db" and "valid_keys db" and "plain_prefix input"
  shows "case list_objects_v2 (\<lambda>_. db) input of
      Some (Some (Inl e)) \<Rightarrow> e = ENoSuchBucket \<and> \<not> bucket_exists db (li_bucket input)
    | Some (Some (Inr out)) \<Rightarrow> bucket_exists db (li_bucket input) \<and>
        lo_contents out = entries (take (page_size input) (list_items db input)) \<and>
        unwrap_or [] (lo_common out) = commons (take (page_size input) (list_items db input)) \<and>
        lo_key_count out = int (length (take (page_size input) (list_items db input))) \<and>
        (case lo_next_token out of
           None \<Rightarrow> \<not> lo_truncated out \<and> length (list_items db input) \<le> page_size input
         | Some t \<Rightarrow> lo_truncated out \<and>
             (\<exists>r \<in> set (keys_under db (li_bucket input) (unwrap_or [] (li_prefix input)) (start_cursor input)).
               t = l_key r \<and> roll_up (unwrap_or [] (li_prefix input)) (unwrap_or [] (li_delimiter input)) r =
                 list_items db input ! page_size input))
    | _ \<Rightarrow> False"
proof (cases "bucket_exists db (li_bucket input)")
  case True
  with list_objects_page [OF assms True] show ?thesis by (auto split: option.splits)
qed (simp add: list_objects_v2_def)

theorem list_page_exact_witness:
  "\<exists>out. list_objects_v2 (\<lambda>_. abc_db) (list_request\<lparr>li_delimiter := Some [47], li_max_keys := Some 2\<rparr>) = Some (Some (Inr out)) \<and>
    map e_key (lo_contents out) = [[97]] \<and> unwrap_or [] (lo_common out) = [[98, 47]] \<and> lo_next_token out = Some [99]"
proof -
  let ?in = "list_request\<lparr>li_delimiter := Some [47], li_max_keys := Some 2\<rparr>"
  have b: "li_bucket ?in = [98]" "unwrap_or [] (li_prefix ?in) = []" "unwrap_or [] (li_delimiter ?in) = [47]"
    "start_cursor ?in = []" "page_size ?in = 2" "plain_prefix ?in"
    by (simp_all add: start_cursor_def page_size_def plain_prefix_def valid_str_def)
  have items: "list_items abc_db ?in =
      [Entry \<lparr>e_key = [97], e_size = 0, e_etag = etag_of [171], e_modified = 0\<rparr>, Common [98, 47],
       Entry \<lparr>e_key = [99], e_size = 0, e_etag = etag_of [171], e_modified = 0\<rparr>]"
    by (simp add: list_items_def b abc_keys roll_up_def entry_of_def)
  have last: "r \<in> set (keys_under abc_db [98] [] []) \<Longrightarrow> roll_up [] [47] r = list_items abc_db ?in ! 2 \<Longrightarrow> l_key r = [99]" for r
    unfolding items by (auto simp: abc_keys roll_up_def entry_of_def)
  show ?thesis
    using list_page_exact [OF abc_ok(1,2) b(6)] last abc_ok(3)
    unfolding b(1-5) items by (auto split: option.splits sum.splits)
qed

lemma list_items_plain:
  assumes "db_ok db" and "valid_keys db" and "plain_prefix input" and "li_delimiter input = None"
  shows "list_items db input = map (\<lambda>r. Entry (entry_of r))
    (keys_under db (li_bucket input) (unwrap_or [] (li_prefix input)) (start_cursor input))"
proof -
  let ?p = "unwrap_or [] (li_prefix input)"
  let ?L = "keys_under db (li_bucket input) ?p (start_cursor input)"
  have p: "valid_str ?p" "0xD7FF \<notin> set ?p" using assms(3) by (simp_all add: plain_prefix_def Let_def)
  have "sorted_wrt (<) (map (\<lambda>r. utf8 (l_key r)) ?L)"
    using rows_after_sorted [OF assms(1,2)] rows_after_prefix [OF assms(2) p] by metis
  then have "distinct (map (\<lambda>r. utf8 (e_key (entry_of r))) ?L)"
    by (simp add: strict_sorted_iff entry_of_def)
  then have "distinct (map (\<lambda>r. Entry (entry_of r)) ?L)"
    by (auto simp: distinct_map inj_on_def)
  moreover have "roll_up ?p [] = (\<lambda>r. Entry (entry_of r))" by (auto simp: roll_up_def)
  ultimately show ?thesis
    by (simp add: list_items_def assms(4) unwrap_or_def firsts_distinct)
qed

lemma entries_map_Entry [simp]: "entries (map (\<lambda>r. Entry (f r)) xs) = map f xs"
  by (induction xs) auto

text \<open>
  C14. Paging loses keys. For a request without a delimiter whose prefix has no U+D7FF, on a quiet database
  in which no key starts with U+10FFFF: the token of a truncated page is the first key that page
  left out, and the page asked for with that token starts strictly behind it, so that
  key is on neither page.
\<close>

theorem listing_skips_boundary_key:
  assumes "db_ok db" and "valid_keys db" and "plain_prefix input" and "li_delimiter input = None"
    and "list_objects_v2 (\<lambda>_. db) input = Some (Some (Inr out))" and "lo_next_token out = Some t"
    and "keys = map l_key (keys_under db (li_bucket input) (unwrap_or [] (li_prefix input)) (start_cursor input))"
  shows "page_size input < length keys \<and> t = keys ! page_size input \<and>
    map e_key (lo_contents out) = take (page_size input) keys \<and>
    (\<exists>out'. list_objects_v2 (\<lambda>_. db) (input\<lparr>li_token := Some t\<rparr>) = Some (Some (Inr out')) \<and>
      map e_key (lo_contents out') = take (page_size input) (drop (Suc (page_size input)) keys))"
proof -
  let ?p = "unwrap_or [] (li_prefix input)" and ?n = "page_size input"
  let ?L = "keys_under db (li_bucket input) ?p (start_cursor input)"
  let ?next = "input\<lparr>li_token := Some t\<rparr>"
  have p: "valid_str ?p" "0xD7FF \<notin> set ?p" using assms(3) by (simp_all add: plain_prefix_def Let_def)
  have b: "bucket_exists db (li_bucket input)"
    using assms(5) by (auto simp: list_objects_v2_def Let_def split: if_splits)
  have size: "length (list_items db input) = length ?L" by (simp add: list_items_plain [OF assms(1-4)])
  from list_objects_page [OF assms(1-3) b] assms(5,6) obtain r where
    lt: "?n < length ?L" and t: "t = l_key r" "Entry (entry_of r) = list_items db input ! ?n"
    and c: "lo_contents out = map entry_of (take ?n ?L)"
    by (auto simp: list_items_plain [OF assms(1-4)] assms(4) unwrap_or_def roll_up_def take_map)
  have "entry_of r = entry_of (?L ! ?n)" using t(2) lt by (simp add: list_items_plain [OF assms(1-4)])
  then have tk: "t = l_key (?L ! ?n)" using t(1) by (simp add: entry_of_def)
  have split: "?L = take ?n ?L @ ?L ! ?n # drop (Suc ?n) ?L" using lt by (rule id_take_nth_drop)
  have rest: "keys_under db (li_bucket input) ?p t = drop (Suc ?n) ?L"
    using rows_after_cursor [OF assms(1,2)] rows_after_prefix [OF assms(2) p] split tk by metis
  have nx: "plain_prefix ?next" "li_delimiter ?next = None" "bucket_exists db (li_bucket ?next)"
    "page_size ?next = ?n" "start_cursor ?next = t"
    using assms(3,4) b by (simp_all add: plain_prefix_def page_size_def start_cursor_def unwrap_or_def)
  obtain out' where "list_objects_v2 (\<lambda>_. db) ?next = Some (Some (Inr out'))"
    "lo_contents out' = map entry_of (take ?n (drop (Suc ?n) ?L))"
    using list_objects_page [OF assms(1,2) nx(1,3)] list_items_plain [OF assms(1,2) nx(1,2)] nx rest
    by (auto simp: take_map)
  with lt tk c show ?thesis
    unfolding assms(7) by (auto simp: take_map drop_map entry_of_def comp_def)
qed


theorem listing_skips_boundary_key_witness:
  "\<exists>out out'. list_objects_v2 (\<lambda>_. abc_db) (list_request\<lparr>li_max_keys := Some 1\<rparr>) = Some (Some (Inr out)) \<and>
    map e_key (lo_contents out) = [[97]] \<and> lo_next_token out = Some [98, 47, 120] \<and>
    list_objects_v2 (\<lambda>_. abc_db) (list_request\<lparr>li_max_keys := Some 1, li_token := Some [98, 47, 120]\<rparr>) =
      Some (Some (Inr out')) \<and>
    map e_key (lo_contents out') = [[98, 47, 121]]"
proof -
  let ?in = "list_request\<lparr>li_max_keys := Some 1\<rparr>"
  have b: "li_bucket ?in = [98]" "unwrap_or [] (li_prefix ?in) = []" "li_delimiter ?in = None"
    "start_cursor ?in = []" "page_size ?in = 1" "plain_prefix ?in"
    by (simp_all add: start_cursor_def page_size_def plain_prefix_def valid_str_def)
  have items: "length (list_items abc_db ?in) = 4"
    by (simp add: list_items_plain [OF abc_ok(1,2) b(6,3)] b abc_keys)
  have ex: "bucket_exists abc_db (li_bucket ?in)" by (simp add: b abc_ok(3))
  from list_objects_page [OF abc_ok(1,2) b(6) ex] obtain out t where
    out: "list_objects_v2 (\<lambda>_. abc_db) ?in = Some (Some (Inr out))" "lo_next_token out = Some t"
    by (auto simp: items b(5) split: option.splits)
  show ?thesis
    using listing_skips_boundary_key [OF abc_ok(1,2) b(6,3) out refl] out
    unfolding b(1,2,4,5) abc_keys by auto
qed

text \<open>A prefix that ends in U+D7FF: its bound is that of the prefix without the character.\<close>

lemma str_from_past: "str_from (length (utf8 p) + n) (p @ s) = str_from n s"
proof (induction p)
  case (Cons c p)
  have "0 < length (utf8_char c)" by (simp add: utf8_char_def)
  with Cons show ?case by simp
qed simp

lemma append_le: "(p :: ustring) @ s \<le> p @ t \<longleftrightarrow> s \<le> t"
  by (induction p) simp_all

lemma four_bytes: "0x10000 \<le> c \<Longrightarrow> length (utf8_char c) = 4"
  by (simp add: utf8_char_def)

lemma rows_after_surrogate:
  assumes keys: "valid_keys db" and q: "valid_str q" "0xD7FF \<notin> set q"
  shows "r \<in> set (rows_after db b (q @ [0xD7FF]) (prefix_end (q @ [0xD7FF])) []) \<longleftrightarrow>
    (\<exists>x \<in> set (d_objects db). r = listed_row x \<and> o_bucket x = b \<and> (\<exists>c s. o_key x = q @ c # s \<and> 0xD7FF \<le> c))"
proof -
  have end': "prefix_end (q @ [0xD7FF]) = prefix_end q" by (simp add: is_char_def)
  have p: "valid_str (q @ [0xD7FF])" using q(1) by (simp add: valid_str_def is_char_def)
  have "utf8 (q @ [0xD7FF]) \<le> utf8 k \<and> utf8 k < utf8 (prefix_end q) \<and> utf8 [] < utf8 k \<longleftrightarrow>
      (\<exists>c s. k = q @ c # s \<and> 0xD7FF \<le> c)" if "valid_str k" "k = [] \<or> hd k \<noteq> 0x10FFFF" for k
  proof -
    note exact = prefix_end_exact [OF q that]
    have nil: "valid_str []" by (simp add: valid_str_def)
    have "(q @ [0xD7FF] \<le> k \<and> k < prefix_end q \<and> [] < k) = (\<exists>c s. k = q @ c # s \<and> 0xD7FF \<le> c)"
    proof (cases "prefix q k")
      case True
      then obtain t where t: "k = q @ t" by (auto simp: prefix_def)
      have "k < prefix_end q" using exact True by simp
      moreover have "q @ [0xD7FF] \<le> k \<longleftrightarrow> [0xD7FF] \<le> t" unfolding t by (rule append_le)
      moreover have "[0xD7FF] \<le> t \<longleftrightarrow> (\<exists>c s. t = c # s \<and> 0xD7FF \<le> c)" by (cases t) auto
      moreover have "[] < q @ c # s" for c s by (cases q) simp_all
      ultimately show ?thesis by (auto simp: t)
    next
      case False
      moreover have "q \<le> q @ [0xD7FF]" using append_le [of q "[]"] by simp
      ultimately have "\<not> (q @ [0xD7FF] \<le> k \<and> k < prefix_end q)" using exact by fastforce
      with False show ?thesis by (auto simp: prefix_def)
    qed
    then show ?thesis
      using exact by (simp only: utf8_le [OF p that(1)] utf8_lt [OF that(1)] utf8_lt [OF nil that(1)])
  qed
  then have "utf8 (q @ [0xD7FF]) \<le> utf8 (o_key x) \<and> utf8 (o_key x) < utf8 (prefix_end q) \<and> utf8 [] < utf8 (o_key x) \<longleftrightarrow>
      (\<exists>c s. o_key x = q @ c # s \<and> 0xD7FF \<le> c)" if "x \<in> set (d_objects db)" for x
    using keys that by (simp add: valid_keys_def)
  moreover have "r \<in> set (rows_after db b p bound []) \<longleftrightarrow> (\<exists>x \<in> set (d_objects db). r = listed_row x \<and> o_bucket x = b \<and>
      (utf8 p \<le> utf8 (o_key x) \<and> utf8 (o_key x) < utf8 bound \<and> utf8 [] < utf8 (o_key x)))" for p bound
    by (auto simp: rows_after_def)
  ultimately show ?thesis unfolding end' by (simp cong: bex_cong)
qed



end
