(* ===== verification/Listing_Rounds.thy ===== *)
theory Listing_Rounds
  imports Listing_Spec
begin

text \<open>
  A listing while others write: \<^verbatim>\<open>list_objects_v2\<close> (\<^verbatim>\<open>server.rs\<close>, \<^verbatim>\<open>list\<close> of \<^verbatim>\<open>db.rs\<close>). Each query of its loop sees the
  database at its own moment (\<open>dbs n\<close>), so a page is no snapshot; what it shows, and what it
  cannot miss, holds all the same.
\<close>

section \<open>The scan of a page that became full\<close>

text \<open>The row that finds the page full changes nothing that is shown.\<close>

lemma listing_step_full:
  "listing_step r p d mx st = Some ((c, True), st') \<Longrightarrow>
    c = l_key r \<and> ls_contents st' = ls_contents st \<and> ls_common st' = ls_common st"
  by (auto simp: listing_step_def Let_def split: option.splits if_splits)

lemma scan_rows_full:
  assumes "scan_rows p d mx rows after st = Some (c, True, st')"
  obtains xs r ys c1 st1 where "rows = xs @ r # ys" and "c = l_key r"
    and "scan_rows p d mx xs after st = Some (c1, False, st1)"
    and "ls_contents st' = ls_contents st1" and "ls_common st' = ls_common st1"
  using assms
proof (induction rows arbitrary: after st thesis)
  case (Cons x rows)
  obtain c0 full st0 where step: "listing_step x p d mx st = Some ((c0, full), st0)"
    using Cons.prems(2) by (auto split: option.splits)
  show ?case
  proof (cases full)
    case True
    with step Cons.prems(2) have "c = c0" "st' = st0" by auto
    with True listing_step_full [of x p d mx st c st'] step show ?thesis
      by (intro Cons.prems(1) [of "[]" x rows]) auto
  next
    case False
    with step Cons.prems(2) have "scan_rows p d mx rows c0 st0 = Some (c, True, st')" by simp
    from Cons.IH [OF _ this] obtain xs r ys c1 st1 where "rows = xs @ r # ys" "c = l_key r"
      "scan_rows p d mx xs c0 st0 = Some (c1, False, st1)" "ls_contents st' = ls_contents st1" "ls_common st' = ls_common st1"
      by metis
    with False step show ?thesis by (intro Cons.prems(1) [of "x # xs" r ys]) auto
  qed
qed simp

lemma listing_step_total: "prefix p (l_key r) \<Longrightarrow> listing_step r p d mx st \<noteq> None"
  by (auto simp: prefix_def listing_step_def str_from_append Let_def split: option.splits)

lemma scan_rows_total: "\<forall>r \<in> set rows. prefix p (l_key r) \<Longrightarrow> scan_rows p d mx rows after st \<noteq> None"
proof (induction rows arbitrary: after st)
  case (Cons r rows)
  then obtain y where "listing_step r p d mx st = Some y" using listing_step_total [of p r d mx st] by auto
  with Cons show ?case by (cases y) auto
qed simp

section \<open>The rows of all queries\<close>

abbreviation in_key_order :: "listed list \<Rightarrow> bool" where
  "in_key_order rows \<equiv> sorted_wrt (<) (map (\<lambda>r. utf8 (l_key r)) rows)"

lemma rows_after_iff:
  "r \<in> set (rows_after db b p bound after) \<longleftrightarrow>
     (\<exists>x \<in> set (d_objects db). r = listed_row x \<and> o_bucket x = b \<and> utf8 p \<le> utf8 (l_key r) \<and>
        utf8 (l_key r) < utf8 bound \<and> utf8 after < utf8 (l_key r))"
  by (auto simp: rows_after_def listed_row_def)

lemma rows_after_later:
  "utf8 after \<le> utf8 c \<Longrightarrow> r \<in> set (rows_after db b p bound c) \<longleftrightarrow>
    r \<in> set (rows_after db b p bound after) \<and> utf8 c < utf8 (l_key r)"
  by (auto simp: rows_after_iff)

lemma in_key_order_before:
  assumes "in_key_order (xs @ r # ys)" and "x \<in> set (xs @ r # ys)"
  shows "utf8 (l_key x) < utf8 (l_key r) \<longleftrightarrow> x \<in> set xs"
  using assms by (auto simp: sorted_wrt_append)

text \<open>
  What a page scanned without filling it up: \<open>rows\<close>, in key order, each found by some query; no
  row that is there at every query, up to the token of a full page, is missing from it.
\<close>

definition scanned :: "(nat \<Rightarrow> db) \<Rightarrow> ustring \<Rightarrow> ustring \<Rightarrow> ustring \<Rightarrow> ustring \<Rightarrow> ustring \<Rightarrow> bool \<Rightarrow> listed list \<Rightarrow> bool" where
  "scanned dbs b p bound after c full rows \<longleftrightarrow>
     in_key_order rows \<and> (\<forall>r \<in> set rows. \<exists>n. r \<in> set (rows_after (dbs n) b p bound after)) \<and>
     (full \<longrightarrow> (\<exists>n. \<exists>r \<in> set (rows_after (dbs n) b p bound after). c = l_key r) \<and>
        (\<forall>r \<in> set rows. utf8 (l_key r) < utf8 c)) \<and>
     (\<forall>r. (\<forall>n. r \<in> set (rows_after (dbs n) b p bound after)) \<and> (full \<longrightarrow> utf8 (l_key r) < utf8 c) \<longrightarrow> r \<in> set rows)"

lemma scannedD:
  assumes "scanned dbs b p bound after c full rows"
  shows "in_key_order rows" and "r \<in> set rows \<Longrightarrow> \<exists>n. r \<in> set (rows_after (dbs n) b p bound after)"
    and "full \<Longrightarrow> \<exists>n. \<exists>r \<in> set (rows_after (dbs n) b p bound after). c = l_key r"
    and "full \<Longrightarrow> r \<in> set rows \<Longrightarrow> utf8 (l_key r) < utf8 c"
    and "(\<And>n. r \<in> set (rows_after (dbs n) b p bound after)) \<Longrightarrow> (full \<Longrightarrow> utf8 (l_key r) < utf8 c) \<Longrightarrow> r \<in> set rows"
proof -
  note d1 = assms [unfolded scanned_def]
  note d2 = conjunct2 [OF d1]
  note d3 = conjunct2 [OF d2]
  note d4 = conjunct2 [OF d3]
  show "in_key_order rows" by (rule conjunct1 [OF d1])
  show "r \<in> set rows \<Longrightarrow> \<exists>n. r \<in> set (rows_after (dbs n) b p bound after)" by (rule bspec [OF conjunct1 [OF d2]])
  show "full \<Longrightarrow> \<exists>n. \<exists>r \<in> set (rows_after (dbs n) b p bound after). c = l_key r"
    by (rule conjunct1 [OF mp [OF conjunct1 [OF d3]]])
  show "full \<Longrightarrow> r \<in> set rows \<Longrightarrow> utf8 (l_key r) < utf8 c"
    by (rule bspec [OF conjunct2 [OF mp [OF conjunct1 [OF d3]]]])
  show "r \<in> set rows" if "\<And>n. r \<in> set (rows_after (dbs n) b p bound after)" "full \<Longrightarrow> utf8 (l_key r) < utf8 c"
    by (rule mp [OF spec [OF d4]]) (iprover intro: that)
qed

lemma scanned_full:
  assumes order: "in_key_order L" and mem: "\<And>r. r \<in> set L \<Longrightarrow> r \<in> set (rows_after (dbs n) b p bound after)"
    and all: "\<And>r. r \<in> set (rows_after (dbs n) b p bound after) \<Longrightarrow> r \<in> set L" and L: "L = xs @ r # ys"
  shows "scanned dbs b p bound after (l_key r) True xs"
proof -
  have "r \<in> set L" "set xs \<subseteq> set L" by (auto simp: L)
  moreover have "utf8 (l_key x) < utf8 (l_key r) \<longleftrightarrow> x \<in> set xs" if "x \<in> set L" for x
    using in_key_order_before order that unfolding L by blast
  moreover have "in_key_order xs" using order by (simp add: L sorted_wrt_append)
  ultimately show ?thesis using mem all unfolding scanned_def by blast
qed

lemma scanned_last:
  assumes "in_key_order L" and "set L = set (rows_after (dbs n) b p bound after)"
  shows "scanned dbs b p bound after c False L"
  using assms by (auto simp: scanned_def)

lemma scanned_more:
  assumes order: "in_key_order (xs @ ys)" and L: "set (xs @ ys) = set (rows_after (dbs n) b p bound after)" and ne: "xs \<noteq> []"
    and rest: "scanned dbs b p bound (l_key (last xs)) c full rows"
  shows "scanned dbs b p bound after c full (xs @ rows)"
proof -
  obtain zs z where xs: "xs = zs @ [z]" by (metis ne rev_exhaust)
  let ?c = "l_key z"
  have rest: "scanned dbs b p bound ?c c full rows" using rest by (simp add: xs)
  have "z \<in> set (rows_after (dbs n) b p bound after)" using L by (auto simp: xs)
  then have "utf8 after \<le> utf8 ?c" by (auto simp: rows_after_iff intro: less_imp_le)
  note later = rows_after_later [OF this]
  have split: "in_key_order (zs @ z # ys)" using order by (simp add: xs)
  have passed: "utf8 (l_key x) \<le> utf8 ?c" if "x \<in> set xs" for x
    using split that by (auto simp: xs sorted_wrt_append intro: less_imp_le)
  have ahead: "utf8 ?c < utf8 (l_key x)" if "x \<in> set (xs @ ys)" "x \<notin> set xs" for x
    using split that by (auto simp: xs sorted_wrt_append)
  have rows: "r \<in> set rows \<Longrightarrow> \<exists>m. r \<in> set (rows_after (dbs m) b p bound after) \<and> utf8 ?c < utf8 (l_key r)" for r
    using scannedD(2) [OF rest] later by blast
  have token: "\<exists>m. \<exists>r \<in> set (rows_after (dbs m) b p bound after). c = l_key r \<and> utf8 ?c < utf8 (l_key r)" if full
    using scannedD(3) [OF rest that] later by blast
  show ?thesis
    unfolding scanned_def
  proof (intro conjI allI impI ballI)
    have "in_key_order xs" "in_key_order rows" using order scannedD(1) [OF rest] by (simp_all add: sorted_wrt_append)
    then show "in_key_order (xs @ rows)" using passed rows by (fastforce simp: sorted_wrt_append)
    show "\<exists>m. r \<in> set (rows_after (dbs m) b p bound after)" if "r \<in> set (xs @ rows)" for r
      using that rows L by auto
    show "\<exists>m. \<exists>r \<in> set (rows_after (dbs m) b p bound after). c = l_key r" if full
      using token [OF that] by blast
    show "utf8 (l_key r) < utf8 c" if full "r \<in> set (xs @ rows)" for r
    proof (cases "r \<in> set xs")
      case True
      from le_less_trans [OF passed [OF this]] token [OF that(1)] show ?thesis by blast
    next
      case False
      with that show ?thesis using scannedD(4) [OF rest that(1)] by simp
    qed
    show "r \<in> set (xs @ rows)"
      if "(\<forall>m. r \<in> set (rows_after (dbs m) b p bound after)) \<and> (full \<longrightarrow> utf8 (l_key r) < utf8 c)" for r
    proof (cases "r \<in> set xs")
      case False
      moreover have "r \<in> set (xs @ ys)" using that L by blast
      ultimately have "\<forall>m. r \<in> set (rows_after (dbs m) b p bound ?c)" using ahead later that by blast
      with that have "r \<in> set rows" by (intro scannedD(5) [OF rest]) blast+
      then show ?thesis by simp
    qed simp
  qed
qed

section \<open>The loop\<close>

definition page_scanned :: "(nat \<Rightarrow> db) \<Rightarrow> ustring \<Rightarrow> ustring \<Rightarrow> ustring \<Rightarrow> ustring \<Rightarrow> nat \<Rightarrow> ustring \<Rightarrow> listing \<Rightarrow>
    (ustring \<times> bool \<times> listing) option \<Rightarrow> bool" where
  "page_scanned dbs b p bound d mx after st res \<longleftrightarrow>
     (\<exists>rows c full st' c1 st1. res = Some (c, full, st') \<and> scanned dbs b p bound after c full rows \<and>
        scan_rows p d mx rows after st = Some (c1, False, st1) \<and>
        ls_contents st' = ls_contents st1 \<and> ls_common st' = ls_common st1)"

lemma page_scannedI:
  assumes "res = Some (c, full, st')" and "scanned dbs b p bound after c full rows"
    and "scan_rows p d mx rows after st = Some (c1, False, st1)"
    and "ls_contents st' = ls_contents st1" and "ls_common st' = ls_common st1"
  shows "page_scanned dbs b p bound d mx after st res"
  unfolding page_scanned_def using assms by blast

definition rows_usable :: "(nat \<Rightarrow> db) \<Rightarrow> ustring \<Rightarrow> ustring \<Rightarrow> ustring \<Rightarrow> bool" where
  "rows_usable dbs b p bound \<longleftrightarrow>
     (\<forall>n after. in_key_order (rows_after (dbs n) b p bound after) \<and>
        (\<forall>r \<in> set (rows_after (dbs n) b p bound after). prefix p (l_key r)))"

lemma scanned_empty: "rows_after (dbs n) b p bound after = [] \<Longrightarrow> scanned dbs b p bound after c False []"
  by (rule scanned_last [of _ _ n]) simp_all

lemma list_round_scanned:
  assumes ok: "rows_usable dbs b p bound"
    and rec: "\<And>after st res. again after st = Some res \<Longrightarrow> page_scanned dbs b p bound d mx after st res"
    and run: "(let rows = list_rows (dbs n) b p bound after LIST_LIMIT
      in if rows = [] then Some (Some (after, False, st))
         else
           (case scan_rows p d mx rows after st of
              None \<Rightarrow> Some None
            | Some (cursor, full, st') \<Rightarrow>
                if full then Some (Some (cursor, True, st'))
                else if length rows < LIST_LIMIT then Some (Some (cursor, False, st'))
                else again cursor st')) = Some res"
  shows "page_scanned dbs b p bound d mx after st res"
proof -
  let ?L = "rows_after (dbs n) b p bound after" and ?xs = "list_rows (dbs n) b p bound after LIST_LIMIT"
  have L: "in_key_order ?L" "\<forall>r \<in> set ?L. prefix p (l_key r)" using ok by (simp_all add: rows_usable_def)
  have xs: "?xs = take LIST_LIMIT ?L" by (rule list_rows_take)
  show ?thesis
  proof (cases "?xs = []")
    case True
    then have "?L = []" unfolding xs by (simp add: LIST_LIMIT_def)
    then have "scanned dbs b p bound after after False []" by (rule scanned_empty [of dbs n])
    with run True show ?thesis by (intro page_scannedI [of res after False st _ _ _ _ _ "[]" _ _ _ after st]) simp_all
  next
    case ne: False
    have "\<forall>r \<in> set ?xs. prefix p (l_key r)" using L(2) by (auto simp: xs dest: in_set_takeD)
    then obtain c full st' where scan: "scan_rows p d mx ?xs after st = Some (c, full, st')"
      using scan_rows_total [of ?xs p d mx after st] by auto
    consider (full) full | (last) "\<not> full" "length ?xs < LIST_LIMIT" | (more) "\<not> full" "\<not> length ?xs < LIST_LIMIT" by blast
    then show ?thesis
    proof cases
      case full
      with scan obtain us r vs c1 st1 where split: "?xs = us @ r # vs" "c = l_key r"
        "scan_rows p d mx us after st = Some (c1, False, st1)" "ls_contents st' = ls_contents st1" "ls_common st' = ls_common st1"
        using scan_rows_full [of p d mx ?xs after st c st'] by metis
      have "?L = us @ r # (vs @ drop LIST_LIMIT ?L)" using split(1) append_take_drop_id [of LIST_LIMIT ?L] by (simp add: xs)
      from scanned_full [where dbs = dbs and n = n, OF L(1) _ _ this]
      have "scanned dbs b p bound after (l_key r) True us" by blast
      moreover have "res = Some (c, True, st')" using scan full run ne by simp
      ultimately show ?thesis using split by (intro page_scannedI [of res c True st' _ _ _ _ _ us _ _ _ c1 st1]) simp_all
    next
      case last
      then have "?xs = ?L" by (simp add: xs)
      moreover have "res = Some (c, False, st')" using scan last run ne by simp
      moreover have "scanned dbs b p bound after c False ?L" by (rule scanned_last [where dbs = dbs and n = n, OF L(1) refl])
      ultimately show ?thesis using scan last by (intro page_scannedI [of res c False st' _ _ _ _ _ ?L _ _ _ c st']) simp_all
    next
      case more
      have c: "c = l_key (last ?xs)" using scan_rows_cursor [of p d mx ?xs after st c st'] scan more ne by simp
      have "again c st' = Some res" using run ne scan more by simp
      from rec [OF this] obtain rows c' full' st2 c1 st1 where page: "res = Some (c', full', st2)"
        "scanned dbs b p bound c c' full' rows" "scan_rows p d mx rows c st' = Some (c1, False, st1)"
        "ls_contents st2 = ls_contents st1" "ls_common st2 = ls_common st1"
        unfolding page_scanned_def by blast
      have "scanned dbs b p bound after c' full' (?xs @ rows)"
        by (rule scanned_more [of _ "drop LIST_LIMIT ?L" dbs n]) (use L(1) ne page(2) c in \<open>simp_all add: xs del: set_append\<close>)
      moreover have "scan_rows p d mx (?xs @ rows) after st = Some (c1, False, st1)"
        using scan more page(3) by (simp add: scan_rows_append)
      ultimately show ?thesis using page(1,4,5) by (intro page_scannedI [of res c' full' st2 _ _ _ _ _ "?xs @ rows"])
    qed
  qed
qed

lemma list_rounds_scanned:
  assumes run: "list_rounds dbs n b p bound d mx after st = Some res" and ok: "rows_usable dbs b p bound"
  shows "page_scanned dbs b p bound d mx after st res"
proof -
  have "rows_usable dbs b p bound \<longrightarrow> page_scanned dbs b p bound d mx after st res"
  proof (rule list_rounds.raw_induct [where P = "\<lambda>dbs n b p bound d mx after st res.
      rows_usable dbs b p bound \<longrightarrow> page_scanned dbs b p bound d mx after st res", OF _ run])
    fix f dbs n b p bound d mx after st res
    assume IH: "\<And>dbs n b p bound d mx after st res. f dbs n b p bound d mx after st = Some res \<Longrightarrow>
        rows_usable dbs b p bound \<longrightarrow> page_scanned dbs b p bound d mx after st res"
      and eq: "(let rows = list_rows (dbs n) b p bound after LIST_LIMIT
        in if rows = [] then Some (Some (after, False, st))
           else
             (case scan_rows p d mx rows after st of
                None \<Rightarrow> Some None
              | Some (cursor, full, st') \<Rightarrow>
                  if full then Some (Some (cursor, True, st'))
                  else if length rows < LIST_LIMIT then Some (Some (cursor, False, st'))
                  else f dbs (Suc n) b p bound d mx cursor st')) = Some res"
    show "rows_usable dbs b p bound \<longrightarrow> page_scanned dbs b p bound d mx after st res"
    proof
      assume ok: "rows_usable dbs b p bound"
      show "page_scanned dbs b p bound d mx after st res"
      proof (rule list_round_scanned [where again = "\<lambda>after st. f dbs (Suc n) b p bound d mx after st" and n = n, OF ok _ eq])
        show "page_scanned dbs b p bound d mx after st res" if "f dbs (Suc n) b p bound d mx after st = Some res" for after st res
          using IH [OF that] ok by simp
      qed
    qed
  qed
  with ok show ?thesis by simp
qed

text \<open>The loop returns once the writers rest.\<close>

lemma list_rounds_returns:
  assumes "db_ok (dbs N)" and "valid_keys (dbs N)" and rest: "\<forall>m \<ge> N. dbs m = dbs N"
  shows "list_rounds dbs n b p bound d mx after st \<noteq> None"
proof (induction "N - n" arbitrary: n after st)
  case 0
  then have "N \<le> n" by simp
  then have "\<forall>m \<ge> n. dbs m = dbs N" using rest order_trans by blast
  from list_rounds_rest [OF assms(1,2) this] show ?case by simp
next
  case (Suc k)
  then have "k = N - Suc n" by simp
  from Suc.hyps(1) [OF this] show ?case
    by (subst list_rounds.simps) (auto simp: Let_def split: option.splits)
qed

section \<open>A page\<close>

text \<open>The rows a listing may show, in the database of the \<open>n\<close>-th query.\<close>

definition listable :: "(nat \<Rightarrow> db) \<Rightarrow> list_input \<Rightarrow> nat \<Rightarrow> listed set" where
  "listable dbs input n =
     set (keys_under (dbs n) (li_bucket input) (unwrap_or [] (li_prefix input)) (start_cursor input))"

text \<open>\<open>behind t k\<close>: a page with the token \<open>t\<close> leaves the key \<open>k\<close> to a later page.\<close>

fun behind :: "ustring option \<Rightarrow> ustring \<Rightarrow> bool" where
  "behind None k \<longleftrightarrow> False"
| "behind (Some t) k \<longleftrightarrow> utf8 t \<le> utf8 k"

lemma keys_usable:
  assumes "\<And>n. db_ok (dbs n) \<and> valid_keys (dbs n)" and "valid_str p" and "0xD7FF \<notin> set p"
  shows "rows_usable dbs b p (prefix_end p)"
  unfolding rows_usable_def
proof (intro allI conjI)
  show "in_key_order (rows_after (dbs n) b p (prefix_end p) after)" for n after
    by (rule rows_after_sorted [OF conjunct1 [OF assms(1)] conjunct2 [OF assms(1)]])
  show "\<forall>r \<in> set (rows_after (dbs n) b p (prefix_end p) after). prefix p (l_key r)" for n after
    unfolding rows_after_prefix [OF conjunct2 [OF assms(1)] assms(2,3)]
    by (auto simp: keys_under_def listed_row_def)
qed

lemma in_key_order_distinct: "in_key_order rows \<Longrightarrow> distinct (map l_key rows)"
  by (induction rows) auto

text \<open>A scan that does not fill the page shows the items of its rows.\<close>

lemma scan_rows_shown:
  assumes "scan_rows p d mx rows after \<lparr>ls_contents = [], ls_common = [], ls_seen = {}\<rparr> = Some (c, False, st)"
    and "in_key_order rows" and "\<forall>r \<in> set rows. prefix p (l_key r)"
  shows "ls_contents st = entries (firsts [] (map (roll_up p d) rows)) \<and>
    ls_common st = commons (firsts [] (map (roll_up p d) rows)) \<and> length (firsts [] (map (roll_up p d) rows)) \<le> mx"
  using scan_rows_items [of rows p "[]" "\<lparr>ls_contents = [], ls_common = [], ls_seen = {}\<rparr>" mx d after] assms
    in_key_order_distinct [OF assms(2)]
  by (auto simp: page_result_def shows_items_def)

lemma list_objects_run:
  assumes "bucket_exists (dbs 0) (li_bucket input)"
    and "list_rounds dbs 1 (li_bucket input) (unwrap_or [] (li_prefix input)) (prefix_end (unwrap_or [] (li_prefix input)))
      (unwrap_or [] (li_delimiter input)) (page_size input) (start_cursor input) \<lparr>ls_contents = [], ls_common = [], ls_seen = {}\<rparr> =
      Some (Some (c, full, st))"
  obtains out where "list_objects_v2 dbs input = Some (Some (Inr out))" and "lo_contents out = ls_contents st"
    and "unwrap_or [] (lo_common out) = ls_common st" and "lo_truncated out = full"
    and "lo_next_token out = (if full then Some c else None)"
  using assms by (simp add: list_objects_v2_def Let_def del: One_nat_def)

lemma listable_iff:
  assumes "valid_keys (dbs n)" and "plain_prefix input"
  shows "r \<in> listable dbs input n \<longleftrightarrow> r \<in> set (rows_after (dbs n) (li_bucket input) (unwrap_or [] (li_prefix input))
    (prefix_end (unwrap_or [] (li_prefix input))) (start_cursor input))"
  using assms rows_after_prefix [OF assms(1)] by (simp add: listable_def plain_prefix_def Let_def)

lemma listable_prefix: "r \<in> listable dbs input n \<Longrightarrow> prefix (unwrap_or [] (li_prefix input)) (l_key r)"
  by (auto simp: listable_def keys_under_def listed_row_def)

text \<open>
  C13. A listing while others write: each of its queries sees the database at its own moment. For a prefix without
  U+D7FF, as long as no key that is ever stored starts with U+10FFFF and if
  the writers rest at some point, ListObjectsV2 returns, without a panic. What it shows are the items of rows
  in strict byte order of the keys, so no key twice, each of which was in the bucket under the prefix at the moment of
  one of the queries; at most a page of them; a truncated page ends before its token, which is such a key too. And an object
  that stays in the bucket all the while is not missed: it is one of the rows unless its key is at or behind the token.
\<close>

theorem list_page_concurrent:
  assumes "\<forall>n. db_ok (dbs n) \<and> valid_keys (dbs n)" and "plain_prefix input" and "\<forall>m \<ge> N. dbs m = dbs N"
  shows "case list_objects_v2 dbs input of
      Some (Some (Inl e)) \<Rightarrow> e = ENoSuchBucket \<and> \<not> bucket_exists (dbs 0) (li_bucket input)
    | Some (Some (Inr out)) \<Rightarrow> bucket_exists (dbs 0) (li_bucket input) \<and>
        (\<exists>rows items. items = firsts [] (map (roll_up (unwrap_or [] (li_prefix input)) (unwrap_or [] (li_delimiter input))) rows) \<and>
          lo_contents out = entries items \<and> unwrap_or [] (lo_common out) = commons items \<and>
          length items \<le> page_size input \<and> in_key_order rows \<and>
          (\<forall>r \<in> set rows. (\<exists>n. r \<in> listable dbs input n) \<and> \<not> behind (lo_next_token out) (l_key r)) \<and>
          (\<forall>r. (\<forall>n. r \<in> listable dbs input n) \<and> \<not> behind (lo_next_token out) (l_key r) \<longrightarrow> r \<in> set rows)) \<and>
        (case lo_next_token out of
           None \<Rightarrow> \<not> lo_truncated out
         | Some t \<Rightarrow> lo_truncated out \<and> (\<exists>n. \<exists>r \<in> listable dbs input n. t = l_key r))
    | _ \<Rightarrow> False"
proof (cases "bucket_exists (dbs 0) (li_bucket input)")
  case True
  let ?b = "li_bucket input" and ?p = "unwrap_or [] (li_prefix input)" and ?d = "unwrap_or [] (li_delimiter input)"
  let ?bound = "prefix_end ?p" and ?after = "start_cursor input"
  have p: "valid_str ?p" "0xD7FF \<notin> set ?p" using assms(2) by (simp_all add: plain_prefix_def Let_def)
  have dbs: "db_ok (dbs n) \<and> valid_keys (dbs n)" for n using assms(1) by blast
  note rows_iff = listable_iff [where dbs = dbs, OF conjunct2 [OF dbs] assms(2), symmetric]
  note usable = keys_usable [where dbs = dbs, OF dbs p, of ?b]
  obtain res where run: "list_rounds dbs 1 ?b ?p ?bound ?d (page_size input) ?after \<lparr>ls_contents = [], ls_common = [], ls_seen = {}\<rparr> = Some res"
    using list_rounds_returns [OF conjunct1 [OF dbs] conjunct2 [OF dbs] assms(3)] by blast
  from list_rounds_scanned [OF run usable] obtain rows c full st' c1 st1 where
    res: "res = Some (c, full, st')" and sc: "scanned dbs ?b ?p ?bound ?after c full rows"
    and scan: "scan_rows ?p ?d (page_size input) rows ?after \<lparr>ls_contents = [], ls_common = [], ls_seen = {}\<rparr> = Some (c1, False, st1)"
    and st: "ls_contents st' = ls_contents st1" "ls_common st' = ls_common st1"
    unfolding page_scanned_def by blast
  obtain out where out: "list_objects_v2 dbs input = Some (Some (Inr out))" "lo_contents out = ls_contents st'"
    "unwrap_or [] (lo_common out) = ls_common st'" "lo_truncated out = full" "lo_next_token out = (if full then Some c else None)"
    using list_objects_run [OF True run [unfolded res]] by metis
  have mem: "\<exists>n. r \<in> listable dbs input n" if "r \<in> set rows" for r
    using scannedD(2) [OF sc that] unfolding rows_iff .
  have "\<forall>r \<in> set rows. prefix ?p (l_key r)" using mem listable_prefix by blast
  note shown = scan_rows_shown [OF scan scannedD(1) [OF sc] this]
  have ahead: "\<not> behind (lo_next_token out) (l_key r)" if "r \<in> set rows" for r
    using scannedD(4) [OF sc _ that] out(5) by (auto simp: not_le)
  have all: "r \<in> set rows" if "\<forall>n. r \<in> listable dbs input n" "\<not> behind (lo_next_token out) (l_key r)" for r
    using that out(5) by (intro scannedD(5) [OF sc]) (simp_all add: rows_iff not_le)
  have token: "\<exists>n. \<exists>r \<in> listable dbs input n. c = l_key r" if full
    using scannedD(3) [OF sc that] unfolding Bex_def rows_iff .
  show ?thesis
    using True shown scannedD(1) [OF sc] mem ahead all token
    by (auto simp: out st)
qed (simp add: list_objects_v2_def)

theorem list_page_concurrent_witness:
  "\<exists>out. list_objects_v2 (\<lambda>n. if n = 0 then abc_db else empty_objects [[97], [99]]) list_request = Some (Some (Inr out)) \<and>
    length (lo_contents out) \<le> 1000"
proof -
  let ?dbs = "\<lambda>n::nat. if n = 0 then abc_db else empty_objects [[97], [99]]"
  have "db_ok (empty_objects [[97], [99]])" by (rule empty_objects_ok) simp_all
  moreover have "valid_keys (empty_objects [[97], [99]])"
    by (simp add: valid_keys_def valid_str_def is_char_def empty_objects_def empty_row_def)
  ultimately have ok: "\<forall>n. db_ok (?dbs n) \<and> valid_keys (?dbs n)" by (simp add: abc_ok)
  have pre: "plain_prefix list_request" "\<forall>m \<ge> 1. ?dbs m = ?dbs 1" "page_size list_request = 1000"
    by (simp_all add: plain_prefix_def valid_str_def page_size_def)
  have small: "length xs \<le> 1000 \<Longrightarrow> length (entries xs) \<le> 1000" for xs using items_length [of xs] by linarith
  show ?thesis
    using list_page_concurrent [OF ok pre(1,2)] abc_ok(3) pre(3)
    by (auto simp: small split: option.splits sum.splits)
qed

end
