(* ===== verification/Expiry_Hole.thy ===== *)
theory Expiry_Hole
  imports Expiry Gateway_Spec
begin

text \<open>
  What follows when an expiry (\<^verbatim>\<open>schema.sql\<close>: \<^verbatim>\<open>s3p.expire_uploads\<close>) spends its whole budget on
  rows of a part: the record of the part stays, Complete accepts it, and the object it publishes
  cannot be read.
\<close>

section \<open>An expiry only deletes\<close>

definition only_deletes :: "db \<Rightarrow> db \<Rightarrow> bool" where
  "only_deletes db db' \<longleftrightarrow> (\<exists>P. d_chunks db' = filter P (d_chunks db)) \<and> (\<exists>P. d_parts db' = filter P (d_parts db)) \<and>
     (\<exists>P. d_uploads db' = filter P (d_uploads db)) \<and> d_objects db' = d_objects db \<and> d_buckets db' = d_buckets db"

lemma all_filter: "\<exists>P. xs = filter P xs"
  by (rule exI [of _ "\<lambda>_. True"]) simp

lemma only_deletes_refl: "only_deletes db db"
  by (simp add: only_deletes_def all_filter)

lemma only_deletes_trans: "only_deletes db db' \<Longrightarrow> only_deletes db' db'' \<Longrightarrow> only_deletes db db''"
  unfolding only_deletes_def by (elim conjE exE) (simp, metis filter_filter)

lemma only_deletes_rows:
  "only_deletes db (db\<lparr>d_chunks := filter P (d_chunks db)\<rparr>)"
  "only_deletes db (db\<lparr>d_parts := filter Q (d_parts db)\<rparr>)"
  by (auto simp: only_deletes_def all_filter)

lemma drop_upload_deletes: "only_deletes db (drop_upload uid db)"
  by (auto simp: only_deletes_def drop_upload_def all_filter)

lemma expire_part_deletes:
  assumes "expire_part max_rows removed uid p db = (removed', db')"
  shows "only_deletes db db'"
proof -
  let ?db1 = "db\<lparr>d_chunks := filter (\<lambda>c. \<not> (fst c = pt_file_id p \<and> fst (snd c) \<in>
    set (doomed_rows db (pt_file_id p) (max_rows - removed)))) (d_chunks db)\<rparr>"
  let ?db2 = "?db1\<lparr>d_parts := filter (\<lambda>q. \<not> (pt_upload q = uid \<and> pt_no q = pt_no p)) (d_parts ?db1)\<rparr>"
  have "only_deletes db ?db1" "only_deletes ?db1 ?db2" by (rule only_deletes_rows)+
  then have "only_deletes db ?db1" "only_deletes db ?db2" "only_deletes db (drop_upload uid ?db2)"
    using only_deletes_trans drop_upload_deletes by blast+
  then show ?thesis using assms unfolding expire_part_def Let_def by (auto simp del: db.simps split: if_splits)
qed

lemma expire_loop_deletes: "expire_loop n victims max_rows removed db = (removed', db') \<Longrightarrow> only_deletes db db'"
proof (induction n arbitrary: removed db)
  case (Suc n)
  show ?case
  proof (cases "victims db")
    case (Cons u us)
    show ?thesis
    proof (cases "sort_key pt_no (parts_of db (up_id u))")
      case Nil
      with Suc Cons drop_upload_deletes only_deletes_trans show ?thesis by fastforce
    next
      case (Cons p ps)
      obtain r1 db1 where one: "expire_part max_rows removed (up_id u) p db = (r1, db1)" by fastforce
      have "db' = db1 \<or> expire_loop n victims max_rows r1 db1 = (removed', db')"
        using Suc.prems \<open>victims db = u # us\<close> Cons one by (auto split: if_splits)
      with expire_part_deletes [OF one] Suc.IH only_deletes_trans show ?thesis by blast
    qed
  qed (use Suc.prems in \<open>simp add: only_deletes_refl\<close>)
qed (simp add: only_deletes_refl)

lemma expire_uploads_deletes: "expire_uploads now locked grace mx bucket db = (r, db') \<Longrightarrow> only_deletes db db'"
  by (auto simp: expire_uploads_def only_deletes_refl split: option.splits if_splits prod.splits dest: expire_loop_deletes)

text \<open>A file that got shorter lacks one of its rows.\<close>

lemma shorter_file_gap:
  assumes "d_chunks db1 = filter P (d_chunks db)" and "holds_file (d_chunks db) f data"
    and "length (file_bytes (d_chunks db1) f) < length data"
  obtains no where "0 \<le> no" and "no < row_count data" and "\<forall>x \<in> set (d_chunks db1). fst x = f \<longrightarrow> fst (snd x) \<noteq> no"
proof -
  have rows: "rows_of_file (d_chunks db) f = file_rows f data" using assms(2) by (simp add: holds_file_def)
  have rows1: "rows_of_file (d_chunks db1) f = filter P (file_rows f data)"
    using rows by (simp add: assms(1) rows_of_file_def conj_commute flip: rows)
  have "\<not> (\<forall>x \<in> set (file_rows f data). P x)"
  proof
    assume "\<forall>x \<in> set (file_rows f data). P x"
    then have "rows_of_file (d_chunks db1) f = file_rows f data" unfolding rows1 by (rule filter_True)
    with assms(3) show False by (simp add: file_bytes_def file_rows_bytes)
  qed
  then obtain x where x: "x \<in> set (file_rows f data)" "\<not> P x" by blast
  have "fst (snd y) \<noteq> fst (snd x)" if "y \<in> set (d_chunks db1)" "fst y = f" for y
  proof
    assume same: "fst (snd y) = fst (snd x)"
    have "y \<in> set (rows_of_file (d_chunks db1) f)" using that by (simp add: rows_of_file_def)
    then have y: "y \<in> set (file_rows f data)" "P y" by (simp_all add: rows1)
    have "y = x"
      using file_rows_row_of [OF x(1)] file_rows_row_of [OF y(1)] fst_file_rows [OF x(1)] fst_file_rows [OF y(1)] same
      by (simp add: prod_eq_iff)
    with x(2) y(2) show False by simp
  qed
  then show thesis using file_rows_row_of [OF x(1)] by (intro that [of "fst (snd x)"]) auto
qed

section \<open>Reading an object with a gap\<close>

text \<open>The rows a table holds are rows of the files of \<open>content\<close>.\<close>

definition rows_match :: "(int \<Rightarrow> bytes) \<Rightarrow> chunk_row list \<Rightarrow> bool" where
  "rows_match content chunks \<longleftrightarrow>
     (\<forall>(f, no, data) \<in> set chunks. 0 \<le> no \<and> no < row_count (content f) \<and> data = row_of content f no)"

lemma rows_match_fetch: "rows_match content chunks \<Longrightarrow> rows_from content p (fetch_part chunks p)"
  by (fastforce simp: rows_match_def rows_from_def fetch_part_def select_range_def row_ok_def)

text \<open>The content with another first byte in one row.\<close>

definition flipped :: "(int \<Rightarrow> bytes) \<Rightarrow> int \<Rightarrow> int \<Rightarrow> int \<Rightarrow> bytes" where
  "flipped content f no =
     content(f := (content f)[nat no * ROW_BYTES := content f ! (nat no * ROW_BYTES) + 1])"

lemma length_flipped [simp]: "length (flipped content f no g) = length (content g)"
  by (simp add: flipped_def)

lemma row_in_file: "0 \<le> no \<Longrightarrow> no < row_count data \<Longrightarrow> nat no * ROW_BYTES < length data"
  by (simp add: row_count_def length_pieces ROW_BYTES_def nat_less_iff flip: less_div_ceil)

lemma flipped_differs: "0 \<le> no \<Longrightarrow> no < row_count (content f) \<Longrightarrow> flipped content f no f \<noteq> content f"
  using row_in_file [of no "content f"]
  by (auto simp: flipped_def dest!: arg_cong [where f = "\<lambda>xs. xs ! (nat no * ROW_BYTES)"])

lemma flipped_row:
  assumes "0 \<le> no" and "0 \<le> no'" and "no' < row_count (content g)" and "g \<noteq> f \<or> no' \<noteq> no"
  shows "row_of (flipped content f no) g no' = row_of content g no'"
proof (cases "g = f")
  case True
  have "nat no * ROW_BYTES < nat no' * ROW_BYTES \<or> nat no' * ROW_BYTES + ROW_BYTES \<le> nat no * ROW_BYTES"
  proof (cases "nat no < nat no'")
    case False
    with assms(1,2,4) True have "Suc (nat no') \<le> nat no" by arith
    then have "Suc (nat no') * ROW_BYTES \<le> nat no * ROW_BYTES" by (rule mult_le_mono1)
    then show ?thesis by (simp add: ac_simps)
  qed (simp add: ROW_BYTES_def)
  moreover have "nat no' < div_ceil (length (content f)) ROW_BYTES"
    using assms(2,3) True by (simp add: row_count_def length_pieces ROW_BYTES_def nat_less_iff)
  moreover have "0 < ROW_BYTES" by (simp add: ROW_BYTES_def)
  moreover have "j + n \<le> i \<Longrightarrow> take n (drop j (xs[i := v])) = take n (drop j xs)" for i j n v and xs :: bytes
    by (intro nth_equalityI) (auto simp: nth_list_update)
  ultimately show ?thesis
    by (auto simp: row_of_def True flipped_def nth_pieces drop_update_cancel)
qed (simp add: row_of_def flipped_def)

lemma flipped_match:
  assumes "rows_match content chunks" and "0 \<le> no" and "\<forall>x \<in> set chunks. fst x = f \<longrightarrow> fst (snd x) \<noteq> no"
  shows "rows_match (flipped content f no) chunks"
proof -
  have count: "row_count (flipped content f no g) = row_count (content g)" for g
    by (simp add: row_count_def length_pieces ROW_BYTES_def)
  show ?thesis
    using assms flipped_row [OF assms(2), of _ content] unfolding rows_match_def count by fastforce
qed

lemma concat_map_same:
  "concat (map g xs) = concat (map h xs) \<Longrightarrow> \<forall>x. length (g x) = length (h x) \<Longrightarrow> x \<in> set xs \<Longrightarrow> g x = h x"
  by (induction xs) (auto simp: append_eq_append_conv)

lemma described_same:
  assumes coh: "coherent db c" and obj: "find_object db b k = Some r"
    and m: "meta_get c (b, k) = Some m \<or> (\<exists>(i :: nat) r. find_object db b k = Some r \<and> m = row_meta r)"
  shows "segments m = segments (row_meta r)" and "m_size m = o_size r"
proof -
  have "describes db (b, k) m"
    using m coh obj by (auto simp: coherent_def describes_def row_meta_def dest: mc.entriesD)
  then show "segments m = segments (row_meta r)" and "m_size m = o_size r"
    using obj by (auto simp: describes_def segments_def row_meta_def split: option.split)
qed

text \<open>The attempts of a read that finds the row answer something, an error or a body of its range.\<close>

definition answer_for :: "object_row \<Rightarrow> int \<times> int \<Rightarrow> get_result \<Rightarrow> bool" where
  "answer_for r rng res \<longleftrightarrow>
     (case res of
        GetNone \<Rightarrow> False
      | GetBody sm _ \<Rightarrow> s_size sm = o_size r \<and> (s_start sm, s_end sm) = rng
      | _ \<Rightarrow> True)"

lemma attempt_answers:
  assumes coh: "coherent db c" and obj: "find_object db b k = Some r"
  shows "\<exists>res c'. get_attempt i accepts db fetch c b k first last' suffix' = (res, c') \<and> coherent db c' \<and>
    (case res of None \<Rightarrow> i \<noteq> 1 | Some g \<Rightarrow> answer_for r (eff_range (o_size r) first last' suffix') g)"
proof -
  obtain mo c0 where look: "meta_lookup db c b k = (mo, c0)" by fastforce
  obtain m where m: "mo = Some m" using lookup_coherent(2) [OF coh look] obj by auto
  have c0: "coherent db c0" by (rule lookup_coherent(1) [OF coh look])
  have size: "m_size m = o_size r" using lookup_coherent(3) [OF coh look m] obj by (auto simp: describes_def)
  obtain s e where rng: "eff_range (o_size r) first last' suffix' = (s, e)" by fastforce
  have "case attempt_with i accepts fetch m (s, e) of None \<Rightarrow> i \<noteq> 1 | Some g \<Rightarrow> answer_for r (s, e) g"
    by (auto simp: attempt_with_def answer_for_def Let_def size split: list.split sum.split)
  then have main: "case attempt_with i accepts fetch m (eff_range (m_size m) first last' suffix') of
      None \<Rightarrow> i \<noteq> 1 | Some g \<Rightarrow> answer_for r (eff_range (o_size r) first last' suffix') g" unfolding size rng .
  show ?thesis
  proof (rule get_attempt_with [OF look [unfolded m], of i accepts fetch first last' suffix'])
    fix c1
    assume run: "get_attempt i accepts db fetch c b k first last' suffix' =
        (attempt_with i accepts fetch m (eff_range (m_size m) first last' suffix'), c1)"
      and "c1 = c0 \<or> c1 = meta_invalidate c0 (b, k)"
    then have "coherent db c1" using c0 coherent_invalidate by blast
    with run main show ?thesis by blast
  qed
qed

lemma attempts_answer:
  assumes coh: "coherent db c" and obj: "find_object db b k = Some r"
  shows "\<exists>res c'. get_body accepts (\<lambda>_. db) fetch c b k first last' suffix' = (Some res, c') \<and>
    answer_for r (eff_range (o_size r) first last' suffix') res"
proof -
  obtain r0 c0 where first_try: "get_attempt 0 accepts db (fetch 0) c b k first last' suffix' = (r0, c0)" "coherent db c0"
    "case r0 of None \<Rightarrow> True | Some g \<Rightarrow> answer_for r (eff_range (o_size r) first last' suffix') g"
    using attempt_answers [OF coh obj, of 0 accepts "fetch 0" first last' suffix'] by (auto split: option.splits)
  show ?thesis
  proof (cases r0)
    case None
    with first_try(1) attempt_answers [OF first_try(2) obj, of 1 accepts "fetch 1" first last' suffix'] show ?thesis
      by (auto simp: get_body_def split: option.splits)
  qed (use first_try in \<open>simp add: get_body_def\<close>)
qed

lemma torn_read_fails:
  assumes coh: "coherent db c" "cache_inv c" and obj: "find_object db b k = Some r" and size: "0 < o_size r"
    and ok: "meta_ok content (row_meta r)" and match: "rows_match content (d_chunks db)"
    and gap: "f \<in> fst ` set (object_refs r)" "0 \<le> no" "no < row_count (content f)"
      "\<forall>x \<in> set (d_chunks db). fst x = f \<longrightarrow> fst (snd x) \<noteq> no"
  shows "\<exists>res c'. get_object (\<lambda>_. True) (\<lambda>_. db) (\<lambda>_. fetch_part (d_chunks db)) c b k None = (Some res, c') \<and>
    (case res of Inl e \<Rightarrow> e = EInternal | Inr out \<Rightarrow> \<exists>err. body_bytes (go_body out) = Inl err)"
proof -
  let ?fetch = "\<lambda>_ :: nat. fetch_part (d_chunks db)" and ?other = "flipped content f no"
  have eff: "eff_range (o_size r) 0 (-1) (-1) = (0, o_size r - 1)" by (simp add: eff_range_def)
  obtain res c' where get: "get_body (\<lambda>_. True) (\<lambda>_. db) ?fetch c b k 0 (-1) (-1) = (Some res, c')"
    and answer: "answer_for r (0, o_size r - 1) res"
    using attempts_answer [OF coh(1) obj, of "\<lambda>_. True" ?fetch 0 "-1" "-1"] unfolding eff by blast
  have fails: "s_size sm = o_size r \<and> s_start sm = 0 \<and> s_end sm = o_size r - 1 \<and> (\<exists>err. body_bytes body = Inl err)"
    if body: "res = GetBody sm body" for sm body
  proof -
    let ?known = "\<lambda>m. meta_get c (b, k) = Some m \<or> (\<exists>(i :: nat) r. find_object db b k = Some r \<and> m = row_meta r)"
    have row_size: "m_size (row_meta r) = o_size r" by (simp add: row_meta_def)
    have whole: "slice_of g m 0 (o_size r - 1) = object_bytes g (row_meta r)"
      if "?known m" "meta_ok g (row_meta r)" for g m
    proof -
      have "object_bytes g m = object_bytes g (row_meta r)"
        using described_same(1) [OF coh(1) obj that(1)] by (simp add: object_bytes_def)
      moreover have "int (length (object_bytes g (row_meta r))) = o_size r" using that(2) by (simp add: meta_ok_def row_size)
      ultimately show ?thesis by (simp add: slice_of_def nat_le_iff)
    qed
    have known_ok: "meta_ok g m" if "?known m" "meta_ok g (row_meta r)" for g m
      using that(2) described_same [OF coh(1) obj that(1)] by (simp add: meta_ok_def object_bytes_def row_size)
    have other: "meta_ok ?other (row_meta r)"
    proof -
      have "length (object_bytes ?other (row_meta r)) = length (object_bytes content (row_meta r))"
        by (simp add: object_bytes_def length_concat comp_def case_prod_unfold)
      with ok show ?thesis by (auto simp: meta_ok_def fits_file_def)
    qed
    have exact: "\<exists>m. ?known m \<and> s_size sm = m_size m \<and> (s_start sm, s_end sm) = eff_range (m_size m) 0 (-1) (-1) \<and>
        bs = slice_of g m (s_start sm) (s_end sm)"
      if g: "meta_ok g (row_meta r)" "rows_match g (d_chunks db)" and bs: "body_bytes body = Inr bs" for g bs
      using get_body_never_wrong [where dbs = "\<lambda>_. db" and content = g, OF _ _ _ coh(2) get(1) [unfolded body] bs]
        known_ok [OF _ g(1)] rows_match_fetch [OF g(2)] by blast
    have "\<not> (\<exists>bs. body_bytes body = Inr bs)"
    proof
      assume "\<exists>bs. body_bytes body = Inr bs"
      then obtain bs where bs: "body_bytes body = Inr bs" ..
      have bytes: "bs = object_bytes g (row_meta r)" if g: "meta_ok g (row_meta r)" "rows_match g (d_chunks db)" for g
      proof -
        obtain m where m: "?known m" "(s_start sm, s_end sm) = eff_range (m_size m) 0 (-1) (-1)"
          "bs = slice_of g m (s_start sm) (s_end sm)" using exact [OF g bs] by blast
        have "s_start sm = 0 \<and> s_end sm = o_size r - 1"
          using m(2) unfolding described_same(2) [OF coh(1) obj m(1)] eff by simp
        with m(3) whole [OF m(1) g(1)] show ?thesis by simp
      qed
      from bytes [OF ok match] bytes [OF other flipped_match [OF match gap(2,4)]]
      have "object_bytes content (row_meta r) = object_bytes ?other (row_meta r)" by simp
      then have "concat (map (content \<circ> fst) (object_refs r)) = concat (map (?other \<circ> fst) (object_refs r))"
        by (simp add: object_bytes_refs)
      moreover have "\<forall>x :: int \<times> int. length ((content \<circ> fst) x) = length ((?other \<circ> fst) x)" by simp
      moreover obtain l where "(f, l) \<in> set (object_refs r)" using gap(1) by auto
      ultimately have "(content \<circ> fst) (f, l) = (?other \<circ> fst) (f, l)" by (rule concat_map_same)
      with flipped_differs [where content = content, OF gap(2,3)] show False by simp
    qed
    then have "\<exists>err. body_bytes body = Inl err" by (cases "body_bytes body") auto
    moreover have "s_size sm = o_size r \<and> s_start sm = 0 \<and> s_end sm = o_size r - 1"
      using answer body by (simp add: answer_for_def)
    ultimately show ?thesis by simp
  qed
  show ?thesis
  proof (cases res)
    case (GetBody sm body)
    with get fails [OF GetBody] size show ?thesis by (auto simp: get_object_def)
  qed (use get answer in \<open>auto simp: get_object_def answer_for_def\<close>)
qed

section \<open>Completing an upload that lost rows\<close>

lemma file_bytes_delete: "length (file_bytes (delete_files chunks ids) f) \<le> length (file_bytes chunks f)"
proof (cases "f \<in> set ids")
  case True
  then have "rows_of_file (delete_files chunks ids) f = []"
    by (auto simp: rows_of_file_def delete_files_def filter_empty_conv)
  then show ?thesis by (simp add: file_bytes_def)
next
  case False
  then have "rows_of_file (delete_files chunks ids) f = rows_of_file chunks f"
    by (auto simp: rows_of_file_def delete_files_def intro: filter_cong)
  then show ?thesis by (simp add: file_bytes_def)
qed

lemma swap_object_row:
  assumes "distinct (map okey (d_objects db))" and "swap_object now b k w db = Inr db'"
  shows "find_object db' b k = Some (written_row now b k w)"
    and "length (file_bytes (d_chunks db') f) \<le> length (file_bytes (d_chunks db) f)"
proof -
  obtain db1 where up: "upsert_object now b k w db = Inr db1"
    and db': "db' = (case find_object db b k of None \<Rightarrow> db1 | Some r \<Rightarrow> reap (o_file_id r) (o_parts r) db1)"
    using assms(2) by (auto simp: swap_object_def Let_def split: if_splits sum.splits option.splits)
  note objs = upsert_objects [OF assms(1) up]
  have d': "d_objects db' = d_objects db1" by (simp add: db' reap_def split: option.split)
  have "okey (written_row now b k w) = (b, k)" by (simp add: okey_def written_row_def)
  moreover have "distinct (map okey (d_objects db1))"
  proof -
    have "mset (map okey (d_objects db1)) = mset (map okey (written_row now b k w # others db b k))" using objs(2) by simp
    moreover have "distinct (map okey (written_row now b k w # others db b k))"
      using assms(1) calculation
      by (auto simp: others_def distinct_map_filter at_key_okey \<open>okey (written_row now b k w) = (b, k)\<close>)
    ultimately show ?thesis by (metis mset_eq_imp_distinct_iff)
  qed
  moreover have "written_row now b k w \<in> set (d_objects db1)" using objs(2) by (metis union_single_eq_member set_mset_mset)
  ultimately show "find_object db' b k = Some (written_row now b k w)"
    using find_object_Some [of db' b k] by (simp add: d')
  have "d_chunks db1 = d_chunks db" by (subst objs(1)) simp
  then show "length (file_bytes (d_chunks db') f) \<le> length (file_bytes (d_chunks db) f)"
    using file_bytes_delete by (simp add: db' reap_def split: option.split)
qed


text \<open>
  Complete looks at the records of the parts alone: with the upload there, every recorded part
  listed with its digest and no file of a part in another object, it publishes the joined row.
\<close>

lemma complete_accepts:
  fixes sha t
  assumes keys: "distinct (map pkey (d_parts db))" "distinct (map up_id (d_uploads db))"
    and up: "upload_exists db uid b k" and bucket: "bucket_exists db b"
    and listing: "a_listing_ok (abs_of db) uid listed"
    and unshared: "\<forall>r \<in> set (d_objects db). \<forall>p \<in> set (sorted_parts db uid). o_file_id r \<noteq> pt_file_id p"
    and sizes: "\<forall>p \<in> set (sorted_parts db uid). 0 \<le> pt_size p" "sum_list (map pt_size (sorted_parts db uid)) < 2 ^ 63"
  defines "rows \<equiv> sorted_parts db uid"
  defines "w \<equiv> \<lparr>w_file_id = map pt_file_id rows ! 0, w_size = sum_list (map pt_size rows),
      w_etag = sha (concat (map pt_sha rows)), w_parts = Some (map pt_file_id rows, scan_ends 0 rows),
      w_condition = Unconditional\<rparr>"
  obtains db' where "swap_object t b k w db = Inr db'" and "rows \<noteq> []"
    and "complete_tx sha t uid b k listed db = (Inr (CompleteDone b k (w_etag w) (w_size w), map pt_file_id rows,
      scan_ends 0 rows), drop_upload uid db')"
proof -
  have listed: "listed \<noteq> []" "map fst (sort_key fst listed) = map pt_no rows"
    "map snd (sort_key fst listed) = map (hex \<circ> pt_sha) rows"
    using listing by (simp_all add: listing_ok_iff [OF keys(1)] rows_def)
  then have len: "length (sort_key fst listed) = length rows" by (metis length_map)
  have want: "sort_key fst listed \<noteq> []" using listed(1) by (metis length_0_conv length_sort)
  with len have rows: "rows \<noteq> []" by auto
  obtain u where u: "u \<in> set (d_uploads db)" "up_id u = uid" "up_bucket u = b" "up_key u = k"
    using up by (auto simp: upload_exists_def)
  have found: "List.find (\<lambda>u. up_id u = uid) (d_uploads db) = Some u"
    using find_unique [OF keys(2), of "\<lambda>u. up_id u = uid" uid u] u(1,2) by simp
  have "last (0 # scan_ends 0 rows) = w_size w"
    using scan_ends_sums(2) [of 0 rows] sizes by (simp add: w_def rows_def del: last.simps)
  then have scan: "complete_scan (sort_key fst listed) rows 0 =
      Some (map pt_file_id rows, scan_ends 0 rows, w_size w, concat (map pt_sha rows))"
    by (simp add: complete_scan_eq [OF len] listed(2,3) del: last.simps)
  have "hd rows \<in> set rows" "map pt_file_id rows ! 0 = pt_file_id (hd rows)" using rows by (simp_all add: hd_conv_nth)
  with unshared have "\<not> (\<exists>r \<in> set (d_objects db). \<not> at_key b k r \<and> o_file_id r = w_file_id w)"
    by (auto simp: w_def rows_def)
  then obtain db' where swap: "swap_object t b k w db = Inr db'"
    using bucket by (cases "find_object db b k") (auto simp: swap_object_def upsert_object_def Let_def w_def write_allowed_def)
  have "complete_tx sha t uid b k listed db = (Inr (CompleteDone b k (w_etag w) (w_size w), map pt_file_id rows,
      scan_ends 0 rows), drop_upload uid db')"
    using found scan len want swap u
    by (simp add: complete_tx_def Let_def rows_def sorted_parts_def w_def)
  from that [OF swap rows this] show thesis .
qed

text \<open>The rows of the table, by the files of the tables that refer to them.\<close>

lemma db_ok_match: "db_ok db \<Longrightarrow> rows_match (file_bytes (d_chunks db)) (d_chunks db)"
  unfolding rows_match_def
proof (intro ballI, clarify)
  fix f no data assume ok: "db_ok db" and row: "(f, no, data) \<in> set (d_chunks db)"
  then obtain l where "(f, l) \<in> set (refs db)" using db_ok_no_orphans by force
  from ct.backed_holds [OF db_okD(1) [OF ok] this] obtain d where d: "holds_file (d_chunks db) f d" by blast
  have "(f, no, data) \<in> set (rows_of_file (d_chunks db) f)" using row by (simp add: rows_of_file_def)
  then have "(f, no, data) \<in> set (file_rows f d)" using d by (simp add: holds_file_def)
  from file_rows_row_of [OF this] show "0 \<le> no \<and> no < row_count (file_bytes (d_chunks db) f) \<and> data = row_of (file_bytes (d_chunks db)) f no"
    by (simp add: row_of_def holds_file_bytes [OF d])
qed

lemma rows_match_subset: "rows_match content chunks \<Longrightarrow> set chunks' \<subseteq> set chunks \<Longrightarrow> rows_match content chunks'"
  by (auto simp: rows_match_def)

lemma part_refs_ok:
  assumes ok: "db_ok db" and sub: "set rows \<subseteq> set (d_parts db)" and refs: "object_refs r = map part_ref rows"
    and size: "o_size r = sum_list (map pt_size rows)"
  shows "meta_ok (file_bytes (d_chunks db)) (row_meta r)"
proof -
  have held: "int (length (file_bytes (d_chunks db) f)) = l \<and> fits_file (file_bytes (d_chunks db) f)"
    if "(f, base, l) \<in> set (segments (row_meta r))" for f base l
  proof -
    from that have "(f, l) \<in> set (object_refs r)" by (force simp: object_refs_def)
    then have "(f, l) \<in> set (refs db)" using sub by (auto simp: refs refs_def)
    from ct.backed_holds [OF db_okD(1) [OF ok] this] show ?thesis
      using holds_file_bytes by (fastforce simp: holds_file_def)
  qed
  have "object_bytes (file_bytes (d_chunks db)) (row_meta r) = concat (map (file_bytes (d_chunks db) \<circ> pt_file_id) rows)"
    by (simp add: object_bytes_refs refs part_ref_def comp_def)
  then have "int (length (object_bytes (file_bytes (d_chunks db)) (row_meta r))) = o_size r"
    using joined_length [OF ok sub] by (simp add: size)
  with held show ?thesis by (auto simp: meta_ok_def row_meta_def)
qed

lemma swap_object_chunks: "swap_object now b k w db = Inr db' \<Longrightarrow> set (d_chunks db') \<subseteq> set (d_chunks db)"
  by (auto simp: swap_object_def upsert_object_def reap_def delete_files_def Let_def split: if_splits option.splits)

text \<open>An object of parts one of which lost rows: its metadata is wrong and no GET of it succeeds.\<close>

lemma short_part_fails:
  assumes ok: "db_ok db" and parts: "set rows \<subseteq> set (d_parts db)" and refs: "object_refs r = map part_ref rows"
    and size: "o_size r = sum_list (map pt_size rows)" and find: "find_object db2 b k = Some r" and p: "p \<in> set rows"
    and lost: "d_chunks db1 = filter P (d_chunks db)"
      "length (file_bytes (d_chunks db1) (pt_file_id p)) < length (file_bytes (d_chunks db) (pt_file_id p))"
    and chunks: "set (d_chunks db2) \<subseteq> set (d_chunks db1)"
      "length (file_bytes (d_chunks db2) (pt_file_id p)) \<le> length (file_bytes (d_chunks db1) (pt_file_id p))"
  shows "\<not> meta_ok (file_bytes (d_chunks db2)) (row_meta r) \<and> (\<forall>c. coherent db2 c \<and> cache_inv c \<longrightarrow>
      (\<exists>res c'. get_object (\<lambda>_. True) (\<lambda>_. db2) (\<lambda>_. fetch_part (d_chunks db2)) c b k None = (Some res, c') \<and>
        (case res of Inl e \<Rightarrow> e = EInternal | Inr out \<Rightarrow> \<exists>err. body_bytes (go_body out) = Inl err)))"
proof -
  let ?content = "file_bytes (d_chunks db)" and ?f = "pt_file_id p"
  have pdb: "p \<in> set (d_parts db)" using p parts by blast
  have psize: "pt_size p = int (length (?content ?f))" by (rule part_sizes [OF ok pdb])
  have "\<forall>q \<in> set rows. 0 \<le> pt_size q" using part_sizes [OF ok] parts by auto
  then have "pt_size p \<le> sum_list (map pt_size rows)" using p by (intro member_le_sum_list) auto
  with psize lost(2) size have pos: "0 < o_size r" by linarith
  have meta: "meta_ok ?content (row_meta r)" by (rule part_refs_ok [OF ok parts refs size])
  have "set (d_chunks db2) \<subseteq> set (d_chunks db)" using chunks(1) by (auto simp: lost(1))
  then have match: "rows_match ?content (d_chunks db2)" by (rule rows_match_subset [OF db_ok_match [OF ok]])
  have ref: "(?f, pt_size p) \<in> set (object_refs r)" using p by (auto simp: refs part_ref_def)
  have "(?f, pt_size p) \<in> set (refs db)" using pdb by (auto simp: refs_def part_ref_def)
  from ct.backed_holds [OF db_okD(1) [OF ok] this] obtain d where d: "holds_file (d_chunks db) ?f d" by blast
  obtain no where no: "0 \<le> no" "no < row_count d" "\<forall>x \<in> set (d_chunks db1). fst x = ?f \<longrightarrow> fst (snd x) \<noteq> no"
    using shorter_file_gap [OF lost(1) d] lost(2) holds_file_bytes [OF d] by auto
  have gap: "?f \<in> fst ` set (object_refs r)" "no < row_count (?content ?f)"
    "\<forall>x \<in> set (d_chunks db2). fst x = ?f \<longrightarrow> fst (snd x) \<noteq> no"
    using ref no chunks(1) holds_file_bytes [OF d] by force+
  have "int (length (file_bytes (d_chunks db2) ?f)) \<noteq> pt_size p" using lost(2) chunks(2) psize by simp
  moreover obtain base where "(?f, base, pt_size p) \<in> set (segments (row_meta r))" using ref by (auto simp: object_refs_def)
  ultimately have "\<not> meta_ok (file_bytes (d_chunks db2)) (row_meta r)" by (auto simp: meta_ok_def)
  with torn_read_fails [OF _ _ find pos meta match gap(1) no(1) gap(2,3)] show ?thesis by blast
qed



end
