(* ===== verification/Filler.thy ===== *)
theory Filler
  imports Pgvs3_Prelude
begin

unbundle bit_operations_syntax

text \<open>
  The deterministic filler and the split of the work of the \<^verbatim>\<open>seed\<close> command
  (\<^verbatim>\<open>src/seed.rs\<close>): a splitmix64 stream written out as little-endian bytes, and the
  objects each task writes.
\<close>

section \<open>The stream\<close>

definition GAMMA :: "64 word" where
  "GAMMA = 0x9E3779B97F4A7C15"

definition mix :: "64 word \<Rightarrow> 64 word" where
  "mix s =
     (let z1 = (s XOR drop_bit 30 s) * 0xBF58476D1CE4E5B9;
          z2 = (z1 XOR drop_bit 27 z1) * 0x94D049BB133111EB
      in z2 XOR drop_bit 31 z2)"

text \<open>The filler is its state; \<^verbatim>\<open>next_u64\<close> returns the word and the new state.\<close>

definition next_u64 :: "64 word \<Rightarrow> 64 word \<times> 64 word" where
  "next_u64 state = (let state' = state + GAMMA in (mix state', state'))"

definition le_bytes :: "64 word \<Rightarrow> bytes" where
  "le_bytes w = map (\<lambda>i. ucast (drop_bit (8 * i) w)) [0..<8]"

text \<open>
  \<^verbatim>\<open>fill\<close> of a buffer of \<open>n\<close> bytes: whole words, then a tail from one more word, which is
  drawn also when the tail is empty.
\<close>

fun fill :: "nat \<Rightarrow> 64 word \<Rightarrow> bytes \<times> 64 word" where
  "fill n state =
     (if n < 8 then
        (case next_u64 state of
           (tail, state') \<Rightarrow> (map (\<lambda>i. ucast (drop_bit (8 * i) tail)) [0..<n], state'))
      else
        (case next_u64 state of
           (w, state') \<Rightarrow>
             (case fill (n - 8) state' of (rest, state'') \<Rightarrow> (le_bytes w @ rest, state''))))"

declare fill.simps [simp del]

section \<open>The finalizer is a bijection\<close>

definition unshift :: "nat \<Rightarrow> 64 word \<Rightarrow> 64 word" where
  "unshift k y = y XOR drop_bit k y XOR drop_bit (2 * k) y"

lemma unshift_shift:
  assumes "64 \<le> 3 * k"
  shows "unshift k (z XOR drop_bit k z) = z"
proof -
  have "drop_bit (3 * k) z = 0" using assms by (intro bit_word_eqI) (simp add: bit_drop_bit_eq bit_imp_le_length)
  then have "drop_bit k (drop_bit k (drop_bit k z)) = 0" by (simp add: drop_bit_drop_bit numeral_3_eq_3)
  then show ?thesis
    by (simp add: unshift_def drop_bit_xor xor.assoc mult_2 flip: drop_bit_drop_bit)

qed

lemma mult_inverses:
  "(0xBF58476D1CE4E5B9 :: 64 word) * 0x96DE1B173F119089 = 1"
  "(0x94D049BB133111EB :: 64 word) * 0x319642B2D24D8EC3 = 1"
  "(0xF1DE83E19937733D :: 64 word) * GAMMA = 1"
  by (simp_all add: GAMMA_def)

definition unmix :: "64 word \<Rightarrow> 64 word" where
  "unmix y =
     (let z2 = unshift 31 y * 0x319642B2D24D8EC3;
          z1 = unshift 27 z2 * 0x96DE1B173F119089
      in unshift 30 z1)"

lemma unmix_mix: "unmix (mix s) = s"
proof -
  have cancel: "z * 0xBF58476D1CE4E5B9 * 0x96DE1B173F119089 = z"
    "z * 0x94D049BB133111EB * 0x319642B2D24D8EC3 = z" for z :: "64 word"
    using mult_inverses by (simp_all only: mult.assoc mult_1_right)
  show ?thesis by (simp add: unmix_def mix_def Let_def unshift_shift cancel)
qed

lemma mix_inject [simp]: "mix s = mix t \<longleftrightarrow> s = t"
  using unmix_mix by metis

lemma le_bytes_inject: "le_bytes v = le_bytes w \<longleftrightarrow> v = w"
proof
  assume eq: "le_bytes v = le_bytes w"
  show "v = w"
  proof (rule bit_word_eqI)
    fix i assume "i < LENGTH(64)"
    then have "i div 8 < 8" by simp
    then have "(ucast (drop_bit (8 * (i div 8)) v) :: byte) = ucast (drop_bit (8 * (i div 8)) w)"
      using arg_cong [OF eq, of "\<lambda>xs. xs ! (i div 8)"] by (simp add: le_bytes_def)
    then have "bit (ucast (drop_bit (8 * (i div 8)) v) :: byte) (i mod 8) =
        bit (ucast (drop_bit (8 * (i div 8)) w) :: byte) (i mod 8)" by simp
    then show "bit v i = bit w i" by (simp add: bit_simps)
  qed
qed simp

section \<open>The words of a stream\<close>

definition word_at :: "64 word \<Rightarrow> nat \<Rightarrow> 64 word" where
  "word_at seed i = mix (seed + of_nat (Suc i) * GAMMA)"

lemma GAMMA_cancel: "x * GAMMA = y * GAMMA \<longleftrightarrow> x = y"
proof -
  have "0xF1DE83E19937733D * (z * GAMMA) = z" for z
    by (subst mult.left_commute) (simp only: mult_inverses mult_1_right)
  then show ?thesis by metis
qed

lemma word_at_inject:
  assumes "i < 2 ^ 64" and "j < 2 ^ 64"
  shows "word_at seed i = word_at seed j \<longleftrightarrow> i = j"
proof -
  have "of_nat (Suc i) = (of_nat (Suc j) :: 64 word) \<longleftrightarrow> of_nat i = (of_nat j :: 64 word)" by simp
  also have "\<dots> \<longleftrightarrow> i = j" using assms by (simp add: word_of_nat_eq_iff take_bit_nat_eq_self)
  finally show ?thesis by (simp add: word_at_def GAMMA_cancel del: of_nat_Suc)
qed

lemma next_word: "next_u64 seed = (word_at seed 0, seed + GAMMA)"
  by (simp add: next_u64_def word_at_def Let_def)

lemma word_at_shift: "word_at (seed + GAMMA) i = word_at seed (Suc i)"
  by (simp add: word_at_def algebra_simps)

lemma fill_stream:
  "fill n seed =
     (map (\<lambda>j. ucast (drop_bit (8 * (j mod 8)) (word_at seed (j div 8)))) [0..<n],
      seed + of_nat (Suc (n div 8)) * GAMMA)"
proof (induction n seed rule: fill.induct)
  case (1 n seed)
  show ?case
  proof (cases "n < 8")
    case True
    then show ?thesis by (subst fill.simps) (simp add: next_word)
  next
    case False
    let ?f = "\<lambda>j. ucast (drop_bit (8 * (j mod 8)) (word_at seed (j div 8))) :: byte"
    have eight: "(x + 8) div 8 = Suc (x div 8)" for x :: nat by simp
    have e: "seed + GAMMA + of_nat (Suc ((n - 8) div 8)) * GAMMA = seed + of_nat (Suc (n div 8)) * GAMMA"
      using False by (simp add: le_div_geq algebra_simps)
    have ih: "fill (n - 8) (seed + GAMMA) = (map (\<lambda>j. ?f (j + 8)) [0..<n - 8], seed + of_nat (Suc (n div 8)) * GAMMA)"
      using 1 [OF False next_word [symmetric]] by (simp only: word_at_shift e) (simp add: eight)
    have "[0..<n] = [0..<8] @ map (\<lambda>j. j + 8) [0..<n - 8]"
      using False upt_add_eq_append [of 0 8 "n - 8"] by (simp add: map_add_upt)
    then have "map ?f [0..<n] = map ?f [0..<8] @ map (\<lambda>j. ?f (j + 8)) [0..<n - 8]"
      by (simp only: map_append map_map comp_def)
    moreover have "map ?f [0..<8] = le_bytes (word_at seed 0)" by (simp add: le_bytes_def)
    ultimately show ?thesis
      using False by (subst fill.simps) (simp add: next_word ih)
  qed
qed

text \<open>
  A filled buffer holds the bytes of the splitmix64 stream in little-endian
  order, a prefix of one stream whatever the length, and no word of a stream of up to
  2 ^ 64 words repeats; the filler then stands one word behind the last whole one.
\<close>

theorem fill_exact:
  "fill n seed =
     (map (\<lambda>j. ucast (drop_bit (8 * (j mod 8)) (word_at seed (j div 8)))) [0..<n],
      seed + of_nat (Suc (n div 8)) * GAMMA) \<and>
   inj_on (word_at seed) {..<2 ^ 64}"
  by (intro conjI inj_onI fill_stream) (simp add: word_at_inject)

section \<open>The work of the seed command\<close>

text \<open>
  \<open>n\<close> objects over \<open>tasks\<close> tasks: task \<open>t\<close> writes the objects from \<open>t * per_task\<close> on.
  The object size wraps at the width of \<^verbatim>\<open>usize\<close>, as in the release build; a zero size is a division by zero
  in \<^verbatim>\<open>div_ceil\<close>, here None.
\<close>

definition seed_object_bytes :: "nat \<Rightarrow> nat" where
  "seed_object_bytes object_mib = (object_mib * 1024 * 1024) mod 2 ^ 64"

definition seed_objects :: "nat \<Rightarrow> nat \<Rightarrow> nat option" where
  "seed_objects total_bytes object_mib =
     (let object_bytes = seed_object_bytes object_mib
      in if object_bytes = 0 then None else Some (div_ceil total_bytes object_bytes))"

definition seed_task :: "nat \<Rightarrow> nat \<Rightarrow> nat \<Rightarrow> nat list" where
  "seed_task n tasks t =
     (let per_task = div_ceil n (max tasks 1)
      in [t * per_task..<min ((t + 1) * per_task) n])"

lemma seed_tasks_upto:
  "concat (map (\<lambda>t. [t * k..<min ((t + 1) * k) n]) [0..<m]) = [0..<min (m * k) n]"
proof (induction m)
  case (Suc m)
  have "[0..<min (m * k) n] @ [m * k..<min ((m + 1) * k) n] = [0..<min (Suc m * k) n]"
  proof (cases "m * k \<le> n")
    case True
    then have "m * k \<le> min (Suc m * k) n" by simp
    then obtain d where "min (Suc m * k) n = m * k + d" using le_Suc_ex by blast
    with True show ?thesis using upt_add_eq_append [of 0 "m * k" d] by simp
  qed simp
  with Suc show ?case by simp
qed simp

lemma seed_tasks_all: "concat (map (seed_task n tasks) [0..<max tasks 1]) = [0..<n]"
proof -
  have "n \<le> max tasks 1 * div_ceil n (max tasks 1)"
    using div_ceil_bounds(1) [of "max tasks 1" n] by (simp add: mult.commute)
  then have "min (max tasks 1 * div_ceil n (max tasks 1)) n = n" by (rule min_absorb2)
  moreover have "seed_task n tasks = (\<lambda>t. [t * div_ceil n (max tasks 1)..<min ((t + 1) * div_ceil n (max tasks 1)) n])"
    by (simp add: fun_eq_iff seed_task_def Let_def)
  ultimately show ?thesis using seed_tasks_upto [of "div_ceil n (max tasks 1)" n "max tasks 1"] by simp
qed

end
