(* ===== verification/Layout.thy ===== *)
theory Layout
  imports Pgvs3_Prelude
begin

text \<open>
  The check of the storage layout at start (\<^verbatim>\<open>src/db.rs\<close>: \<^verbatim>\<open>init\<close>, \<^verbatim>\<open>init_locked\<close>). The state
  is what the catalog shows of it: whether the chunk table is there, and the rows of
  the marker table if that one is. Starts of several gateways run one after the other,
  under an advisory lock.
\<close>

definition LAYOUT_VERSION :: int where
  "LAYOUT_VERSION = 3"

record layout =
  ly_chunks :: bool
  ly_versions :: "int list option"

datatype init_error = WrongVersion int | EmptyMarker

text \<open>\<open>SELECT max(version)\<close>: NULL for an empty table.\<close>

definition max_version :: "int list \<Rightarrow> int option" where
  "max_version vs = (if vs = [] then None else Some (Max (set vs)))"

text \<open>Layout 1 had no marker table.\<close>

definition found_version :: "layout \<Rightarrow> int option" where
  "found_version s = (case ly_versions s of None \<Rightarrow> Some 1 | Some vs \<Rightarrow> max_version vs)"

text \<open>The schema creates what is absent; the marker is written if there is none.\<close>

definition create_layout :: "layout \<Rightarrow> layout" where
  "create_layout s =
     (let versions = (case ly_versions s of None \<Rightarrow> [] | Some vs \<Rightarrow> vs)
      in \<lparr>ly_chunks = True, ly_versions = Some (if versions = [] then [LAYOUT_VERSION] else versions)\<rparr>)"

definition init_locked :: "layout \<Rightarrow> (init_error + unit) \<times> layout" where
  "init_locked s =
     (if ly_chunks s then
        (case found_version s of
           Some v \<Rightarrow> if v = LAYOUT_VERSION then (Inr (), create_layout s) else (Inl (WrongVersion v), s)
         | None \<Rightarrow> (Inl EmptyMarker, s))
      else (Inr (), create_layout s))"

text \<open>One start after the other.\<close>

fun init_all :: "nat \<Rightarrow> layout \<Rightarrow> (init_error + unit) list \<times> layout" where
  "init_all 0 s = ([], s)"
| "init_all (Suc n) s =
     (case init_locked s of (r, s') \<Rightarrow> (case init_all n s' of (rs, s'') \<Rightarrow> (r # rs, s'')))"

lemma create_layout_found:
  "found_version (create_layout s) =
     (case ly_versions s of None \<Rightarrow> Some 3 | Some vs \<Rightarrow> if vs = [] then Some 3 else max_version vs)"
  by (auto simp: found_version_def create_layout_def max_version_def LAYOUT_VERSION_def split: option.split)

lemma init_again:
  assumes "ly_chunks s" and "ly_versions s \<noteq> None" and "found_version s = Some 3"
  shows "init_locked s = (Inr (), s)"
proof -
  obtain vs where "ly_versions s = Some vs" "vs \<noteq> []"
    using assms(2,3) by (auto simp: found_version_def max_version_def split: if_splits)
  then have "create_layout s = s" using assms(1) by (simp add: create_layout_def)
  then show ?thesis using assms(1,3) by (simp add: init_locked_def LAYOUT_VERSION_def)
qed

lemma init_all_again: "init_locked s = (Inr (), s) \<Longrightarrow> init_all n s = (replicate n (Inr ()), s)"
  by (induction n) simp_all

text \<open>
  C27. A start never touches a layout it does not know: with chunks stored it
  succeeds exactly when the marker's highest version is 3, and a failure changes nothing. On a
  fresh database every start succeeds, however many gateways follow one another; only
  a marker of another version left without a chunk table is taken over, and makes every
  later start fail.
\<close>

theorem init_fails_closed:
  "(case init_locked s of
      (Inl _, s') \<Rightarrow> s' = s \<and> ly_chunks s \<and> found_version s \<noteq> Some 3
    | (Inr _, s') \<Rightarrow> (\<not> ly_chunks s \<or> found_version s = Some 3) \<and> ly_chunks s' \<and>
        (if found_version s' = Some 3 then init_all n s' = (replicate n (Inr ()), s')
         else \<not> ly_chunks s \<and> found_version s = found_version s' \<and>
           (\<exists>e. init_locked s' = (Inl e, s')))) \<and>
   fst (init_all n \<lparr>ly_chunks = False, ly_versions = None\<rparr>) = replicate n (Inr ())"
proof
  let ?s' = "create_layout s"
  have chunks: "ly_chunks ?s'" "ly_versions ?s' \<noteq> None" by (simp_all add: create_layout_def Let_def)
  show "case init_locked s of
      (Inl _, s') \<Rightarrow> s' = s \<and> ly_chunks s \<and> found_version s \<noteq> Some 3
    | (Inr _, s') \<Rightarrow> (\<not> ly_chunks s \<or> found_version s = Some 3) \<and> ly_chunks s' \<and>
        (if found_version s' = Some 3 then init_all n s' = (replicate n (Inr ()), s')
         else \<not> ly_chunks s \<and> found_version s = found_version s' \<and>
           (\<exists>e. init_locked s' = (Inl e, s')))"
  proof (cases "ly_chunks s \<and> found_version s \<noteq> Some 3")
    case True
    then show ?thesis by (auto simp: init_locked_def LAYOUT_VERSION_def split: option.split)
  next
    case False
    then have run: "init_locked s = (Inr (), ?s')" by (auto simp: init_locked_def LAYOUT_VERSION_def)
    show ?thesis
    proof (cases "found_version ?s' = Some 3")
      case True
      with init_all_again [OF init_again [OF chunks True]] False chunks run show ?thesis by auto
    next
      case other: False
      then have "found_version ?s' = found_version s"
        by (auto simp: create_layout_found found_version_def [of s] split: option.splits if_splits)
      moreover have "\<exists>e. init_locked ?s' = (Inl e, ?s')"
        using other chunks by (auto simp: init_locked_def LAYOUT_VERSION_def split: option.split)
      ultimately show ?thesis using other False chunks run by auto
    qed
  qed
  let ?fresh = "\<lparr>ly_chunks = False, ly_versions = None\<rparr>"
  have "init_locked (create_layout ?fresh) = (Inr (), create_layout ?fresh)"
    by (rule init_again) (simp_all add: create_layout_found, simp_all add: create_layout_def)
  moreover have "init_locked ?fresh = (Inr (), create_layout ?fresh)" by (simp add: init_locked_def)
  ultimately show "fst (init_all n ?fresh) = replicate n (Inr ())"
    by (cases n) (simp_all add: init_all_again)
qed

theorem init_fails_closed_witness:
  "init_locked \<lparr>ly_chunks = True, ly_versions = Some [2]\<rparr> =
      (Inl (WrongVersion 2), \<lparr>ly_chunks = True, ly_versions = Some [2]\<rparr>) \<and>
   fst (init_all 3 \<lparr>ly_chunks = False, ly_versions = None\<rparr>) = replicate 3 (Inr ())"
  using init_fails_closed [of "\<lparr>ly_chunks = True, ly_versions = Some [2]\<rparr>" 3]
  by (simp add: init_locked_def found_version_def max_version_def LAYOUT_VERSION_def)

end
