(* ===== verification/Pool.thy ===== *)
theory Pool
  imports Utf8
begin

text \<open>
  The connection pool (\<^verbatim>\<open>src/pg.rs\<close>: \<^verbatim>\<open>Pool::connect\<close>, \<^verbatim>\<open>Pool::get\<close>, \<^verbatim>\<open>Pooled::range\<close>,
  \<^verbatim>\<open>Drop for Pooled\<close>) and its sizes (\<^verbatim>\<open>src/db.rs\<close>: \<^verbatim>\<open>pool_min\<close>, \<^verbatim>\<open>pool_max\<close>, \<^verbatim>\<open>connect\<close>).
  Tasks share the idle stack and the permits; every access of either is one step, so
  the steps of different tasks interleave. The server may close a connection at any
  time, and opening one may fail.
\<close>

section \<open>Sizes\<close>

text \<open>\<^verbatim>\<open>str::parse::<usize>\<close>: decimal digits after an optional plus sign, below 2 ^ 64.\<close>

fun digits_val :: "nat \<Rightarrow> ustring \<Rightarrow> nat option" where
  "digits_val acc [] = Some acc"
| "digits_val acc (c # cs) =
     (if 48 \<le> c \<and> c \<le> 57 \<and> 10 * acc + (c - 48) < 2 ^ 64 then digits_val (10 * acc + (c - 48)) cs else None)"

definition parse_usize :: "ustring \<Rightarrow> nat option" where
  "parse_usize s =
     (let ds = (case s of c # cs \<Rightarrow> if c = 43 then cs else s | [] \<Rightarrow> [])
      in if ds = [] then None else digits_val 0 ds)"

definition pool_min :: "ustring option \<Rightarrow> nat" where
  "pool_min var = (case Option.bind var parse_usize of Some n \<Rightarrow> n | None \<Rightarrow> 64)"

definition pool_max :: "ustring option \<Rightarrow> nat" where
  "pool_max var = (case Option.bind var parse_usize of Some n \<Rightarrow> n | None \<Rightarrow> 64)"

record options =
  op_min :: nat
  op_max :: nat

definition connect_options :: "ustring option \<Rightarrow> ustring option \<Rightarrow> options" where
  "connect_options min_var max_var =
     \<lparr>op_min = min (pool_min min_var) (pool_max max_var), op_max = pool_max max_var\<rparr>"

section \<open>The pool\<close>

text \<open>Seconds.\<close>

definition IDLE_MAX :: int where
  "IDLE_MAX = 600"

record conn =
  c_id :: nat
  c_closed :: bool
  c_range :: bool
  c_idle_since :: int

text \<open>
  \<open>po_idle\<close> has the most recently used connection last. Of the tasks that have a permit,
  \<open>po_acquired\<close> are in the loop of \<^verbatim>\<open>get\<close>, \<open>po_opening\<close> wait for a new connection,
  \<open>po_held\<close> are the connections checked out, and \<open>po_releasing\<close> have given theirs back
  but not yet the permit. \<open>po_next\<close> numbers the connections.
\<close>

record pool =
  po_idle :: "conn list"
  po_slots :: nat
  po_acquired :: nat
  po_opening :: nat
  po_held :: "conn list"
  po_releasing :: nat
  po_next :: nat

definition open_conn :: "nat \<Rightarrow> int \<Rightarrow> conn" where
  "open_conn i now = \<lparr>c_id = i, c_closed = False, c_range = False, c_idle_since = now\<rparr>"

definition pool_connect :: "options \<Rightarrow> int \<Rightarrow> pool" where
  "pool_connect opts now =
     \<lparr>po_idle = map (\<lambda>i. open_conn i now) [0..<op_min opts], po_slots = op_max opts, po_acquired = 0,
      po_opening = 0, po_held = [], po_releasing = 0, po_next = op_min opts\<rparr>"

text \<open>One round of the loop of \<^verbatim>\<open>get\<close>: a closed connection is dropped and the loop goes on.\<close>

definition pool_pop :: "pool \<Rightarrow> pool" where
  "pool_pop p =
     (if po_idle p = [] then p\<lparr>po_acquired := po_acquired p - 1, po_opening := po_opening p + 1\<rparr>
      else
        (let c = last (po_idle p); p1 = p\<lparr>po_idle := butlast (po_idle p)\<rparr>
         in if c_closed c then p1
            else p1\<lparr>po_acquired := po_acquired p - 1, po_held := po_held p @ [c]\<rparr>))"

definition pool_opened :: "int \<Rightarrow> pool \<Rightarrow> pool" where
  "pool_opened now p =
     p\<lparr>po_opening := po_opening p - 1, po_held := po_held p @ [open_conn (po_next p) now],
       po_next := Suc (po_next p)\<rparr>"

text \<open>
  Giving a connection back: \<open>now\<close> is read before the lock of the idle stack is taken, \<open>later\<close> is
  when the age of its bottom is tested. The second result is the connection closed.
\<close>

definition drop_conn :: "nat \<Rightarrow> int \<Rightarrow> int \<Rightarrow> conn \<Rightarrow> conn list \<Rightarrow> conn list \<times> conn option" where
  "drop_conn mn now later c idle =
     (if c_closed c then (idle, None)
      else
        (let idle1 = idle @ [c\<lparr>c_idle_since := now\<rparr>]
         in if mn < length idle1 \<and> IDLE_MAX < later - c_idle_since (idle1 ! 0) then (drop 1 idle1, Some (idle1 ! 0))
            else (idle1, None)))"

definition pool_drop :: "options \<Rightarrow> int \<Rightarrow> int \<Rightarrow> conn \<Rightarrow> pool \<Rightarrow> pool" where
  "pool_drop opts now later c p =
     p\<lparr>po_held := remove1 c (po_held p), po_releasing := po_releasing p + 1,
       po_idle := fst (drop_conn (op_min opts) now later c (po_idle p))\<rparr>"

text \<open>\<^verbatim>\<open>range\<close>: the statement is prepared on the connection's first use of it.\<close>

definition prepare_range :: "conn \<Rightarrow> conn" where
  "prepare_range c = c\<lparr>c_range := True\<rparr>"

definition close_conn :: "conn \<Rightarrow> conn" where
  "close_conn c = c\<lparr>c_closed := True\<rparr>"

inductive pool_step :: "options \<Rightarrow> pool \<Rightarrow> pool \<Rightarrow> bool" for opts where
  step_acquire: "0 < po_slots p \<Longrightarrow>
    pool_step opts p (p\<lparr>po_slots := po_slots p - 1, po_acquired := po_acquired p + 1\<rparr>)"
| step_pop: "0 < po_acquired p \<Longrightarrow> pool_step opts p (pool_pop p)"
| step_opened: "0 < po_opening p \<Longrightarrow> pool_step opts p (pool_opened now p)"
| step_open_failed: "0 < po_opening p \<Longrightarrow>
    pool_step opts p (p\<lparr>po_opening := po_opening p - 1, po_slots := po_slots p + 1\<rparr>)"
| step_range: "i < length (po_held p) \<Longrightarrow>
    pool_step opts p (p\<lparr>po_held := (po_held p)[i := prepare_range (po_held p ! i)]\<rparr>)"
| step_drop: "c \<in> set (po_held p) \<Longrightarrow> pool_step opts p (pool_drop opts now later c p)"
| step_release: "0 < po_releasing p \<Longrightarrow>
    pool_step opts p (p\<lparr>po_releasing := po_releasing p - 1, po_slots := po_slots p + 1\<rparr>)"
| step_close_idle: "i < length (po_idle p) \<Longrightarrow>
    pool_step opts p (p\<lparr>po_idle := (po_idle p)[i := close_conn (po_idle p ! i)]\<rparr>)"
| step_close_held: "i < length (po_held p) \<Longrightarrow>
    pool_step opts p (p\<lparr>po_held := (po_held p)[i := close_conn (po_held p ! i)]\<rparr>)"

text \<open>The loop of \<^verbatim>\<open>get\<close> undisturbed: the connection it finds, or None when it opens one.\<close>

function get_conn :: "conn list \<Rightarrow> conn option \<times> conn list" where
  "get_conn idle =
     (if idle = [] then (None, [])
      else if c_closed (last idle) then get_conn (butlast idle)
      else (Some (last idle), butlast idle))"
  by pat_completeness auto
termination
  by (relation "measure length") auto

declare get_conn.simps [simp del]

lemma get_conn_Nil [simp]: "get_conn [] = (None, [])"
  by (simp add: get_conn.simps)

lemma get_conn_snoc [simp]: "get_conn (idle @ [c]) = (if c_closed c then get_conn idle else (Some c, idle))"
  by (subst get_conn.simps) simp

section \<open>Its invariant\<close>

definition live_ids :: "pool \<Rightarrow> nat list" where
  "live_ids p = map c_id (po_idle p) @ map c_id (po_held p)"

definition pool_ok :: "options \<Rightarrow> pool \<Rightarrow> bool" where
  "pool_ok opts p \<longleftrightarrow>
     po_slots p + po_acquired p + po_opening p + length (po_held p) + po_releasing p = op_max opts \<and>
     length (po_idle p) + po_opening p + length (po_held p) \<le> op_max opts \<and>
     distinct (live_ids p) \<and> (\<forall>i \<in> set (live_ids p). i < po_next p)"

lemma map_c_id_update [simp]:
  "i < length cs \<Longrightarrow> map c_id (cs[i := close_conn (cs ! i)]) = map c_id cs"
  "i < length cs \<Longrightarrow> map c_id (cs[i := prepare_range (cs ! i)]) = map c_id cs"
  by (simp_all add: list_eq_iff_nth_eq nth_list_update close_conn_def prepare_range_def)

lemma pool_ok_connect:
  assumes "op_min opts \<le> op_max opts"
  shows "pool_ok opts (pool_connect opts now)"
  using assms by (simp add: pool_ok_def pool_connect_def live_ids_def open_conn_def comp_def)

lemma pool_pop_ok:
  assumes "pool_ok opts p" and "0 < po_acquired p"
  shows "pool_ok opts (pool_pop p)"
proof (cases "po_idle p" rule: rev_cases)
  case Nil
  with assms show ?thesis by (auto simp: pool_ok_def pool_pop_def live_ids_def)
next
  case (snoc idle c)
  with assms show ?thesis by (auto simp: pool_ok_def pool_pop_def live_ids_def Let_def)
qed

lemma drop_conn_cases:
  obtains (closed) "drop_conn mn now later c idle = (idle, None)"
  | (kept) "drop_conn mn now later c idle = (idle @ [c\<lparr>c_idle_since := now\<rparr>], None)"
  | (trimmed) x rest where "idle @ [c\<lparr>c_idle_since := now\<rparr>] = x # rest" "drop_conn mn now later c idle = (rest, Some x)"
proof (cases "idle @ [c\<lparr>c_idle_since := now\<rparr>]")
  case (Cons x rest)
  show ?thesis
    by (cases "c_closed c"; cases "mn < length (x # rest) \<and> IDLE_MAX < later - c_idle_since x")
      (use that Cons in \<open>auto simp: drop_conn_def Let_def\<close>)
qed simp

lemma pool_drop_ok:
  assumes "pool_ok opts p" and "c \<in> set (po_held p)"
  shows "pool_ok opts (pool_drop opts now later c p)"
proof -
  obtain xs ys where held: "po_held p = xs @ c # ys" "c \<notin> set xs" using assms(2) split_list_first by metis
  then have rest: "remove1 c (xs @ c # ys) = xs @ ys" by (simp add: remove1_append)
  show ?thesis
  proof (cases rule: drop_conn_cases [of "op_min opts" now later c "po_idle p"])
    case (trimmed x r)
    from arg_cong [OF trimmed(1), of "map c_id"] arg_cong [OF trimmed(1), of length]
    have "map c_id (po_idle p) @ [c_id c] = c_id x # map c_id r" "length (po_idle p) = length r" by simp_all
    then have eq: "map c_id (po_idle p) @ [c_id c] = c_id x # map c_id r" "length (po_idle p) = length r" .
    have "distinct ((map c_id (po_idle p) @ [c_id c]) @ map c_id xs @ map c_id ys)"
      "\<forall>i \<in> set ((map c_id (po_idle p) @ [c_id c]) @ map c_id xs @ map c_id ys). i < po_next p"
      using assms(1) by (auto simp: pool_ok_def live_ids_def held)
    then have "distinct (map c_id r @ map c_id xs @ map c_id ys)"
      "\<forall>i \<in> set (map c_id r @ map c_id xs @ map c_id ys). i < po_next p"
      unfolding eq(1) by auto
    with trimmed eq(2) assms(1) show ?thesis
      unfolding pool_ok_def by (simp add: pool_drop_def rest live_ids_def held)
  qed (use assms(1) in \<open>auto simp: pool_ok_def pool_drop_def rest live_ids_def held\<close>)
qed

inductive_cases pool_stepE: "pool_step opts p p'"

lemma pool_step_ok:
  assumes "pool_step opts p p'" and "pool_ok opts p"
  shows "pool_ok opts p'"
  using assms(1)
proof (rule pool_stepE)
  assume "p' = pool_pop p" "0 < po_acquired p"
  with assms(2) show ?thesis by (simp add: pool_pop_ok)
next
  fix c now later assume "p' = pool_drop opts now later c p" "c \<in> set (po_held p)"
  with assms(2) show ?thesis by (simp add: pool_drop_ok)
next
  fix now assume "p' = pool_opened now p" "0 < po_opening p"
  with assms(2) show ?thesis
    by (auto simp: pool_ok_def live_ids_def pool_opened_def open_conn_def less_Suc_eq)
qed (use assms(2) in \<open>auto simp: pool_ok_def live_ids_def\<close>)

interpretation connections: invariant_system "pool_step opts" "pool_ok opts" for opts
  by unfold_locales (rule pool_step_ok)

section \<open>Properties\<close>

text \<open>
  C21. Whatever gets, drops, failures and closed connections interleave, the pool
  never has more than \<open>max\<close> connections open or being opened, a task waits for a permit only
  while as many are in use, and no connection is in two hands.
\<close>

theorem pool_bounded:
  assumes "(pool_step (connect_options min_var max_var))\<^sup>*\<^sup>* (pool_connect (connect_options min_var max_var) now) p"
  shows "length (po_idle p) + po_opening p + length (po_held p) \<le> pool_max max_var \<and>
    po_slots p + (po_acquired p + po_opening p + length (po_held p) + po_releasing p) = pool_max max_var \<and>
    distinct (map c_id (po_idle p) @ map c_id (po_held p))"
proof -
  let ?o = "connect_options min_var max_var"
  have "pool_ok ?o (pool_connect ?o now)" by (rule pool_ok_connect) (simp add: connect_options_def)
  with assms have "pool_ok ?o p" by (rule connections.run_ok)
  then show ?thesis by (simp add: pool_ok_def live_ids_def connect_options_def)
qed

theorem pool_bounded_witness:
  "\<exists>p :: pool. po_held p = [open_conn 0 5] \<and> length (po_idle p) + po_opening p + length (po_held p) \<le> 1 \<and>
    distinct (map c_id (po_idle p) @ map c_id (po_held p))"
proof -
  let ?o = "connect_options (Some [57]) (Some [49])"
  have sizes: "?o = \<lparr>op_min = 1, op_max = 1\<rparr>" "pool_max (Some [49]) = 1"
    by (simp_all add: connect_options_def pool_max_def pool_min_def parse_usize_def)
  define p0 where "p0 = pool_connect ?o 5"
  define p1 where "p1 = p0\<lparr>po_slots := po_slots p0 - 1, po_acquired := po_acquired p0 + 1\<rparr>"
  define p2 where "p2 = pool_pop p1"
  have "pool_step ?o p0 p1" unfolding p1_def by (rule step_acquire) (simp add: p0_def pool_connect_def sizes)
  moreover have "pool_step ?o p1 p2" unfolding p2_def by (rule step_pop) (simp add: p1_def)
  ultimately have "(pool_step ?o)\<^sup>*\<^sup>* p0 p2" by (simp add: converse_rtranclp_into_rtranclp)
  from pool_bounded [OF this [unfolded p0_def]] have "length (po_idle p2) + po_opening p2 + length (po_held p2) \<le> 1 \<and>
    distinct (map c_id (po_idle p2) @ map c_id (po_held p2))" by (simp add: sizes(2))
  moreover have "po_held p2 = [open_conn 0 5]"
    by (simp add: p2_def p1_def p0_def pool_pop_def pool_connect_def sizes open_conn_def Let_def)
  ultimately show ?thesis by blast
qed

text \<open>
  A connection given back is the next one handed out, prepared statement
  included, and giving one back closes at most the bottom of the stack: only when more
  than \<open>min\<close> connections are idle, and one that was idle for ten minutes.
\<close>

theorem drop_then_get_reuses:
  assumes "\<not> c_closed c" and "later - now \<le> IDLE_MAX" and "drop_conn mn now later c idle = (idle', stale)"
  shows "get_conn idle' = (Some (c\<lparr>c_idle_since := now\<rparr>), butlast idle') \<and>
    (case stale of
       None \<Rightarrow> idle' = idle @ [c\<lparr>c_idle_since := now\<rparr>]
     | Some x \<Rightarrow> mn \<le> length idle' \<and> x # idle' = idle @ [c\<lparr>c_idle_since := now\<rparr>] \<and>
         IDLE_MAX < later - c_idle_since x)"
proof -
  let ?c = "c\<lparr>c_idle_since := now\<rparr>"
  have "\<exists>ys. idle' = ys @ [?c] \<and> (case stale of None \<Rightarrow> ys = idle
      | Some x \<Rightarrow> mn \<le> length idle' \<and> x # ys = idle \<and> IDLE_MAX < later - c_idle_since x)"
    using assms by (cases idle) (auto simp: drop_conn_def Let_def split: if_splits)
  then obtain ys where ys: "idle' = ys @ [?c]" "case stale of None \<Rightarrow> ys = idle
      | Some x \<Rightarrow> mn \<le> length idle' \<and> x # ys = idle \<and> IDLE_MAX < later - c_idle_since x" by blast
  then have "get_conn idle' = (Some ?c, butlast idle')" using assms(1) by simp
  with ys show ?thesis by (auto split: option.splits)
qed

theorem drop_then_get_reuses_witness:
  "get_conn (fst (drop_conn 1 700 701 (open_conn 7 0) [open_conn 3 0])) = (Some (open_conn 7 700), [])"
proof -
  have drop: "drop_conn 1 700 701 (open_conn 7 0) [open_conn 3 0] = ([open_conn 7 700], Some (open_conn 3 0))"
    by (simp add: drop_conn_def open_conn_def IDLE_MAX_def)
  have "get_conn [open_conn 7 700] = (Some (open_conn 7 0\<lparr>c_idle_since := 700\<rparr>), butlast [open_conn 7 700])"
    using drop_then_get_reuses [OF _ _ drop] by (simp add: IDLE_MAX_def open_conn_def)
  with drop show ?thesis by (simp add: open_conn_def)
qed

end
