(* ===== verification/Tls.thy ===== *)
theory Tls
  imports Utf8
begin

text \<open>
  TLS to PostgreSQL (\<^verbatim>\<open>src/pg.rs\<close>, from \<^verbatim>\<open>MakeRustls\<close> on): the client configuration, the verifier
  \<^verbatim>\<open>EncryptOnly\<close>, the connector and the stream around the one of tokio-rustls. What rustls and
  tokio-rustls do is an argument: the record \<open>rustls\<close>, the handshake and the stream inside.
\<close>

section \<open>The verifier\<close>

text \<open>An error is what it prints.\<close>

type_synonym tls_error = ustring
type_synonym io_error = ustring

text \<open>A signature of the handshake: its scheme and its bytes.\<close>

type_synonym signed_struct = "nat \<times> bytes"

text \<open>
  rustls: the two signature checks by the algorithms of a provider, the schemes those algorithms
  support, the protocol versions it settles on, and the parser of server names.
\<close>

record 'alg rustls =
  rl_tls12 :: "bytes \<Rightarrow> bytes \<Rightarrow> signed_struct \<Rightarrow> 'alg \<Rightarrow> tls_error + unit"
  rl_tls13 :: "bytes \<Rightarrow> bytes \<Rightarrow> signed_struct \<Rightarrow> 'alg \<Rightarrow> tls_error + unit"
  rl_schemes :: "'alg \<Rightarrow> nat list"
  rl_default_versions :: "'alg \<Rightarrow> tls_error + nat list"
  rl_server_name :: "ustring \<Rightarrow> ustring option"

text \<open>The methods of \<^verbatim>\<open>ServerCertVerifier\<close>.\<close>

record verifier =
  verify_server_cert :: "bytes \<Rightarrow> bytes list \<Rightarrow> ustring \<Rightarrow> bytes \<Rightarrow> int \<Rightarrow> tls_error + unit"
  verify_tls12_signature :: "bytes \<Rightarrow> bytes \<Rightarrow> signed_struct \<Rightarrow> tls_error + unit"
  verify_tls13_signature :: "bytes \<Rightarrow> bytes \<Rightarrow> signed_struct \<Rightarrow> tls_error + unit"
  supported_verify_schemes :: "nat list"

text \<open>\<open>provider\<close> is the signature verification algorithms of the ring provider.\<close>

definition encrypt_only :: "'alg rustls \<Rightarrow> 'alg \<Rightarrow> verifier" where
  "encrypt_only lib provider =
     \<lparr>verify_server_cert = \<lambda>end_entity intermediates server_name ocsp_response now. Inr (),
      verify_tls12_signature = \<lambda>message cert dss. rl_tls12 lib message cert dss provider,
      verify_tls13_signature = \<lambda>message cert dss. rl_tls13 lib message cert dss provider,
      supported_verify_schemes = rl_schemes lib provider\<rparr>"

section \<open>The connector\<close>

record 'alg client_config =
  cc_provider :: 'alg
  cc_versions :: "nat list"
  cc_verifier :: verifier
  cc_client_cert :: "bytes option"

text \<open>\<^verbatim>\<open>MakeRustls\<close> is the configuration that all connections of a pool share.\<close>

definition make_rustls :: "'alg rustls \<Rightarrow> 'alg \<Rightarrow> tls_error + 'alg client_config" where
  "make_rustls lib provider =
     (case rl_default_versions lib provider of
        Inl e \<Rightarrow> Inl e
      | Inr versions \<Rightarrow>
          Inr \<lparr>cc_provider = provider, cc_versions = versions, cc_verifier = encrypt_only lib provider,
            cc_client_cert = None\<rparr>)"

record 'alg rustls_connect =
  rc_name :: ustring
  rc_config :: "'alg client_config"

definition make_tls_connect :: "'alg rustls \<Rightarrow> 'alg client_config \<Rightarrow> ustring \<Rightarrow> 'alg rustls_connect option" where
  "make_tls_connect lib config domain =
     map_option (\<lambda>name. \<lparr>rc_name = name, rc_config = config\<rparr>) (rl_server_name lib domain)"

datatype 'i rustls_stream = RustlsStream 'i

datatype channel_binding = NoBinding | TlsServerEndPoint bytes

definition channel_binding_of :: "'i rustls_stream \<Rightarrow> channel_binding" where
  "channel_binding_of _ = NoBinding"

text \<open>The handshake of tokio-rustls: a configuration, a server name and a socket to a stream or an error.\<close>

type_synonym ('alg, 'sock, 'i) handshake = "'alg client_config \<Rightarrow> ustring \<Rightarrow> 'sock \<Rightarrow> io_error + 'i"

definition tls_connect :: "('alg, 'sock, 'i) handshake \<Rightarrow> 'alg rustls_connect \<Rightarrow> 'sock \<Rightarrow> io_error + 'i rustls_stream" where
  "tls_connect handshake rc sock = map_sum id RustlsStream (handshake (rc_config rc) (rc_name rc) sock)"

section \<open>The stream\<close>

datatype 'a poll = Pending | Ready "io_error + 'a"

text \<open>
  The stream of tokio-rustls: a read is given the room left in its buffer and says what it put there.
\<close>

record 'i tls_stream =
  ts_read :: "nat \<Rightarrow> 'i \<Rightarrow> bytes poll \<times> 'i"
  ts_write :: "bytes \<Rightarrow> 'i \<Rightarrow> nat poll \<times> 'i"
  ts_write_vectored :: "bytes list \<Rightarrow> 'i \<Rightarrow> nat poll \<times> 'i"
  ts_vectored :: "'i \<Rightarrow> bool"
  ts_flush :: "'i \<Rightarrow> unit poll \<times> 'i"
  ts_shutdown :: "'i \<Rightarrow> unit poll \<times> 'i"

text \<open>A method that forwards to the stream inside.\<close>

fun forward :: "('i \<Rightarrow> 'a \<times> 'i) \<Rightarrow> 'i rustls_stream \<Rightarrow> 'a \<times> 'i rustls_stream" where
  "forward f (RustlsStream i) = map_prod id RustlsStream (f i)"

definition poll_read :: "'i tls_stream \<Rightarrow> nat \<Rightarrow> 'i rustls_stream \<Rightarrow> bytes poll \<times> 'i rustls_stream" where
  "poll_read ts room = forward (ts_read ts room)"

definition poll_write :: "'i tls_stream \<Rightarrow> bytes \<Rightarrow> 'i rustls_stream \<Rightarrow> nat poll \<times> 'i rustls_stream" where
  "poll_write ts buf = forward (ts_write ts buf)"

definition poll_write_vectored :: "'i tls_stream \<Rightarrow> bytes list \<Rightarrow> 'i rustls_stream \<Rightarrow> nat poll \<times> 'i rustls_stream" where
  "poll_write_vectored ts bufs = forward (ts_write_vectored ts bufs)"

fun is_write_vectored :: "'i tls_stream \<Rightarrow> 'i rustls_stream \<Rightarrow> bool" where
  "is_write_vectored ts (RustlsStream i) = ts_vectored ts i"

definition poll_flush :: "'i tls_stream \<Rightarrow> 'i rustls_stream \<Rightarrow> unit poll \<times> 'i rustls_stream" where
  "poll_flush ts = forward (ts_flush ts)"

definition poll_shutdown :: "'i tls_stream \<Rightarrow> 'i rustls_stream \<Rightarrow> unit poll \<times> 'i rustls_stream" where
  "poll_shutdown ts = forward (ts_shutdown ts)"

section \<open>What a connection is worth\<close>

text \<open>
  What rustls documents of a handshake: it succeeds only if the verifier accepted the certificate of the
  server, under the name asked for, and a signature of the handshake by that certificate, of a scheme
  the verifier offered (in this handshake, or in the one whose session it resumes).
\<close>

definition asks_verifier :: "('alg, 'sock, 'i) handshake \<Rightarrow> bool" where
  "asks_verifier handshake \<longleftrightarrow>
     (\<forall>config name sock i. handshake config name sock = Inr i \<longrightarrow>
        (\<exists>cert chain ocsp now message dss.
           verify_server_cert (cc_verifier config) cert chain name ocsp now = Inr () \<and>
           fst dss \<in> set (supported_verify_schemes (cc_verifier config)) \<and>
           (verify_tls12_signature (cc_verifier config) message cert dss = Inr () \<or>
            verify_tls13_signature (cc_verifier config) message cert dss = Inr ())))"

text \<open>
  Whoever is at the other end of a connection has signed the handshake with the key of some
  certificate, by a scheme of the provider; which certificate and for which name is not asked.
\<close>

lemma connection_signed:
  assumes "asks_verifier handshake" and "make_rustls lib provider = Inr config"
    and "make_tls_connect lib config domain = Some rc" and "tls_connect handshake rc sock = Inr s"
  shows "\<exists>cert message dss. fst dss \<in> set (rl_schemes lib provider) \<and>
    (rl_tls12 lib message cert dss provider = Inr () \<or> rl_tls13 lib message cert dss provider = Inr ())"
proof -
  have config: "cc_verifier config = encrypt_only lib provider"
    using assms(2) by (auto simp: make_rustls_def split: sum.splits)
  obtain name where rc: "rc = \<lparr>rc_name = name, rc_config = config\<rparr>"
    using assms(3) by (auto simp: make_tls_connect_def)
  obtain i where "handshake config name sock = Inr i"
    using assms(4) by (cases "handshake config name sock") (auto simp: tls_connect_def rc)
  with assms(1) obtain cert message dss where "fst dss \<in> set (supported_verify_schemes (cc_verifier config))"
    and "verify_tls12_signature (cc_verifier config) message cert dss = Inr () \<or>
      verify_tls13_signature (cc_verifier config) message cert dss = Inr ()"
    unfolding asks_verifier_def by metis
  then show ?thesis by (intro exI [of _ cert] exI [of _ message] exI [of _ dss]) (simp add: config encrypt_only_def)
qed

text \<open>
  An impostor passes: a handshake that depends on the certificate only through the verifier ends the same for
  any two servers whose signatures check. Here it is the one that asks for the certificate and one TLS 1.3
  signature of what the server sends.
\<close>

definition signed_handshake :: "('alg, bytes \<times> bytes \<times> signed_struct, unit) handshake" where
  "signed_handshake config name = (\<lambda>(cert, message, dss).
     (if verify_server_cert (cc_verifier config) cert [] name [] 0 = Inr () \<and>
         fst dss \<in> set (supported_verify_schemes (cc_verifier config)) \<and>
         verify_tls13_signature (cc_verifier config) message cert dss = Inr ()
      then Inr () else Inl []))"

lemma signed_handshake_asks: "asks_verifier signed_handshake"
  by (auto simp: asks_verifier_def signed_handshake_def split: if_splits)

lemma impostor_connects:
  assumes "make_rustls lib provider = Inr config" and "make_tls_connect lib config domain = Some rc"
    and "fst dss \<in> set (rl_schemes lib provider)" and "rl_tls13 lib message cert dss provider = Inr ()"
  shows "tls_connect signed_handshake rc (cert, message, dss) = Inr (RustlsStream ())"
  using assms
  by (auto simp: make_rustls_def make_tls_connect_def tls_connect_def signed_handshake_def encrypt_only_def split: sum.splits)

text \<open>Whatever sequence of calls is made, the wrapped stream answers as the stream inside.\<close>

datatype stream_call = Read nat | Write bytes | WriteVectored "bytes list" | Vectored | Flush | Shutdown

datatype stream_answer = Got "bytes poll" | Wrote "nat poll" | IsVectored bool | Ended "unit poll"

fun inner_call :: "'i tls_stream \<Rightarrow> stream_call \<Rightarrow> 'i \<Rightarrow> stream_answer \<times> 'i" where
  "inner_call ts (Read room) i = map_prod Got id (ts_read ts room i)"
| "inner_call ts (Write buf) i = map_prod Wrote id (ts_write ts buf i)"
| "inner_call ts (WriteVectored bufs) i = map_prod Wrote id (ts_write_vectored ts bufs i)"
| "inner_call ts Vectored i = (IsVectored (ts_vectored ts i), i)"
| "inner_call ts Flush i = map_prod Ended id (ts_flush ts i)"
| "inner_call ts Shutdown i = map_prod Ended id (ts_shutdown ts i)"

fun outer_call :: "'i tls_stream \<Rightarrow> stream_call \<Rightarrow> 'i rustls_stream \<Rightarrow> stream_answer \<times> 'i rustls_stream" where
  "outer_call ts (Read room) s = map_prod Got id (poll_read ts room s)"
| "outer_call ts (Write buf) s = map_prod Wrote id (poll_write ts buf s)"
| "outer_call ts (WriteVectored bufs) s = map_prod Wrote id (poll_write_vectored ts bufs s)"
| "outer_call ts Vectored s = (IsVectored (is_write_vectored ts s), s)"
| "outer_call ts Flush s = map_prod Ended id (poll_flush ts s)"
| "outer_call ts Shutdown s = map_prod Ended id (poll_shutdown ts s)"

fun run_calls :: "(stream_call \<Rightarrow> 's \<Rightarrow> stream_answer \<times> 's) \<Rightarrow> stream_call list \<Rightarrow> 's \<Rightarrow> stream_answer list \<times> 's" where
  "run_calls f [] s = ([], s)"
| "run_calls f (c # cs) s = (case f c s of (a, s') \<Rightarrow> map_prod (Cons a) id (run_calls f cs s'))"

lemma outer_call_inner: "outer_call ts c (RustlsStream i) = map_prod id RustlsStream (inner_call ts c i)"
  by (cases c) (auto simp: poll_read_def poll_write_def poll_write_vectored_def poll_flush_def poll_shutdown_def
    prod.map_comp)

lemma stream_transparent:
  "run_calls (outer_call ts) cs (RustlsStream i) = map_prod id RustlsStream (run_calls (inner_call ts) cs i)"
  by (induction cs arbitrary: i) (auto simp: outer_call_inner prod.map_comp split: prod.split)

end
