(* ===== verification/Connect.thy ===== *)
theory Connect
  imports Pool Tls
begin

text \<open>
  The start of the pool (\<^verbatim>\<open>src/pg.rs\<close>: \<^verbatim>\<open>Pool::connect\<close>, \<^verbatim>\<open>Inner::open\<close>; \<^verbatim>\<open>src/db.rs\<close>: \<^verbatim>\<open>connect\<close>): its
  configuration and TLS, the connections it opens before it is used, and how it fails. The parser of URLs
  and what each attempt to connect meets are arguments.
\<close>

section \<open>The configuration\<close>

text \<open>What the code reads and sets of \<^verbatim>\<open>tokio_postgres::Config\<close>; the timeout is in seconds.\<close>

record pg_config =
  pc_application_name :: "ustring option"
  pc_connect_timeout :: "nat option"

definition with_defaults :: "pg_config \<Rightarrow> pg_config" where
  "with_defaults config =
     (let named = (if pc_application_name config = None
                   then config\<lparr>pc_application_name := Some (map of_char ''pgvs3'')\<rparr> else config)
      in if pc_connect_timeout named = None then named\<lparr>pc_connect_timeout := Some 10\<rparr> else named)"

definition session :: ustring where
  "session = map of_char
     (''SET enable_indexscan = off; SET work_mem = '' @ [CHR 0x27] @ ''64MB'' @ [CHR 0x27] @
      ''; SET effective_io_concurrency = 32; SET tcp_keepalives_idle = 30; SET tcp_keepalives_interval = 10; '' @
      ''SET tcp_keepalives_count = 3; SET idle_in_transaction_session_timeout = '' @ [CHR 0x27] @ ''5min'' @
      [CHR 0x27] @ ''; SET synchronous_commit = on;'')"

section \<open>Opening the pool\<close>

datatype connect_error = BadUrl ustring | TlsSetup tls_error | ConnectFailed nat | SessionFailed nat

text \<open>
  What attempt \<open>i\<close> meets: \<open>en_connects\<close> whether the server is reached under the configuration,
  \<open>en_runs\<close> whether the connection runs a batch of statements.
\<close>

record 'alg env =
  en_parse :: "ustring \<Rightarrow> ustring + pg_config"
  en_connects :: "pg_config \<Rightarrow> 'alg client_config \<Rightarrow> nat \<Rightarrow> bool"
  en_runs :: "ustring \<Rightarrow> nat \<Rightarrow> bool"

definition open_attempt :: "'alg env \<Rightarrow> pg_config \<Rightarrow> 'alg client_config \<Rightarrow> int \<Rightarrow> nat \<Rightarrow> connect_error + conn" where
  "open_attempt en config tls now i =
     (if \<not> en_connects en config tls i then Inl (ConnectFailed i)
      else if \<not> en_runs en session i then Inl (SessionFailed i)
      else Inr (open_conn i now))"

text \<open>\<^verbatim>\<open>try_join_all\<close>: all results in order, or the first failure in the order they ended.\<close>

definition try_join_all :: "nat list \<Rightarrow> (nat \<Rightarrow> 'e + 'a) \<Rightarrow> nat \<Rightarrow> 'e + 'a list" where
  "try_join_all ended attempt n =
     (case find (\<lambda>i. isl (attempt i)) ended of
        Some i \<Rightarrow> Inl (projl (attempt i))
      | None \<Rightarrow> Inr (map (projr \<circ> attempt) [0..<n]))"

text \<open>\<^verbatim>\<open>Semaphore::new\<close> panics beyond this many permits.\<close>

definition MAX_PERMITS :: nat where
  "MAX_PERMITS = 2 ^ 61 - 1"

record 'alg opened =
  od_config :: pg_config
  od_tls :: "'alg client_config"
  od_pool :: pool

text \<open>No result is a panic.\<close>

definition pool_start :: "'alg rustls \<Rightarrow> 'alg \<Rightarrow> 'alg env \<Rightarrow> nat list \<Rightarrow> options \<Rightarrow> int \<Rightarrow> ustring \<Rightarrow>
    (connect_error + 'alg opened) option" where
  "pool_start lib provider en ended opts now url =
     (case en_parse en url of
        Inl e \<Rightarrow> Some (Inl (BadUrl e))
      | Inr parsed \<Rightarrow>
          (let config = with_defaults parsed
           in case make_rustls lib provider of
                Inl e \<Rightarrow> Some (Inl (TlsSetup e))
              | Inr tls \<Rightarrow>
                  if MAX_PERMITS < op_max opts then None
                  else (case try_join_all ended (open_attempt en config tls now) (op_min opts) of
                          Inl e \<Rightarrow> Some (Inl e)
                        | Inr warm \<Rightarrow>
                            Some (Inr \<lparr>od_config = config, od_tls = tls,
                              od_pool = \<lparr>po_idle = warm, po_slots = op_max opts, po_acquired = 0, po_opening = 0,
                                po_held = [], po_releasing = 0, po_next = op_min opts\<rparr>\<rparr>))))"

definition db_connect :: "'alg rustls \<Rightarrow> 'alg \<Rightarrow> 'alg env \<Rightarrow> nat list \<Rightarrow> ustring option \<Rightarrow> ustring option \<Rightarrow> int \<Rightarrow>
    ustring \<Rightarrow> (connect_error + 'alg opened) option" where
  "db_connect lib provider en ended min_var max_var now url =
     pool_start lib provider en ended (connect_options min_var max_var) now url"

section \<open>What a start achieves\<close>

lemma try_join_all_Inr:
  assumes "set ended = {..<n}" and "try_join_all ended attempt n = Inr rs"
  shows "length rs = n \<and> (\<forall>i < n. attempt i = Inr (rs ! i))"
proof -
  have "find (\<lambda>i. isl (attempt i)) ended = None" and rs: "rs = map (projr \<circ> attempt) [0..<n]"
    using assms(2) by (auto simp: try_join_all_def split: option.splits)
  then have "\<forall>i < n. \<not> isl (attempt i)" using assms(1) by (auto simp: find_None_iff)
  then show ?thesis by (auto simp: rs sum.collapse(2))
qed

lemma try_join_all_Inl:
  assumes "set ended = {..<n}" and "try_join_all ended attempt n = Inl e"
  shows "\<exists>i < n. attempt i = Inl e"
  using assms by (auto simp: try_join_all_def find_Some_iff split: option.splits) (metis lessThan_iff nth_mem sum.collapse(1))

text \<open>
  A pool that starts is the one \<open>pool_connect\<close> describes: every connection it is to keep is open, under the
  TLS of \<^verbatim>\<open>EncryptOnly\<close>, named, with a timeout, and has run the session's settings.
\<close>

lemma pool_start_connects:
  assumes "set ended = {..<op_min opts}" and "pool_start lib provider en ended opts now url = Some (Inr o')"
  shows "od_pool o' = pool_connect opts now" and "make_rustls lib provider = Inr (od_tls o')"
    and "pc_application_name (od_config o') \<noteq> None" and "pc_connect_timeout (od_config o') \<noteq> None"
    and "op_max opts \<le> MAX_PERMITS"
    and "\<forall>i < op_min opts. en_connects en (od_config o') (od_tls o') i \<and> en_runs en session i"
proof -
  obtain parsed tls warm where parsed: "en_parse en url = Inr parsed" and tls: "make_rustls lib provider = Inr tls"
    and permits: "\<not> MAX_PERMITS < op_max opts"
    and warm: "try_join_all ended (open_attempt en (with_defaults parsed) tls now) (op_min opts) = Inr warm"
    and o': "o' = \<lparr>od_config = with_defaults parsed, od_tls = tls,
      od_pool = \<lparr>po_idle = warm, po_slots = op_max opts, po_acquired = 0, po_opening = 0,
        po_held = [], po_releasing = 0, po_next = op_min opts\<rparr>\<rparr>"
    using assms(2) by (auto simp: pool_start_def Let_def split: sum.splits if_splits)
  note joined = try_join_all_Inr [OF assms(1) warm]
  then have each: "en_connects en (with_defaults parsed) tls i \<and> en_runs en session i \<and> warm ! i = open_conn i now"
    if "i < op_min opts" for i
    using that by (fastforce simp: open_attempt_def split: if_splits)
  then have "warm = map (\<lambda>i. open_conn i now) [0..<op_min opts]"
    using joined by (intro nth_equalityI) auto
  then show "od_pool o' = pool_connect opts now" by (simp add: o' pool_connect_def)
  show "make_rustls lib provider = Inr (od_tls o')" by (simp add: o' tls)
  show "pc_application_name (od_config o') \<noteq> None" by (simp add: o' with_defaults_def Let_def)
  show "pc_connect_timeout (od_config o') \<noteq> None" by (simp add: o' with_defaults_def Let_def)
  show "op_max opts \<le> MAX_PERMITS" using permits by simp
  show "\<forall>i < op_min opts. en_connects en (od_config o') (od_tls o') i \<and> en_runs en session i"
    using each by (simp add: o')
qed

text \<open>What the URL says is kept.\<close>

lemma with_defaults_keeps:
  "pc_application_name c = Some a \<Longrightarrow> pc_application_name (with_defaults c) = Some a"
  "pc_connect_timeout c = Some s \<Longrightarrow> pc_connect_timeout (with_defaults c) = Some s"
  by (simp_all add: with_defaults_def Let_def)

text \<open>One connection that cannot be opened or set up fails the start: there is no pool with fewer.\<close>

lemma one_failure_fails_start:
  assumes "set ended = {..<op_min opts}" and "i < op_min opts" and "en_parse en url = Inr parsed"
    and "make_rustls lib provider = Inr tls" and "op_max opts \<le> MAX_PERMITS"
    and "\<not> (en_connects en (with_defaults parsed) tls i \<and> en_runs en session i)"
  shows "\<exists>j < op_min opts. pool_start lib provider en ended opts now url = Some (Inl (ConnectFailed j)) \<or>
    pool_start lib provider en ended opts now url = Some (Inl (SessionFailed j))"
proof -
  let ?attempt = "open_attempt en (with_defaults parsed) tls now"
  have fails: "isl (?attempt i)" using assms(6) by (auto simp: open_attempt_def)
  obtain e where e: "try_join_all ended ?attempt (op_min opts) = Inl e"
    using try_join_all_Inr [OF assms(1), of ?attempt] assms(2) fails
    by (cases "try_join_all ended ?attempt (op_min opts)") auto
  from try_join_all_Inl [OF assms(1) this] obtain j where j: "j < op_min opts" "?attempt j = Inl e" by blast
  then have "e = ConnectFailed j \<or> e = SessionFailed j" by (auto simp: open_attempt_def split: if_splits)
  then show ?thesis using j(1) e assms(3-5) by (auto simp: pool_start_def)
qed

text \<open>A \<^verbatim>\<open>PGVS3_POOL_MAX\<close> that parses but is beyond the permits of a semaphore is a panic.\<close>

lemma pool_start_panics:
  "pool_start lib provider en ended opts now url = None \<longleftrightarrow>
     \<not> isl (en_parse en url) \<and> \<not> isl (make_rustls lib provider) \<and> MAX_PERMITS < op_max opts"
  by (auto simp: pool_start_def Let_def split: sum.splits)

text \<open>From its start on, whatever its users do, the pool keeps to its sizes.\<close>

lemma db_connect_pool_ok:
  assumes "set ended = {..<op_min (connect_options min_var max_var)}"
    and "db_connect lib provider en ended min_var max_var now url = Some (Inr o')"
    and "(pool_step (connect_options min_var max_var))\<^sup>*\<^sup>* (od_pool o') p"
  shows "pool_ok (connect_options min_var max_var) p"
proof -
  have "od_pool o' = pool_connect (connect_options min_var max_var) now"
    by (rule pool_start_connects(1) [OF assms(1) assms(2) [unfolded db_connect_def]])
  moreover have "pool_ok (connect_options min_var max_var) (pool_connect (connect_options min_var max_var) now)"
    by (rule pool_ok_connect) (simp add: connect_options_def)
  ultimately show ?thesis using connections.run_ok [OF assms(3)] by simp
qed

end
