(* ===== verification/Warmup.thy ===== *)
theory Warmup
  imports Layout Connect
begin

text \<open>
  What a gateway does before it accepts connections (\<^verbatim>\<open>src/main.rs\<close>: the \<^verbatim>\<open>serve\<close> command,
  \<^verbatim>\<open>src/warmup.rs\<close>): it connects, checks the layout and, in the background, warms the
  primary-key indexes of the chunk partitions. The sizes come from the catalog of
  PostgreSQL and the warming itself is its extension, both parameters.
\<close>

text \<open>\<open>shared_buffers\<close> counts pages of 8192 bytes; a tenth of it is the budget.\<close>

definition prewarm_budget :: "int \<Rightarrow> int" where
  "prewarm_budget shared_buffers = shared_buffers * 8192 div 10"

text \<open>\<open>prewarm\<close> is one call of \<^verbatim>\<open>pg_prewarm\<close>: the blocks it read, or its error, which ends the warmup.\<close>

fun prewarm_all :: "(ustring \<Rightarrow> 'e + int) \<Rightarrow> int \<Rightarrow> (ustring \<times> int) list \<Rightarrow> 'e + int" where
  "prewarm_all prewarm blocks [] = Inr blocks"
| "prewarm_all prewarm blocks ((name, _) # idx) =
     (case prewarm name of
        Inl e \<Rightarrow> Inl e
      | Inr n \<Rightarrow> prewarm_all prewarm (blocks + n) idx)"

definition prewarm_index :: "(ustring \<Rightarrow> 'e + int) \<Rightarrow> (ustring \<times> int) list \<Rightarrow> int \<Rightarrow> 'e + int option" where
  "prewarm_index prewarm idx shared_buffers =
     (if sum_list (map snd idx) > prewarm_budget shared_buffers then Inr None
      else (case prewarm_all prewarm 0 idx of Inl e \<Rightarrow> Inl e | Inr blocks \<Rightarrow> Inr (Some blocks)))"

text \<open>
  The start of a command, from what \<open>db_connect\<close> came to: a panic (None) beyond the permits of a
  semaphore, the error of the URL, of TLS or of a connection, or a pool. A pool of no permits hands no connection
  out, and the first statement of the command times out.
\<close>

datatype start_error = NoConnection connect_error | NoPermit | BadLayout init_error

definition usable_pool :: "(connect_error + 'alg opened) option \<Rightarrow> (start_error + pool) option" where
  "usable_pool connected =
     (case connected of
        None \<Rightarrow> None
      | Some (Inl e) \<Rightarrow> Some (Inl (NoConnection e))
      | Some (Inr o') \<Rightarrow>
          if po_slots (od_pool o') = 0 then Some (Inl NoPermit) else Some (Inr (od_pool o')))"

text \<open>The \<^verbatim>\<open>serve\<close> command up to its accept loop: it connects and checks the layout.\<close>

definition serve_start :: "(connect_error + 'alg opened) option \<Rightarrow> layout \<Rightarrow> (start_error + pool) option \<times> layout" where
  "serve_start connected s =
     (case usable_pool connected of
        None \<Rightarrow> (None, s)
      | Some (Inl e) \<Rightarrow> (Some (Inl e), s)
      | Some (Inr p) \<Rightarrow>
          (case init_locked s of
             (Inl e, s') \<Rightarrow> (Some (Inl (BadLayout e)), s')
           | (Inr _, s') \<Rightarrow> (Some (Inr p), s')))"

text \<open>The pool of a start has the permits the environment asks for.\<close>

lemma db_connect_usable:
  assumes "db_connect lib provider en ended min_var max_var now url = Some (Inr o')" and "pool_max max_var \<noteq> 0"
  shows "usable_pool (db_connect lib provider en ended min_var max_var now url) = Some (Inr (od_pool o'))"
proof -
  have "po_slots (od_pool o') = pool_max max_var"
    using assms(1) by (auto simp: db_connect_def pool_start_def connect_options_def Let_def split: sum.splits if_splits)
  then show ?thesis by (simp add: usable_pool_def assms)
qed

lemma usable_pool_None: "usable_pool c = None \<longleftrightarrow> c = None"
  by (auto simp: usable_pool_def split: option.split sum.split)

text \<open>A start panics exactly if \<^verbatim>\<open>PGVS3_POOL_MAX\<close> is beyond the permits of a semaphore, once the URL and TLS are good.\<close>

lemma db_connect_panics:
  "usable_pool (db_connect lib provider en ended min_var max_var now url) = None \<longleftrightarrow>
     \<not> isl (en_parse en url) \<and> \<not> isl (make_rustls lib provider) \<and> MAX_PERMITS < pool_max max_var"
  unfolding db_connect_def usable_pool_None pool_start_panics by (simp add: connect_options_def)

text \<open>
  An index set that fits is warmed whole, block by block, and a larger one is left alone: the
  warmup never reads more than a tenth of the buffers if each index reads its own
  blocks.
\<close>

lemma prewarm_all_sum:
  assumes "\<forall>x \<in> set idx. prewarm (fst x) = Inr (blocks_of (fst x))"
  shows "prewarm_all prewarm n idx = Inr (n + sum_list (map (blocks_of \<circ> fst) idx))"
  using assms
proof (induction idx arbitrary: n)
  case (Cons x idx)
  then show ?case by (cases x) (simp add: add.assoc)
qed simp

lemma prewarm_within_budget:
  assumes "\<forall>x \<in> set idx. prewarm (fst x) = Inr (blocks_of (fst x)) \<and> blocks_of (fst x) * 8192 \<le> snd x"
    and "prewarm_index prewarm idx shared_buffers = Inr (Some blocks)"
  shows "blocks * 8192 * 10 \<le> shared_buffers * 8192"
proof -
  have blocks: "blocks = sum_list (map (blocks_of \<circ> fst) idx)"
    and budget: "sum_list (map snd idx) \<le> prewarm_budget shared_buffers"
    using assms prewarm_all_sum [of idx prewarm blocks_of 0]
    by (auto simp: prewarm_index_def split: if_splits sum.splits)
  have "sum_list (map (blocks_of \<circ> fst) idx) * 8192 \<le> sum_list (map snd idx)"
    using assms(1)
  proof (induction idx)
    case (Cons x idx)
    then show ?case by (simp add: distrib_right)
  qed simp
  with budget have "blocks * 8192 \<le> shared_buffers * 8192 div 10" by (simp add: blocks prewarm_budget_def)
  then show ?thesis by linarith
qed

end
