(* ===== verification/Bench.thy ===== *)
theory Bench
  imports Filler Warmup Gateway_Spec
begin

text \<open>
  The load generator (\<^verbatim>\<open>src/bench.rs\<close>): which objects it samples, the range each
  operation reads, the tasks of a load, and the reads of the raw database floor. The
  object store client is third-party code, a parameter; timings are left out.
\<close>

text \<open>
  How a run ends early: an error of the client, a short read, a database that is not there,
  an error or an empty answer of it, and the panics on no objects, on statistics of no reads, on more permits than a
  semaphore has and of \<open>db::get\<close>.
\<close>

datatype bench_error = ClientError | ShortRead | GetError | EmptyRead | NoObjects | NoReads | NoDatabase start_error
  | PoolPanic | GetPanic

text \<open>The object store client: its listing, which may break off, its HEAD and its ranged GET.\<close>

record client =
  cl_list :: "(unit + ustring \<times> nat) list"
  cl_head :: "ustring \<Rightarrow> bool"
  cl_get_range :: "ustring \<Rightarrow> nat \<Rightarrow> nat \<Rightarrow> bytes option"

record bench_config =
  bn_sizes :: "nat list"
  bn_concurrency :: "nat list"
  bn_requests :: nat
  bn_sample :: nat

section \<open>Draws\<close>

text \<open>The loop stops behind the object that fills the sample.\<close>

fun sample_keys :: "nat \<Rightarrow> (ustring \<times> nat) list \<Rightarrow> (unit + ustring \<times> nat) list \<Rightarrow> bench_error + (ustring \<times> nat) list" where
  "sample_keys sample keys [] = Inr keys"
| "sample_keys sample keys (Inl _ # stream) = Inl ClientError"
| "sample_keys sample keys (Inr m # stream) =
     (if length (keys @ [m]) \<ge> max sample 1 then Inr (keys @ [m]) else sample_keys sample (keys @ [m]) stream)"

text \<open>Key, offset and length of one operation, and the filler after it.\<close>

definition bench_draw :: "(ustring \<times> nat) list \<Rightarrow> nat \<Rightarrow> 64 word \<Rightarrow> (ustring \<times> nat \<times> nat) \<times> 64 word" where
  "bench_draw keys size' filler =
     (case next_u64 filler of (w, filler1) \<Rightarrow>
        (case keys ! (unat w mod length keys) of (key, obj_size) \<Rightarrow>
           (case (if obj_size \<le> size' then (0, filler1)
                  else
                    (let slots = (obj_size - size') div 4096 + 1
                     in case next_u64 filler1 of (v, filler2) \<Rightarrow> ((unat v mod slots) * 4096, filler2))) of
              (off, filler') \<Rightarrow> ((key, off, min (obj_size - off) size'), filler'))))"

section \<open>Loads\<close>

text \<open>One task: \<open>per_task\<close> operations one after the other, up to the first error.\<close>

fun bench_task :: "(ustring \<Rightarrow> nat \<Rightarrow> nat \<Rightarrow> bench_error + 'a) \<Rightarrow> (ustring \<times> nat) list \<Rightarrow> nat \<Rightarrow> nat \<Rightarrow> 64 word \<Rightarrow>
    bench_error + 'a list" where
  "bench_task op keys size' 0 filler = Inr []"
| "bench_task op keys size' (Suc n) filler =
     (case bench_draw keys size' filler of ((key, off, want), filler') \<Rightarrow>
        (case op key off want of
           Inl e \<Rightarrow> Inl e
         | Inr d \<Rightarrow>
             (case bench_task op keys size' n filler' of Inl e \<Rightarrow> Inl e | Inr ds \<Rightarrow> Inr (d # ds))))"

text \<open>The results of the tasks, joined in the order they were spawned.\<close>

fun join_all :: "(bench_error + 'a list) list \<Rightarrow> bench_error + 'a list" where
  "join_all [] = Inr []"
| "join_all (Inl e # _) = Inl e"
| "join_all (Inr ds # rest) = (case join_all rest of Inl e \<Rightarrow> Inl e | Inr ds' \<Rightarrow> Inr (ds @ ds'))"

definition load :: "(ustring \<Rightarrow> nat \<Rightarrow> nat \<Rightarrow> bench_error + 'a) \<Rightarrow> (ustring \<times> nat) list \<Rightarrow> nat \<Rightarrow> nat \<Rightarrow> nat \<Rightarrow>
    bench_error + 'a list" where
  "load op keys size' concurrency per_task =
     join_all (map (\<lambda>t. bench_task op keys size' per_task (0xC0FFEE + of_nat t)) [0..<max concurrency 1])"

definition get_op :: "client \<Rightarrow> ustring \<Rightarrow> nat \<Rightarrow> nat \<Rightarrow> bench_error + unit" where
  "get_op cl key off size' =
     (case cl_get_range cl key off (off + size') of
        None \<Rightarrow> Inl ClientError
      | Some bs \<Rightarrow> if length bs \<noteq> size' then Inl ShortRead else Inr ())"

definition head_op :: "client \<Rightarrow> ustring \<Rightarrow> nat \<Rightarrow> nat \<Rightarrow> bench_error + unit" where
  "head_op cl key off size' = (if cl_head cl key then Inr () else Inl ClientError)"

text \<open>A first page: up to 1000 entries of the listing.\<close>

fun list_page :: "nat \<Rightarrow> (unit + 'm) list \<Rightarrow> bench_error + unit" where
  "list_page n [] = Inr ()"
| "list_page n (Inl _ # stream) = Inl ClientError"
| "list_page n (Inr _ # stream) = (if n + 1 \<ge> 1000 then Inr () else list_page (n + 1) stream)"

definition list_op :: "client \<Rightarrow> ustring \<Rightarrow> nat \<Rightarrow> nat \<Rightarrow> bench_error + unit" where
  "list_op cl key off size' = list_page 0 (cl_list cl)"

section \<open>The suite\<close>

text \<open>\<^verbatim>\<open>stats\<close> indexes the sorted times at their last position: none is a panic.\<close>

definition report :: "bench_error + 'a list \<Rightarrow> bench_error + nat" where
  "report r =
     (case r of
        Inl e \<Rightarrow> Inl e
      | Inr v \<Rightarrow> if v = [] then Inl NoReads else Inr (length v))"

text \<open>One load after the other, up to the first error.\<close>

fun rounds :: "('c \<Rightarrow> bench_error + 'r) \<Rightarrow> 'c list \<Rightarrow> bench_error + 'r list" where
  "rounds f [] = Inr []"
| "rounds f (c # cs) =
     (case f c of
        Inl e \<Rightarrow> Inl e
      | Inr r \<Rightarrow> (case rounds f cs of Inl e \<Rightarrow> Inl e | Inr rs \<Rightarrow> Inr (r # rs)))"

definition bench_heads :: "client \<Rightarrow> (ustring \<times> nat) list \<Rightarrow> bench_config \<Rightarrow> bench_error + nat list" where
  "bench_heads cl keys cfg =
     rounds (\<lambda>conc. report (load (head_op cl) keys 0 conc (div_ceil (bn_requests cfg) (max conc 1))))
       (bn_concurrency cfg)"

text \<open>
  The reads of one size: only objects at least this large, none if there are none; above
  1 MiB about the same bytes per size, but at least one read per task. The product wraps at the width
  of \<^verbatim>\<open>usize\<close>, as in the release build.
\<close>

definition bench_gets :: "client \<Rightarrow> (ustring \<times> nat) list \<Rightarrow> bench_config \<Rightarrow> nat \<Rightarrow> bench_error + nat list" where
  "bench_gets cl keys cfg size' =
     (let fit = filter (\<lambda>(_, s). s \<ge> size') keys
      in if fit = [] then Inr []
         else
           rounds
             (\<lambda>conc.
               let n = max ((bn_requests cfg * 2 ^ 20) mod 2 ^ 64 div max size' (2 ^ 20)) conc;
                   per_task = div_ceil n (max conc 1)
               in report (load (get_op cl) fit size' conc per_task)) (bn_concurrency cfg))"

section \<open>The floor\<close>

text \<open>One read of \<^verbatim>\<open>db::get\<close> in the first sampled object: its offset and length.\<close>

definition floor_draw :: "nat \<Rightarrow> 64 word \<Rightarrow> (int \<times> int) \<times> 64 word" where
  "floor_draw size0 filler =
     (let len = min 262144 (as_i64 (int size0));
          max_off = max (as_i64 (int size0) - len) 0 div 4096
      in case next_u64 filler of (w, filler') \<Rightarrow> ((as_i64 (uint w mod (max_off + 1)) * 4096, len), filler'))"

text \<open>
  \<open>n\<close> reads through one cache; the database is read at the states \<open>dbs\<close> of each read.
\<close>

fun floor_reads :: "(nat \<Rightarrow> nat \<Rightarrow> db) \<Rightarrow> (nat \<Rightarrow> nat \<Rightarrow> piece \<Rightarrow> recv) \<Rightarrow> ustring \<Rightarrow> ustring \<Rightarrow> nat \<Rightarrow> nat \<Rightarrow> 64 word \<Rightarrow>
    cache \<Rightarrow> bench_error + bytes list" where
  "floor_reads dbs fetch b k size0 0 filler c = Inr []"
| "floor_reads dbs fetch b k size0 (Suc n) filler c =
     (case floor_draw size0 filler of ((off, len), filler') \<Rightarrow>
        (case get_slice (\<lambda>_. True) (dbs n) (fetch n) c b k off (off + len - 1) (-1) of
           (None, _) \<Rightarrow> Inl GetPanic
         | (Some (Inl _), _) \<Rightarrow> Inl GetError
         | (Some (Inr None), _) \<Rightarrow> Inl EmptyRead
         | (Some (Inr (Some sl)), c') \<Rightarrow>
             if sl_bytes sl = [] then Inl EmptyRead
             else
               (case floor_reads dbs fetch b k size0 n filler' c' of
                  Inr ls \<Rightarrow> Inr (sl_bytes sl # ls)
                | Inl e \<Rightarrow> Inl e)))"

text \<open>
  The whole run against the client \<open>cl\<close> of the gateway and, for the floor, bucket \<open>b\<close> of the
  database, whose connection is made (\<open>started\<close>) when the loads are over; it returns the number of operations behind
  each printed line.
\<close>

record bench_report =
  br_heads :: "nat list"
  br_gets :: "nat list list"
  br_lists :: nat
  br_floor :: nat

definition bench_run :: "client \<Rightarrow> (start_error + pool) option \<Rightarrow> (nat \<Rightarrow> nat \<Rightarrow> db) \<Rightarrow> (nat \<Rightarrow> nat \<Rightarrow> piece \<Rightarrow> recv) \<Rightarrow> cache \<Rightarrow> ustring \<Rightarrow>
    bench_config \<Rightarrow> bench_error + bench_report" where
  "bench_run cl started dbs fetch c b cfg =
     (case sample_keys (bn_sample cfg) [] (cl_list cl) of
        Inl e \<Rightarrow> Inl e
      | Inr [] \<Rightarrow> Inl NoObjects
      | Inr ((key0, size0) # rest) \<Rightarrow>
          let keys = (key0, size0) # rest
          in case bench_heads cl keys cfg of
               Inl e \<Rightarrow> Inl e
             | Inr heads \<Rightarrow>
                 (case rounds (bench_gets cl keys cfg) (bn_sizes cfg) of
                    Inl e \<Rightarrow> Inl e
                  | Inr gets \<Rightarrow>
                      (case report (load (list_op cl) keys 0 1 100) of
                         Inl e \<Rightarrow> Inl e
                       | Inr pages \<Rightarrow>
                           (case started of
                              None \<Rightarrow> Inl PoolPanic
                            | Some (Inl e) \<Rightarrow> Inl (NoDatabase e)
                            | Some (Inr _) \<Rightarrow>
                                (case report (floor_reads dbs fetch b key0 size0 2000 42 c) of
                                   Inl e \<Rightarrow> Inl e
                                 | Inr floor' \<Rightarrow>
                                     Inr \<lparr>br_heads = heads, br_gets = gets, br_lists = pages, br_floor = floor'\<rparr>)))))"

section \<open>Reads stay inside the objects\<close>

lemma sample_keys_take:
  "length keys < max sample 1 \<Longrightarrow>
     sample_keys sample keys (map Inr ms) = Inr (keys @ take (max sample 1 - length keys) ms)"
proof (induction ms arbitrary: keys)
  case (Cons m ms)
  show ?case
  proof (cases "Suc (length keys) < max sample 1")
    case True
    then obtain d where "max sample 1 - length keys = Suc d" "max sample 1 - Suc (length keys) = d"
      by (cases "max sample 1 - length keys") auto
    with Cons.IH [of "keys @ [m]"] True show ?thesis by simp
  next
    case False
    with Cons.prems have "max sample 1 - length keys = Suc 0" and "length (keys @ [m]) \<ge> max sample 1" by simp_all
    then show ?thesis by simp
  qed
qed simp

lemma bench_draw_inside:
  assumes "keys \<noteq> []" and "\<forall>(_, s) \<in> set keys. s \<ge> size'"
    and "bench_draw keys size' filler = ((key, off, want), filler')"
  shows "want = size' \<and> 4096 dvd off \<and> (\<exists>s. (key, s) \<in> set keys \<and> off + want \<le> s)"
proof -
  obtain w filler1 where w: "next_u64 filler = (w, filler1)" by fastforce
  obtain v filler2 where v: "next_u64 filler1 = (v, filler2)" by fastforce
  obtain key' s where s: "keys ! (unat w mod length keys) = (key', s)" by fastforce
  then have mem: "(key', s) \<in> set keys" using assms(1) by (metis length_greater_0_conv mod_less_divisor nth_mem)
  then have fit: "size' \<le> s" using assms(2) by blast
  define q where "q = unat v mod ((s - size') div 4096 + 1)"
  have "q \<le> (s - size') div 4096" by (simp add: q_def less_Suc_eq_le [symmetric])
  then have "q * 4096 \<le> (s - size') div 4096 * 4096" by simp
  also have "\<dots> \<le> s - size'" by simp
  finally have q: "q * 4096 + size' \<le> s" using fit by simp
  have "key' = key" and "off = (if s \<le> size' then 0 else q * 4096)" and "want = min (s - off) size'"
    using assms(3) by (auto simp: bench_draw_def w v s Let_def q_def split: if_splits)
  with q mem fit show ?thesis by auto
qed

lemma bench_task_ok:
  assumes "keys \<noteq> []" and "\<forall>(_, s) \<in> set keys. s \<ge> size'"
    and "\<And>key off s. (key, s) \<in> set keys \<Longrightarrow> off + size' \<le> s \<Longrightarrow> op key off size' = Inr d"
  shows "bench_task op keys size' n filler = Inr (replicate n d)"
proof (induction n arbitrary: filler)
  case (Suc n)
  obtain key off want filler' where draw: "bench_draw keys size' filler = ((key, off, want), filler')"
    by (metis surj_pair)
  from bench_draw_inside [OF assms(1,2) draw] assms(3) have "op key off want = Inr d" by blast
  with draw Suc show ?case by simp
qed simp

lemma join_all_Inr: "join_all (map (\<lambda>t. Inr (replicate n d)) ts) = Inr (replicate (length ts * n) d)"
  by (induction ts) (simp_all add: replicate_add)

lemma load_ok:
  assumes "keys \<noteq> []" and "\<forall>(_, s) \<in> set keys. s \<ge> size'"
    and "\<And>key off s. (key, s) \<in> set keys \<Longrightarrow> off + size' \<le> s \<Longrightarrow> op key off size' = Inr d"
  shows "load op keys size' concurrency per_task = Inr (replicate (max concurrency 1 * per_task) d)"
proof -
  have "bench_task op keys size' per_task = (\<lambda>filler. Inr (replicate per_task d))"
    using bench_task_ok [where op = op, OF assms(1,2)] assms(3) by blast
  then show ?thesis by (simp add: load_def join_all_Inr)
qed

text \<open>
  A client that is exact for the objects it lists: every HEAD finds its object, and a range
  inside an object is returned whole.
\<close>

definition exact_client :: "client \<Rightarrow> (ustring \<times> nat) list \<Rightarrow> bool" where
  "exact_client cl ms \<longleftrightarrow> cl_list cl = map Inr ms \<and>
     (\<forall>(key, s) \<in> set ms. cl_head cl key \<and>
        (\<forall>off end'. off < end' \<and> end' \<le> s \<longrightarrow> (\<exists>bs. cl_get_range cl key off end' = Some bs \<and> length bs = end' - off)))"

text \<open>What the gateway answers to the requests of a client, with the metadata cache it has at that moment.\<close>

definition head_answer :: "db \<Rightarrow> cache \<Rightarrow> ustring \<Rightarrow> ustring \<Rightarrow> bool" where
  "head_answer db c b key = (case head_object b key \<lparr>g_db = db, g_cache = c\<rparr> of (res, _) \<Rightarrow> \<not> isl res)"

definition range_answer :: "db \<Rightarrow> cache \<Rightarrow> ustring \<Rightarrow> ustring \<Rightarrow> nat \<Rightarrow> nat \<Rightarrow> bytes option" where
  "range_answer db c b key off end' =
     (case get_object (\<lambda>_. True) (\<lambda>_. db) (\<lambda>_. fetch_part (d_chunks db)) c b key
             (Some (RangeInt (of_nat off) (Some (of_nat (end' - 1))))) of
        (Some (Inr out), _) \<Rightarrow> (case body_bytes (go_body out) of Inl _ \<Rightarrow> None | Inr bs \<Rightarrow> Some bs)
      | _ \<Rightarrow> None)"

text \<open>
  A client of a gateway on a quiet database: it lists objects of the bucket with their sizes, and each of its HEAD and
  ranged GET requests has the outcome of the gateway's handler, whatever the gateway has cached by then.
\<close>

definition gateway_client :: "db \<Rightarrow> ustring \<Rightarrow> (ustring \<times> nat) list \<Rightarrow> client \<Rightarrow> bool" where
  "gateway_client db b ms cl \<longleftrightarrow> cl_list cl = map Inr ms \<and>
     (\<forall>(key, s) \<in> set ms. \<exists>r. find_object db b key = Some r \<and> o_size r = int s) \<and>
     (\<forall>key. \<exists>c. coherent db c \<and> cl_head cl key = head_answer db c b key) \<and>
     (\<forall>key off end'. off < end' \<longrightarrow> (\<exists>c. coherent db c \<and> cl_get_range cl key off end' = range_answer db c b key off end'))"

lemma range_answer_full:
  assumes ok: "db_ok db" "coherent db c" and obj: "find_object db b key = Some r" "o_size r = int s" "s < 2 ^ 63"
    and range: "off < end'" "end' \<le> s"
  shows "\<exists>bs. range_answer db c b key off end' = Some bs \<and> length bs = end' - off"
proof -
  obtain data digest where stored: "stored_object db r = (data, digest)" by fastforce
  have len: "length data = s" using stored_length [OF ok(1) obj(1)] obj(2) by (simp add: stored)
  have abs: "a_objects (abs_of db) (b, key) = Some (data, digest)" by (simp add: abs_of_def obj(1) stored)
  let ?rng = "Some (RangeInt (of_nat off) (Some (of_nat (end' - 1))))"
  have "uint (of_nat n :: 64 word) = int n" if "n < 2 ^ 63" for n
    using that by (simp add: unsigned_of_nat take_bit_nat_eq_self)
  then have "sint (of_nat n :: 64 word) = int n" if "n < 2 ^ 63" for n using that by (simp add: sint_small)
  from this [of off] this [of "end' - 1"] have params: "range_params ?rng = (int off, int (end' - 1), -1)"
    using obj(3) range by (simp only: range_params.simps option.case)
  obtain res c' where get: "get_object (\<lambda>_. True) (\<lambda>_. db) (\<lambda>_. fetch_part (d_chunks db)) c b key ?rng = (Some res, c')"
    and answer: "get_answer ?rng data digest res"
    using get_object_quiet [OF ok, of b key ?rng] unfolding abs by auto
  have eff: "eff_range (int (length data)) (int off) (int (end' - 1)) (-1) = (int off, int (end' - 1))"
    using range by (simp add: eff_range_def len)
  have "data \<noteq> []" using len range by auto
  with answer obtain out where "res = Inr out"
    "body_bytes (go_body out) = Inr (take (nat (int (end' - 1) - int off + 1)) (drop off data))"
    using range len unfolding get_answer_def params prod.case eff by (auto split: sum.splits)
  with get range len show ?thesis by (auto simp: range_answer_def nat_diff_distrib')
qed

lemma gateway_client_exact:
  assumes ok: "db_ok db" and cl: "gateway_client db b ms cl" and sizes: "\<forall>(_, s) \<in> set ms. s < 2 ^ 63"
  shows "exact_client cl ms"
  unfolding exact_client_def
proof (intro conjI ballI, goal_cases)
  case 1
  then show ?case using cl by (simp add: gateway_client_def)
next
  case (2 x)
  obtain key s where x: "x = (key, s)" by fastforce
  then obtain r where r: "find_object db b key = Some r" "o_size r = int s" and s: "s < 2 ^ 63"
    using cl sizes 2 by (fastforce simp: gateway_client_def)
  obtain c where "coherent db c" "cl_head cl key = head_answer db c b key" using cl unfolding gateway_client_def by blast
  then have head: "cl_head cl key" using r(1) by (auto simp: head_answer_def head_object_def meta_fresh_def split: option.split)
  have "\<exists>bs. cl_get_range cl key off end' = Some bs \<and> length bs = end' - off" if range: "off < end'" "end' \<le> s" for off end'
  proof -
    obtain c where c: "coherent db c" "cl_get_range cl key off end' = range_answer db c b key off end'"
      using cl range(1) unfolding gateway_client_def by blast
    from range_answer_full [OF ok c(1) r s range] show ?thesis by (simp add: c(2))
  qed
  with head show ?case by (simp add: x)
qed

lemma exact_get:
  assumes "exact_client cl ms" and "(key, s) \<in> set ms" and "off < end'" and "end' \<le> s"
  shows "\<exists>bs. cl_get_range cl key off end' = Some bs \<and> length bs = end' - off"
proof -
  have "\<forall>x \<in> set ms. \<forall>off end'. off < end' \<and> end' \<le> snd x \<longrightarrow>
      (\<exists>bs. cl_get_range cl (fst x) off end' = Some bs \<and> length bs = end' - off)"
    using assms(1) by (simp add: exact_client_def case_prod_unfold)
  from bspec [OF this assms(2)] assms(3,4) show ?thesis by simp
qed

lemma rounds_ok: "\<forall>c \<in> set cs. f c = Inr (g c) \<Longrightarrow> rounds f cs = Inr (map g cs)"
  by (induction cs) simp_all

lemma report_replicate: "0 < n \<Longrightarrow> report (Inr (replicate n d)) = Inr n"
  by (simp add: report_def)

lemma list_page_ok: "list_page n (map Inr ms) = Inr ()"
  by (induction ms arbitrary: n) simp_all

lemma div_ceil_pos: "0 < a \<Longrightarrow> 0 < b \<Longrightarrow> 0 < div_ceil a b"
  by (simp add: div_ceil_def div_greater_zero_iff)

lemma bench_heads_ok:
  assumes "exact_client cl ms" and "set keys \<subseteq> set ms" and "keys \<noteq> []" and "0 < bn_requests cfg"
  shows "bench_heads cl keys cfg =
    Inr (map (\<lambda>conc. max conc 1 * div_ceil (bn_requests cfg) (max conc 1)) (bn_concurrency cfg))"
  unfolding bench_heads_def
proof (rule rounds_ok, intro ballI)
  fix conc
  have "head_op cl key off 0 = Inr ()" if "(key, s) \<in> set keys" for key off s
    using assms(1,2) that by (auto simp: head_op_def exact_client_def)
  then have "load (head_op cl) keys 0 conc m = Inr (replicate (max conc 1 * m) ())" for m
    by (intro load_ok [OF assms(3)]) auto
  moreover have "0 < max conc 1 * div_ceil (bn_requests cfg) (max conc 1)" using div_ceil_pos assms(4) by simp
  ultimately show "report (load (head_op cl) keys 0 conc (div_ceil (bn_requests cfg) (max conc 1))) =
      Inr (max conc 1 * div_ceil (bn_requests cfg) (max conc 1))" by (simp only: report_replicate)
qed

definition reads_of :: "bench_config \<Rightarrow> nat \<Rightarrow> nat \<Rightarrow> nat" where
  "reads_of cfg size' conc =
     max conc 1 * div_ceil (max (bn_requests cfg * 2 ^ 20 div max size' (2 ^ 20)) conc) (max conc 1)"

lemma reads_of_tasks: "conc \<le> reads_of cfg size' conc"
  using div_ceil_bounds(1) [of "max conc 1" "max (bn_requests cfg * 2 ^ 20 div max size' (2 ^ 20)) conc"]
  by (simp add: reads_of_def mult.commute)

lemma bench_gets_ok:
  assumes "exact_client cl ms" and "set keys \<subseteq> set ms" and "0 < size'" and "\<forall>conc \<in> set (bn_concurrency cfg). 0 < conc"
    and "bn_requests cfg < 2 ^ 44"
  shows "bench_gets cl keys cfg size' =
    Inr (if \<forall>(_, s) \<in> set keys. s < size' then [] else map (reads_of cfg size') (bn_concurrency cfg))"
proof (cases "\<forall>(_, s) \<in> set keys. s < size'")
  case True
  then have "filter (\<lambda>(_, s). s \<ge> size') keys = []" by (auto simp: filter_empty_conv)
  with True show ?thesis by (simp add: bench_gets_def)
next
  case False
  let ?fit = "filter (\<lambda>(_, s). s \<ge> size') keys"
  have wrap: "(bn_requests cfg * 2 ^ 20) mod 2 ^ 64 = bn_requests cfg * 2 ^ 20" using assms(5) by simp
  have fit: "?fit \<noteq> []" "\<forall>(_, s) \<in> set ?fit. s \<ge> size'" using False by (force simp: filter_empty_conv not_less)+
  have "get_op cl key off size' = Inr ()" if "(key, s) \<in> set ?fit" "off + size' \<le> s" for key off s
  proof -
    have "(key, s) \<in> set ms" using that(1) assms(2) by auto
    from exact_get [OF assms(1) this, of off "off + size'"] that(2) assms(3) show ?thesis by (auto simp: get_op_def)
  qed
  then have load: "load (get_op cl) ?fit size' conc m = Inr (replicate (max conc 1 * m) ())" for conc m
    by (rule load_ok [OF fit])
  have "rounds (\<lambda>conc.
      let n = max (bn_requests cfg * 2 ^ 20 div max size' (2 ^ 20)) conc; per_task = div_ceil n (max conc 1)
      in report (load (get_op cl) ?fit size' conc per_task)) (bn_concurrency cfg) =
      Inr (map (reads_of cfg size') (bn_concurrency cfg))"
  proof (rule rounds_ok, intro ballI)
    fix conc assume "conc \<in> set (bn_concurrency cfg)"
    then have "0 < reads_of cfg size' conc" using assms(4) reads_of_tasks [of conc cfg size'] by force
    then show "(let n = max (bn_requests cfg * 2 ^ 20 div max size' (2 ^ 20)) conc; per_task = div_ceil n (max conc 1)
      in report (load (get_op cl) ?fit size' conc per_task)) = Inr (reads_of cfg size' conc)"
      unfolding Let_def load reads_of_def by (rule report_replicate)
  qed
  with False fit(1) show ?thesis by (simp only: bench_gets_def Let_def if_False wrap)
qed

lemma floor_draw_inside:
  assumes "floor_draw size0 filler = ((off, len), filler')" and "size0 < 2 ^ 63"
  shows "len = min 262144 (int size0)" and "0 \<le> off" and "off + len \<le> int size0"
proof -
  obtain w f where w: "next_u64 filler = (w, f)" by fastforce
  let ?max = "max (int size0 - min 262144 (int size0)) 0 div 4096"
  have size0: "as_i64 (int size0) = int size0" using assms(2) by (intro as_i64_id) simp_all
  define q where "q = uint w mod (?max + 1)"
  have "0 \<le> ?max" by simp
  then have "q < ?max + 1" unfolding q_def by (intro pos_mod_bound) simp
  with \<open>0 \<le> ?max\<close> have q: "0 \<le> q" "q \<le> ?max" by (simp_all add: q_def)
  moreover have max: "?max * 4096 \<le> int size0 - min 262144 (int size0)" by simp
  moreover have "?max \<le> int size0" using max by linarith
  ultimately have "q < 2 ^ 63" using assms(2) by simp
  then have "as_i64 q = q" using q(1) by (intro as_i64_id) simp_all
  then have "len = min 262144 (int size0)" "off = q * 4096"
    using assms(1) by (auto simp: floor_draw_def w size0 Let_def q_def)
  with q max show "len = min 262144 (int size0)" "0 \<le> off" "off + len \<le> int size0" by linarith+
qed

text \<open>
  On a quiet gateway the floor reads exactly the bytes it asks for, unless the first
  sampled object is empty: then the first read already ends the benchmark.
\<close>

text \<open>One read of the floor is a slice of the object.\<close>

lemma floor_read_slice:
  assumes ok: "db_ok db" and coh: "coherent db c" and obj: "find_object db b k = Some r"
    and size0: "o_size r = int size0" "size0 < 2 ^ 63"
  shows "\<exists>sl c' filler' off. get_slice (\<lambda>_. True) (\<lambda>_. db) (\<lambda>_. fetch_part (d_chunks db)) c b k off
        (off + min 262144 (int size0) - 1) (-1) = (Some (Inr (Some sl)), c') \<and> coherent db c' \<and>
      floor_draw size0 filler = ((off, min 262144 (int size0)), filler') \<and>
      sl_bytes sl = take (min 262144 size0) (drop (nat off) (fst (stored_object db r))) \<and>
      0 \<le> off \<and> nat off + min 262144 size0 \<le> size0"
proof -
  have data: "length (fst (stored_object db r)) = size0" using stored_length [OF ok obj] size0(1) by simp
  obtain off len filler' where draw: "floor_draw size0 filler = ((off, len), filler')" by (metis surj_pair)
  note inside = floor_draw_inside [OF draw size0(2)]
  obtain start end' where rng: "eff_range (o_size r) off (off + len - 1) (-1) = (start, end')" by fastforce
  obtain sl c' where sl: "get_slice (\<lambda>_. True) (\<lambda>_. db) (\<lambda>_. fetch_part (d_chunks db)) c b k off (off + len - 1) (-1) =
      (Some (Inr (Some sl)), c')" "coherent db c'"
    "sl_bytes sl = take (nat (end' - start + 1)) (drop (nat start) (fst (stored_object db r)))"
    by (rule get_slice_quiet [OF ok coh obj rng]) blast
  have "start = off" and "size0 = 0 \<or> end' = off + len - 1"
    using rng inside size0(1) by (auto simp: eff_range_def split: if_splits)
  moreover have "nat (min 262144 (int size0)) = min 262144 size0" by (simp add: min_def)
  ultimately have "sl_bytes sl = take (min 262144 size0) (drop (nat off) (fst (stored_object db r)))"
    unfolding sl(3) using inside(1) data by auto
  with sl(1,2) draw inside show ?thesis by (auto simp: nat_le_iff)
qed

lemma floor_reads_exact:
  assumes ok: "db_ok db" and "coherent db c" and obj: "find_object db b k = Some r"
    and size0: "o_size r = int size0" "size0 < 2 ^ 63"
  shows "size0 = 0 \<Longrightarrow> 0 < n \<Longrightarrow>
      floor_reads (\<lambda>_ _. db) (\<lambda>_ _. fetch_part (d_chunks db)) b k size0 n filler c = Inl EmptyRead"
    and "0 < size0 \<Longrightarrow>
      \<exists>ls. floor_reads (\<lambda>_ _. db) (\<lambda>_ _. fetch_part (d_chunks db)) b k size0 n filler c = Inr ls \<and>
        length ls = n \<and> list_all (\<lambda>l. l \<noteq> [] \<and> sublist l (fst (stored_object db r)) \<and> length l = min 262144 size0) ls"
proof -
  let ?data = "fst (stored_object db r)" and ?run = "floor_reads (\<lambda>_ _. db) (\<lambda>_ _. fetch_part (d_chunks db)) b k size0"
  have data: "length ?data = size0" using stored_length [OF ok obj] size0(1) by simp
  note step = floor_read_slice [OF ok _ obj size0]
  show "?run n filler c = Inl EmptyRead" if "size0 = 0" "0 < n"
    using step [OF assms(2), of filler] that data by (cases n) auto
  show "\<exists>ls. ?run n filler c = Inr ls \<and> length ls = n \<and>
      list_all (\<lambda>l. l \<noteq> [] \<and> sublist l ?data \<and> length l = min 262144 size0) ls" if pos: "0 < size0"
    using assms(2)
  proof (induction n arbitrary: filler c)
    case (Suc n)
    obtain sl c' filler' off where st: "get_slice (\<lambda>_. True) (\<lambda>_. db) (\<lambda>_. fetch_part (d_chunks db)) c b k off
        (off + min 262144 (int size0) - 1) (-1) = (Some (Inr (Some sl)), c')" "coherent db c'"
      "floor_draw size0 filler = ((off, min 262144 (int size0)), filler')"
      "sl_bytes sl = take (min 262144 size0) (drop (nat off) ?data)" "nat off + min 262144 size0 \<le> size0"
      using step [OF Suc.prems] by blast
    have len: "length (sl_bytes sl) = min 262144 size0" using st(4,5) data by simp
    moreover have "sublist (sl_bytes sl) ?data" unfolding st(4) sublist_def
      by (intro exI [of _ "take (nat off) ?data"] exI [of _ "drop (min 262144 size0) (drop (nat off) ?data)"])
        (simp only: append_take_drop_id)
    moreover have "sl_bytes sl \<noteq> []" using len pos by auto
    ultimately show ?case using Suc.IH [OF st(2), of filler'] st(1,3) by auto
  qed simp
qed

text \<open>
  C34. The benchmark runs to its end. Let its client be one of a gateway whose database is quiet, listing objects of the
  bucket with their sizes, at least one; let the run reach that database too. With at least one and fewer than \<open>2 ^ 44\<close> requests (so
  that their number in bytes does not wrap), every concurrency and every read size positive and every object smaller than
  \<open>2 ^ 63\<close> bytes, it reports for each size and concurrency the number of reads the
  options ask for, none of them short or empty; only if the first listed object is empty
  it fails, at its last step. (The client is third-party code: what is relied on is that each of its
  requests has the outcome of the gateway's handler.)
\<close>

theorem bench_run_complete:
  assumes "gateway_client db b ms cl" and "ms = (key0, size0) # rest" and "\<forall>(_, s) \<in> set ms. s < 2 ^ 63"
    and "0 < bn_requests cfg" and "bn_requests cfg < 2 ^ 44"
    and "\<forall>conc \<in> set (bn_concurrency cfg). 0 < conc" and "\<forall>size' \<in> set (bn_sizes cfg). 0 < size'"
    and "db_ok db" and "coherent db c"
  shows "bench_run cl (Some (Inr p)) (\<lambda>_ _. db) (\<lambda>_ _. fetch_part (d_chunks db)) c b cfg =
    (if size0 = 0 then Inl EmptyRead
     else Inr \<lparr>br_heads = map (\<lambda>conc. max conc 1 * div_ceil (bn_requests cfg) (max conc 1)) (bn_concurrency cfg),
       br_gets = map (\<lambda>size'. if \<forall>(_, s) \<in> set (take (max (bn_sample cfg) 1) ms). s < size' then []
         else map (reads_of cfg size') (bn_concurrency cfg)) (bn_sizes cfg),
       br_lists = 100, br_floor = 2000\<rparr>)"
proof -
  let ?keys = "take (max (bn_sample cfg) 1) ms"
  note exact = gateway_client_exact [OF assms(8,1,3)]
  obtain r where first_row: "find_object db b key0 = Some r" "o_size r = int size0" and size0: "size0 < 2 ^ 63"
    using assms(1-3) by (auto simp: gateway_client_def)
  have list: "cl_list cl = map Inr ms" using exact by (simp add: exact_client_def)
  have sample: "sample_keys (bn_sample cfg) [] (cl_list cl) = Inr ?keys"
    using sample_keys_take [of "[]" "bn_sample cfg" ms] by (simp add: list)
  obtain rest' where keys: "?keys = (key0, size0) # rest'" using assms(2) by (cases "max (bn_sample cfg) 1") auto
  have sub: "set ?keys \<subseteq> set ms" by (rule set_take_subset)
  have ne: "?keys \<noteq> []" unfolding keys by simp
  note heads = bench_heads_ok [OF exact sub ne assms(4)]
  have gets: "rounds (bench_gets cl ?keys cfg) (bn_sizes cfg) =
      Inr (map (\<lambda>size'. if \<forall>(_, s) \<in> set ?keys. s < size' then [] else map (reads_of cfg size') (bn_concurrency cfg))
        (bn_sizes cfg))"
    by (rule rounds_ok) (use bench_gets_ok [OF exact sub _ assms(6,5)] assms(7) in blast)
  have "load (list_op cl) ?keys 0 1 100 = Inr (replicate (max 1 1 * 100) ())"
    by (rule load_ok [OF ne]) (auto simp: list_op_def list list_page_ok)
  then have pages: "report (load (list_op cl) ?keys 0 1 100) = Inr 100" by (simp add: report_def)
  have floor0: "report (floor_reads (\<lambda>_ _. db) (\<lambda>_ _. fetch_part (d_chunks db)) b key0 size0 2000 42 c) =
      (if size0 = 0 then Inl EmptyRead else Inr 2000)"
    using floor_reads_exact [OF assms(8,9) first_row size0, of 2000 42] by (cases "size0 = 0") (auto simp: report_def)
  show ?thesis
    unfolding bench_run_def sample heads [unfolded keys] keys
    using heads [unfolded keys] gets [unfolded keys] pages [unfolded keys] floor0
    by (simp add: Let_def)
qed

theorem bench_run_complete_witness:
  "bench_run \<lparr>cl_list = [Inr ([107], 2)], cl_head = head_answer sample_db cache_empty [98],
      cl_get_range = range_answer sample_db cache_empty [98]\<rparr> (Some (Inr (pool_connect (connect_options None None) 0)))
    (\<lambda>_ _. sample_db) (\<lambda>_ _. fetch_part (d_chunks sample_db)) cache_empty [98]
    \<lparr>bn_sizes = [1, 5], bn_concurrency = [1], bn_requests = 1, bn_sample = 1\<rparr> =
   Inr \<lparr>br_heads = [1], br_gets = [[1], []], br_lists = 100, br_floor = 2000\<rparr>"
proof -
  let ?cl = "\<lparr>cl_list = [Inr ([107], 2)], cl_head = head_answer sample_db cache_empty [98],
      cl_get_range = range_answer sample_db cache_empty [98]\<rparr>"
  have gw: "db_ok sample_db" "coherent sample_db cache_empty"
    using sample_gw_ok by (simp_all add: gw_ok_def sample_gw_def)
  obtain r where r: "find_object sample_db [98] [107] = Some r" "o_size r = int 2"
    by (simp add: sample_db_def find_object_def at_key_def)
  with gw(2) have client: "gateway_client sample_db [98] [([107], 2)] ?cl" by (auto simp: gateway_client_def)
  show ?thesis
    by (subst bench_run_complete [OF client refl _ _ _ _ _ gw]) (simp_all add: reads_of_def div_ceil_def)
qed

end
