(* ===== verification/Seed.thy ===== *)
theory Seed
  imports Filler Layout Gateway_Spec
begin

text \<open>
  The tasks of the \<^verbatim>\<open>seed\<close> command (\<^verbatim>\<open>src/seed.rs\<close>: \<^verbatim>\<open>run\<close>): object names, contents and
  the puts of one task, through the buffered put of \<^verbatim>\<open>src/db.rs\<close>.
\<close>

section \<open>Names\<close>

function decimal :: "nat \<Rightarrow> ustring" where
  "decimal n = (if n < 10 then [48 + n] else decimal (n div 10) @ [48 + n mod 10])"
  by pat_completeness auto
termination
  by (relation "measure id") auto

declare decimal.simps [simp del]

text \<open>\<^verbatim>\<open>format!("obj-{i:05}.bin")\<close>\<close>

definition object_key :: "nat \<Rightarrow> ustring" where
  "object_key i =
     [111, 98, 106, 45] @ replicate (5 - length (decimal i)) 48 @ decimal i @ [46, 98, 105, 110]"

definition object_data :: "nat \<Rightarrow> nat \<Rightarrow> bytes" where
  "object_data n i = fst (fill n (0x5EED0000 + of_nat i))"

text \<open>Each put has its own times; the first error ends the task.\<close>

fun put_objects :: "(bytes \<Rightarrow> bytes) \<Rightarrow> (nat \<Rightarrow> int) \<Rightarrow> (nat \<Rightarrow> int) \<Rightarrow> (nat \<Rightarrow> bool) \<Rightarrow> ustring \<Rightarrow> nat \<Rightarrow> nat list \<Rightarrow> gateway \<Rightarrow>
    (db_error + unit) \<times> gateway" where
  "put_objects sha now clock gone b n [] g = (Inr (), g)"
| "put_objects sha now clock gone b n (i # js) g =
     (case put_buffer sha (now i) (clock i) gone b (object_key i) (object_data n i) g of
        (Inl e, g') \<Rightarrow> (Inl e, g')
      | (Inr _, g') \<Rightarrow> put_objects sha now clock gone b n js g')"

section \<open>Distinct names and contents\<close>

definition decimal_val :: "ustring \<Rightarrow> nat" where
  "decimal_val s = foldl (\<lambda>a c. 10 * a + (c - 48)) 0 s"

lemma decimal_val_snoc: "decimal_val (s @ [c]) = 10 * decimal_val s + (c - 48)"
  by (simp add: decimal_val_def)

lemma decimal_val_pad: "decimal_val (replicate k 48 @ s) = decimal_val s"
  by (induction k) (simp_all add: decimal_val_def)

lemma decimal_val_decimal: "decimal_val (decimal n) = n"
proof (induction n rule: decimal.induct)
  case (1 n)
  show ?case
  proof (cases "n < 10")
    case True
    then show ?thesis by (simp add: decimal.simps decimal_val_def)
  next
    case False
    with 1 show ?thesis by (simp add: decimal.simps [of n] decimal_val_snoc)
  qed
qed

lemma object_key_inject [simp]: "object_key i = object_key j \<longleftrightarrow> i = j"
proof
  assume "object_key i = object_key j"
  then have "replicate (5 - length (decimal i)) 48 @ decimal i = replicate (5 - length (decimal j)) 48 @ decimal j"
    by (simp add: object_key_def)
  then have "decimal_val (decimal i) = decimal_val (decimal j)" using decimal_val_pad by metis
  then show "i = j" by (simp add: decimal_val_decimal)
qed simp

lemma object_data_length [simp]: "length (object_data n i) = n"
  by (simp add: object_data_def fill_stream)

lemma object_data_inject:
  assumes "8 \<le> n" and "i < 2 ^ 64" and "j < 2 ^ 64" and "object_data n i = object_data n j"
  shows "i = j"
proof -
  have "take 8 (object_data n i) = le_bytes (word_at (0x5EED0000 + of_nat i) 0)" for i
    using assms(1) by (simp add: object_data_def fill_stream take_map le_bytes_def)
  with assms(4) have "word_at (0x5EED0000 + of_nat i) 0 = word_at (0x5EED0000 + of_nat j) 0"
    using le_bytes_inject by metis
  then have "of_nat i = (of_nat j :: 64 word)" by (simp add: word_at_def)
  with assms(2,3) show ?thesis by (simp add: word_of_nat_eq_iff take_bit_nat_eq_self)
qed

text \<open>
  The tasks of the seed command write every object exactly once between them, no
  two objects share a key, and objects of at least one word differ in content.
\<close>

lemma seed_covers_once:
  assumes "n \<le> 2 ^ 64" and "8 \<le> m"
  shows "concat (map (seed_task n tasks) [0..<max tasks 1]) = [0..<n] \<and>
    distinct (map object_key [0..<n]) \<and> inj_on (object_data m) {0..<n}"
  using assms seed_tasks_all [of n tasks] by (auto simp: distinct_map intro!: inj_onI dest!: object_data_inject [rotated 3])

section \<open>One task\<close>

lemma swap_object_next_id: "swap_object now b k w db = Inr db' \<Longrightarrow> d_next_id db' = d_next_id db"
  by (auto simp: swap_object_def upsert_object_def reap_def Let_def split: if_splits option.splits sum.splits)

lemma commit_part_next_id: "commit_part uid no f tot digest db = Inr db' \<Longrightarrow> d_next_id db' = d_next_id db"
  by (auto simp: commit_part_def Let_def split: if_splits option.splits)

lemma ingest_tx_next_id: "ingest_tx sha now f target msgs db = (r, db') \<Longrightarrow> d_next_id db' = d_next_id db"
  by (auto simp: ingest_tx_def Let_def split: if_splits option.splits sum.splits writer_target.splits prod.splits
      dest!: swap_object_next_id commit_part_next_id)

lemma write_body_next_id:
  "write_body sha now clock gone target body g = (r, g') \<Longrightarrow> d_next_id (g_db g') \<le> d_next_id (g_db g) + 1"
  by (auto simp: write_body_def writer_begin_def ingest_body_def writer_abort_def writer_finish_def ingest_writer_def
      nextval_def split: if_splits bool.splits sum.splits prod.splits dest!: ingest_tx_next_id)

lemma put_buffer_object:
  assumes "gw_ok g" and "fits_file data" and "d_next_id (g_db g) < 2 ^ 63" and "b \<in> a_buckets (abs_of (g_db g))"
  obtains g' where "put_buffer sha now clock gone b k data g = (Inr (int (length data), sha data), g')" "gw_ok g'"
    "d_next_id (g_db g') \<le> d_next_id (g_db g) + 1"
    "abs_of (g_db g') = (abs_of (g_db g))\<lparr>a_objects := (a_objects (abs_of (g_db g)))((b, k) \<mapsto> (data, sha data))\<rparr>"
proof -
  have cat: "concat (pieces SEND_BATCH data) = data" by (simp add: concat_pieces SEND_BATCH_def)
  have fits: "fits_file (concat (pieces SEND_BATCH data))" by (simp add: cat assms(2))
  obtain r g' where run: "put_buffer sha now clock gone b k data g = (r, g')" by fastforce
  have "bucket_exists (g_db g) b" using assms(4) by (simp add: bucket_exists_abs)
  note body = run [unfolded put_buffer_pieces [OF this]]
  have "gw_ok g'" by (rule write_body_ok [OF assms(1) _ body]) (simp add: fits)
  then show thesis
    using run body write_body_next_id [OF body] that
    by (cases rule: write_body_object [OF assms(1) fits assms(3,4), of sha now clock gone k Unconditional])
      (auto simp: cat a_allowed_def)
qed

text \<open>
  A seed task, in a bucket that exists and with enough file ids, reports no error;
  afterwards each of its keys maps to the object's filler bytes under their digest,
  and nothing else changed.
\<close>

lemma put_objects_exact:
  assumes "gw_ok g" and "b \<in> a_buckets (abs_of (g_db g))" and "n \<le> (2 ^ 31 - 1) * ROW_BYTES"
    and "d_next_id (g_db g) + int (length js) \<le> 2 ^ 63"
  shows "\<exists>g'. put_objects sha now clock gone b n js g = (Inr (), g') \<and> gw_ok g' \<and>
    (\<forall>i \<in> set js. a_objects (abs_of (g_db g')) (b, object_key i) = Some (object_data n i, sha (object_data n i))) \<and>
    (\<forall>bk. bk \<notin> Pair b ` object_key ` set js \<longrightarrow> a_objects (abs_of (g_db g')) bk = a_objects (abs_of (g_db g)) bk) \<and>
    abs_of (g_db g') = (abs_of (g_db g))\<lparr>a_objects := a_objects (abs_of (g_db g'))\<rparr>"
  using assms(1,2,4)
proof (induction js arbitrary: g)
  case (Cons i js)
  have fits: "fits_file (object_data n i)" using assms(3) by (simp add: fits_file_def)
  have id: "d_next_id (g_db g) < 2 ^ 63" using Cons.prems(3) by simp
  obtain g1 where one: "put_buffer sha (now i) (clock i) gone b (object_key i) (object_data n i) g =
      (Inr (int (length (object_data n i)), sha (object_data n i)), g1)" "gw_ok g1"
      "d_next_id (g_db g1) \<le> d_next_id (g_db g) + 1"
      "abs_of (g_db g1) = (abs_of (g_db g))\<lparr>a_objects :=
        (a_objects (abs_of (g_db g)))((b, object_key i) \<mapsto> (object_data n i, sha (object_data n i)))\<rparr>"
    by (rule put_buffer_object [OF Cons.prems(1) fits id Cons.prems(2)])
  have "b \<in> a_buckets (abs_of (g_db g1))" "d_next_id (g_db g1) + int (length js) \<le> 2 ^ 63"
    using one(3,4) Cons.prems(2,3) by simp_all
  from Cons.IH [OF one(2) this] obtain g' where rest: "put_objects sha now clock gone b n js g1 = (Inr (), g')" "gw_ok g'"
    "\<forall>i \<in> set js. a_objects (abs_of (g_db g')) (b, object_key i) = Some (object_data n i, sha (object_data n i))"
    "\<forall>bk. bk \<notin> Pair b ` object_key ` set js \<longrightarrow> a_objects (abs_of (g_db g')) bk = a_objects (abs_of (g_db g1)) bk"
    "abs_of (g_db g') = (abs_of (g_db g1))\<lparr>a_objects := a_objects (abs_of (g_db g'))\<rparr>" by blast
  have "a_objects (abs_of (g_db g')) (b, object_key i) = Some (object_data n i, sha (object_data n i))"
  proof (cases "i \<in> set js")
    case False
    then have "(b, object_key i) \<notin> Pair b ` object_key ` set js" by auto
    with rest(4) one(4) show ?thesis by simp
  qed (use rest(3) in blast)
  with one rest show ?case by (intro exI [of _ g']) auto
qed simp

section \<open>The command\<close>

text \<open>
  \<open>ss_todo\<close> are the objects each task has still to write. The tasks interleave at their
  puts; a schedule names the task of each put. An error ends its task.
\<close>

record seed_state =
  ss_todo :: "nat list list"
  ss_errors :: "(nat \<times> db_error) list"
  ss_gateway :: gateway

definition seed_step :: "(bytes \<Rightarrow> bytes) \<Rightarrow> (nat \<Rightarrow> int) \<Rightarrow> (nat \<Rightarrow> int) \<Rightarrow> (nat \<Rightarrow> bool) \<Rightarrow> ustring \<Rightarrow> nat \<Rightarrow>
    seed_state \<Rightarrow> nat \<Rightarrow> seed_state" where
  "seed_step sha now clock gone b n st t =
     (if length (ss_todo st) \<le> t then st
      else
        (case ss_todo st ! t of
           [] \<Rightarrow> st
         | i # rest \<Rightarrow>
             (case put_buffer sha (now i) (clock i) gone b (object_key i) (object_data n i) (ss_gateway st) of
                (Inl e, g') \<Rightarrow> \<lparr>ss_todo = (ss_todo st)[t := []], ss_errors = ss_errors st @ [(t, e)], ss_gateway = g'\<rparr>
              | (Inr _, g') \<Rightarrow> st\<lparr>ss_todo := (ss_todo st)[t := rest], ss_gateway := g'\<rparr>)))"

datatype seed_error = SeedInit init_error | SeedPut db_error

text \<open>
  \<open>total_bytes\<close> is the float product of the code. What is left after the schedule runs
  task by task. The outer None is the division by an object size of zero; the tasks'
  results are collected in the order of the tasks. After an error the command ends
  without waiting for the later tasks, which the schedule here lets finish.
\<close>

definition seed_run :: "(bytes \<Rightarrow> bytes) \<Rightarrow> int \<Rightarrow> (nat \<Rightarrow> int) \<Rightarrow> (nat \<Rightarrow> int) \<Rightarrow> (nat \<Rightarrow> bool) \<Rightarrow> nat list \<Rightarrow>
    ustring \<Rightarrow> nat \<Rightarrow> nat \<Rightarrow> nat \<Rightarrow> layout \<Rightarrow> gateway \<Rightarrow> (seed_error + unit) option \<times> layout \<times> gateway" where
  "seed_run sha created now clock gone schedule b total_bytes object_mib tasks s g =
     (case init_locked s of
        (Inl e, s') \<Rightarrow> (Some (Inl (SeedInit e)), s', g)
      | (Inr _, s') \<Rightarrow>
          (let g1 = create_bucket_handler created b g
           in case seed_objects total_bytes object_mib of
                None \<Rightarrow> (None, s', g1)
              | Some n_objects \<Rightarrow>
                  (let todo = map (seed_task n_objects tasks) [0..<max tasks 1];
                       order = schedule @ concat (map (\<lambda>t. replicate (length (todo ! t)) t) [0..<length todo]);
                       st = foldl (seed_step sha now clock gone b (seed_object_bytes object_mib))
                              \<lparr>ss_todo = todo, ss_errors = [], ss_gateway = g1\<rparr> order
                   in (Some (case sort_key fst (ss_errors st) of [] \<Rightarrow> Inr () | (_, e) # _ \<Rightarrow> Inl (SeedPut e)),
                       s', ss_gateway st))))"

text \<open>The objects a schedule takes, in order, and what it leaves.\<close>

fun picks :: "nat list \<Rightarrow> nat list list \<Rightarrow> nat list \<times> nat list list" where
  "picks [] todo = ([], todo)"
| "picks (t # ts) todo =
     (if length todo \<le> t then picks ts todo
      else
        (case todo ! t of
           [] \<Rightarrow> picks ts todo
         | i # rest \<Rightarrow> (case picks ts (todo[t := rest]) of (js, left) \<Rightarrow> (i # js, left))))"

lemma mset_concat_update:
  "t < length xs \<Longrightarrow> mset (concat (xs[t := ys])) + mset (xs ! t) = mset (concat xs) + mset ys"
proof (induction xs arbitrary: t)
  case (Cons x xs)
  then show ?case by (cases t) (auto simp: ac_simps)
qed simp

lemma picks_mset: "picks ts todo = (js, left) \<Longrightarrow> mset (concat todo) = mset js + mset (concat left)"
proof (induction ts todo arbitrary: js left rule: picks.induct)
  case (2 t ts todo)
  show ?case
  proof (cases "length todo \<le> t \<or> todo ! t = []")
    case True
    with 2 show ?thesis by (auto split: if_splits)
  next
    case False
    then obtain i rest where i: "todo ! t = i # rest" "t < length todo" by (cases "todo ! t") auto
    obtain js1 left1 where "picks ts (todo[t := rest]) = (js1, left1)" by fastforce
    with 2 False i mset_concat_update [OF i(2), of rest] show ?thesis by (auto simp: ac_simps)
  qed
qed simp

lemma picks_all:
  assumes "\<forall>t < length todo. length (todo ! t) \<le> count_list ts t"
  shows "\<forall>xs \<in> set (snd (picks ts todo)). xs = []"
  using assms
proof (induction ts todo rule: picks.induct)
  case (1 todo)
  then show ?case by (auto simp: in_set_conv_nth)
next
  case (2 t ts todo)
  show ?case
  proof (cases "length todo \<le> t \<or> todo ! t = []")
    case True
    then have "\<forall>u < length todo. length (todo ! u) \<le> count_list ts u"
      using 2(4) by (metis count_list.simps(2) list.size(3) not_le zero_le)
    with True 2(1,2) show ?thesis by auto
  next
    case False
    then obtain i rest where i: "todo ! t = i # rest" "t < length todo" by (cases "todo ! t") auto
    have "\<forall>u < length (todo[t := rest]). length (todo[t := rest] ! u) \<le> count_list ts u"
      using 2(4) i by (force simp: nth_list_update split: if_splits)
    with 2(3) [OF _ i(1)] i show ?thesis by (auto split: prod.split)
  qed
qed

lemma seed_steps_put:
  assumes "put_objects sha now clock gone b n (fst (picks ts (ss_todo st))) (ss_gateway st) = (Inr (), g')"
  shows "foldl (seed_step sha now clock gone b n) st ts =
    st\<lparr>ss_todo := snd (picks ts (ss_todo st)), ss_gateway := g'\<rparr>"
  using assms
proof (induction ts arbitrary: st)
  case (Cons t ts)
  show ?case
  proof (cases "length (ss_todo st) \<le> t \<or> ss_todo st ! t = []")
    case True
    with Cons show ?thesis by (auto simp: seed_step_def)
  next
    case False
    then obtain i rest where i: "ss_todo st ! t = i # rest" "\<not> length (ss_todo st) \<le> t" by (cases "ss_todo st ! t") auto
    let ?st = "\<lambda>g1. st\<lparr>ss_todo := (ss_todo st)[t := rest], ss_gateway := g1\<rparr>"
    obtain res g1 where put: "put_buffer sha (now i) (clock i) gone b (object_key i) (object_data n i) (ss_gateway st) =
        (Inr res, g1)"
      and rest: "put_objects sha now clock gone b n (fst (picks ts ((ss_todo st)[t := rest]))) g1 = (Inr (), g')"
      using Cons.prems i by (auto split: prod.splits sum.splits)
    have "seed_step sha now clock gone b n st t = ?st g1" by (simp add: seed_step_def i put)
    with Cons.IH [of "?st g1"] rest i show ?thesis by (auto split: prod.split)
  qed
qed simp

lemma count_seed_order:
  assumes "t < length todo"
  shows "length (todo ! t) \<le> count_list (sched @ concat (map (\<lambda>t. replicate (length (todo ! t)) t) [0..<length todo])) t"
proof -
  have "t < m \<Longrightarrow> f t \<le> count_list (concat (map (\<lambda>t. replicate (f t) t) [0..<m])) t" for f :: "nat \<Rightarrow> nat" and m
    by (induction m) (auto simp: count_list_append count_list_eq_length_filter less_Suc_eq)
  from this [OF assms, of "\<lambda>t. length (todo ! t)"] show ?thesis by (simp add: add_increasing)
qed

lemma picks_order:
  assumes "picks (sched @ concat (map (\<lambda>t. replicate (length (todo ! t)) t) [0..<length todo])) todo = (js, left)"
  shows "mset js = mset (concat todo)"
proof -
  have "\<forall>xs \<in> set (snd (js, left)). xs = []"
    unfolding assms [symmetric] by (rule picks_all) (blast intro: count_seed_order)
  then have "concat left = []" by simp
  with picks_mset [OF assms] show ?thesis by simp
qed

lemma create_bucket_gw_ok: "gw_ok g \<Longrightarrow> gw_ok (create_bucket_handler now b g)"
  using create_bucket_spec(1) [of "g_db g" now b] coherent_same [of "g_db g" "g_cache g" "create_bucket now b (g_db g)"]
  by (simp add: gw_ok_def create_bucket_handler_def, simp add: create_bucket_def)

text \<open>
  The seed command is complete however its tasks interleave: on a layout that starts
  and with enough file ids it reports success, in the bucket it created every object
  key maps to its filler bytes under their digest, and every other object, upload and
  part is untouched.
\<close>

lemma seed_object_bytes_id:
  "object_mib * 1024 * 1024 \<le> (2 ^ 31 - 1) * ROW_BYTES \<Longrightarrow> seed_object_bytes object_mib = object_mib * 1024 * 1024"
  by (simp add: seed_object_bytes_def ROW_BYTES_def)

lemma seed_run_exact:
  assumes "gw_ok g" and "fst (init_locked s) = Inr ()" and "object_mib * 1024 * 1024 \<le> (2 ^ 31 - 1) * ROW_BYTES"
    and "seed_objects total_bytes object_mib = Some n" and "d_next_id (g_db g) + int n \<le> 2 ^ 63"
  shows "\<exists>g'. seed_run sha created now clock gone schedule b total_bytes object_mib tasks s g =
      (Some (Inr ()), snd (init_locked s), g') \<and> gw_ok g' \<and>
    (\<forall>i < n. a_objects (abs_of (g_db g')) (b, object_key i) =
      Some (object_data (object_mib * 1024 * 1024) i, sha (object_data (object_mib * 1024 * 1024) i))) \<and>
    (\<forall>bk. bk \<notin> Pair b ` object_key ` {..<n} \<longrightarrow> a_objects (abs_of (g_db g')) bk = a_objects (abs_of (g_db g)) bk) \<and>
    abs_of (g_db g') = (abs_of (g_db g))\<lparr>a_buckets := insert b (a_buckets (abs_of (g_db g))),
      a_objects := a_objects (abs_of (g_db g'))\<rparr>"
proof -
  let ?m = "object_mib * 1024 * 1024" and ?todo = "map (seed_task n tasks) [0..<max tasks 1]"
  let ?order = "schedule @ concat (map (\<lambda>t. replicate (length (?todo ! t)) t) [0..<length ?todo])"
  let ?g1 = "create_bucket_handler created b g"
  obtain js left where picks: "picks ?order ?todo = (js, left)" by fastforce
  have js: "mset js = mset [0..<n]" using picks_order [OF picks] by (simp only: seed_tasks_all)
  have set_js: "set js = {..<n}" using mset_eq_setD [OF js] by (simp add: atLeast0LessThan)
  have len_js: "length js = n" using mset_eq_length [OF js] by simp
  have db: "db_ok (g_db g)" using assms(1) by (simp add: gw_ok_def)
  have g1: "abs_of (g_db ?g1) = (abs_of (g_db g))\<lparr>a_buckets := insert b (a_buckets (abs_of (g_db g)))\<rparr>"
    "d_next_id (g_db ?g1) = d_next_id (g_db g)"
    by (simp_all add: create_bucket_handler_def create_bucket_spec [OF db])
  have "b \<in> a_buckets (abs_of (g_db ?g1))" "d_next_id (g_db ?g1) + int (length js) \<le> 2 ^ 63"
    using g1 len_js assms(5) by simp_all
  from put_objects_exact [OF create_bucket_gw_ok [OF assms(1)] this(1) assms(3) this(2), of sha now clock gone]
  obtain g' where g': "put_objects sha now clock gone b ?m js ?g1 = (Inr (), g')" "gw_ok g'"
    "\<forall>i \<in> set js. a_objects (abs_of (g_db g')) (b, object_key i) = Some (object_data ?m i, sha (object_data ?m i))"
    "\<forall>bk. bk \<notin> Pair b ` object_key ` set js \<longrightarrow> a_objects (abs_of (g_db g')) bk = a_objects (abs_of (g_db ?g1)) bk"
    "abs_of (g_db g') = (abs_of (g_db ?g1))\<lparr>a_objects := a_objects (abs_of (g_db g'))\<rparr>" by blast
  have "foldl (seed_step sha now clock gone b ?m) \<lparr>ss_todo = ?todo, ss_errors = [], ss_gateway = ?g1\<rparr> ?order =
      \<lparr>ss_todo = left, ss_errors = [], ss_gateway = g'\<rparr>"
    using seed_steps_put [of sha now clock gone b ?m ?order "\<lparr>ss_todo = ?todo, ss_errors = [], ss_gateway = ?g1\<rparr>" g']
      g'(1) picks by simp
  moreover obtain s' where "init_locked s = (Inr (), s')" using assms(2) by (cases "init_locked s") auto
  ultimately have "seed_run sha created now clock gone schedule b total_bytes object_mib tasks s g =
      (Some (Inr ()), snd (init_locked s), g')"
    by (simp add: seed_run_def assms(4) seed_object_bytes_id [OF assms(3)] Let_def)
  with g'(2-5) g1 set_js show ?thesis by (intro exI [of _ g']) simp
qed

end
