(* ===== verification/Telemetry.thy ===== *)
theory Telemetry
  imports Pgvs3_Prelude
begin

text \<open>
  The counters of the GET telemetry (\<^verbatim>\<open>src/stats.rs\<close>): 64-bit counters that wrap, bumped by
  every read, and the buckets of the percentiles read from them. The bucket of a
  latency and the rank of a quantile are float arithmetic, here the parameters
  \<open>lat_index\<close> (cut at the last bucket as in the code) and \<open>target\<close>.
\<close>

record stats =
  sc_spans :: "64 word list"
  sc_lat :: "64 word list"
  sc_gets :: "64 word list"
  sc_ttfb_us :: "64 word list"
  sc_total_us :: "64 word list"
  sc_parts :: "64 word"
  sc_wait_us :: "64 word"
  sc_served :: "64 word"

definition stats_new :: stats where
  "stats_new = \<lparr>sc_spans = replicate 5 0, sc_lat = replicate 128 0, sc_gets = replicate 2 0,
     sc_ttfb_us = replicate 2 0, sc_total_us = replicate 2 0, sc_parts = 0, sc_wait_us = 0, sc_served = 0\<rparr>"

definition span_thresholds :: "nat list" where
  "span_thresholds = [65536, 524288, 2097152, 8388608]"

text \<open>\<open>position\<close>: the first threshold above the span.\<close>

definition span_bucket :: "nat \<Rightarrow> nat" where
  "span_bucket span =
     (case List.find (\<lambda>i. span < span_thresholds ! i) [0..<length span_thresholds] of
        Some i \<Rightarrow> i
      | None \<Rightarrow> 4)"

definition bump :: "nat \<Rightarrow> 64 word \<Rightarrow> 64 word list \<Rightarrow> 64 word list" where
  "bump i n xs = xs[i := xs ! i + n]"

definition span_record :: "nat \<Rightarrow> stats \<Rightarrow> stats" where
  "span_record len s = s\<lparr>sc_spans := bump (span_bucket len) 1 (sc_spans s)\<rparr>"

definition lat_record :: "(64 word \<Rightarrow> nat) \<Rightarrow> 64 word \<Rightarrow> stats \<Rightarrow> stats" where
  "lat_record lat_index us s = s\<lparr>sc_lat := bump (min (lat_index (max us 1)) 127) 1 (sc_lat s)\<rparr>"

definition ttfb_record :: "nat \<Rightarrow> 64 word \<Rightarrow> stats \<Rightarrow> stats" where
  "ttfb_record class us s = s\<lparr>sc_ttfb_us := bump class us (sc_ttfb_us s)\<rparr>"

definition get_record :: "(64 word \<Rightarrow> nat) \<Rightarrow> nat \<Rightarrow> 64 word \<Rightarrow> 64 word \<Rightarrow> stats \<Rightarrow> stats" where
  "get_record lat_index class us served s =
     (let s1 = s\<lparr>sc_gets := bump class 1 (sc_gets s), sc_total_us := bump class us (sc_total_us s)\<rparr>;
          s2 = lat_record lat_index us s1
      in s2\<lparr>sc_served := sc_served s2 + served\<rparr>)"

definition part_record :: "64 word \<Rightarrow> stats \<Rightarrow> stats" where
  "part_record wait_us s = s\<lparr>sc_parts := sc_parts s + 1, sc_wait_us := sc_wait_us s + wait_us\<rparr>"

datatype stat_event = SpanEvent nat | TtfbEvent bool "64 word" | GetEvent bool "64 word" "64 word" | PartEvent "64 word"

text \<open>The class of a read is 0 for a small span, 1 for a larger one.\<close>

fun record_event :: "(64 word \<Rightarrow> nat) \<Rightarrow> stats \<Rightarrow> stat_event \<Rightarrow> stats" where
  "record_event lat_index s (SpanEvent len) = span_record len s"
| "record_event lat_index s (TtfbEvent large us) = ttfb_record (of_bool large) us s"
| "record_event lat_index s (GetEvent large us served) = get_record lat_index (of_bool large) us served s"
| "record_event lat_index s (PartEvent wait_us) = part_record wait_us s"

text \<open>
  The scan of \<^verbatim>\<open>lat_pct\<close>: the first bucket from \<open>i\<close> on at which the running count reaches
  \<open>target\<close>, None for the 0.0 of no reads.
\<close>

fun lat_scan :: "64 word \<Rightarrow> 64 word \<Rightarrow> nat \<Rightarrow> 64 word \<Rightarrow> 64 word list \<Rightarrow> nat option" where
  "lat_scan tot target i seen [] = None"
| "lat_scan tot target i seen (c # cs) =
     (let seen' = seen + c
      in if tot > 0 \<and> seen' \<ge> target then Some i else lat_scan tot target (i + 1) seen' cs)"

definition lat_pct :: "(64 word \<Rightarrow> 64 word) \<Rightarrow> 64 word list \<Rightarrow> nat option" where
  "lat_pct target counts = lat_scan (sum_list counts) (target (sum_list counts)) 0 0 counts"

text \<open>The values of the printed line, with the ranks of its three percentiles.\<close>

record stats_line =
  sl_spans :: "64 word list"
  sl_small :: "64 word \<times> 64 word \<times> 64 word"
  sl_stream :: "64 word \<times> 64 word \<times> 64 word"
  sl_parts :: "64 word"
  sl_wait :: "64 word"
  sl_served_mib :: "64 word"
  sl_percentiles :: "nat option list"

definition stage_stats_line :: "(64 word \<Rightarrow> 64 word) list \<Rightarrow> stats \<Rightarrow> stats_line" where
  "stage_stats_line targets s =
     \<lparr>sl_spans = sc_spans s,
      sl_small = (sc_gets s ! 0, sc_ttfb_us s ! 0, sc_total_us s ! 0),
      sl_stream = (sc_gets s ! 1, sc_ttfb_us s ! 1, sc_total_us s ! 1),
      sl_parts = sc_parts s, sl_wait = sc_wait_us s, sl_served_mib = drop_bit 20 (sc_served s),
      sl_percentiles = map (\<lambda>target. lat_pct target (sc_lat s)) targets\<rparr>"

section \<open>Invariant\<close>

lemma span_bucket_cases:
  "span_bucket span = (if span < 65536 then 0 else if span < 524288 then 1
     else if span < 2097152 then 2 else if span < 8388608 then 3 else 4)"
  by (simp add: span_bucket_def span_thresholds_def)

lemma length_bump [simp]: "length (bump i n xs) = length xs"
  by (simp add: bump_def)

lemma sum_bump: "i < length xs \<Longrightarrow> sum_list (bump i n xs) = sum_list xs + n"
proof (induction xs arbitrary: i)
  case (Cons x xs)
  then show ?case by (cases i) (simp_all add: bump_def add.assoc)
qed simp

definition stats_ok :: "stats \<Rightarrow> bool" where
  "stats_ok s \<longleftrightarrow> length (sc_spans s) = 5 \<and> length (sc_lat s) = 128 \<and> length (sc_gets s) = 2 \<and>
     length (sc_ttfb_us s) = 2 \<and> length (sc_total_us s) = 2 \<and> sum_list (sc_lat s) = sum_list (sc_gets s)"

lemma record_event_ok: "stats_ok s \<Longrightarrow> stats_ok (record_event lat_index s e)"
  by (cases e) (auto simp: stats_ok_def span_record_def ttfb_record_def get_record_def lat_record_def part_record_def
      sum_bump Let_def)

definition span_count :: "stat_event list \<Rightarrow> nat" where
  "span_count es = length (filter (\<lambda>e. case e of SpanEvent _ \<Rightarrow> True | _ \<Rightarrow> False) es)"

text \<open>
  However reads interleave, no counter is ever indexed out of range, the latency
  histogram counts exactly the reads both classes count, and the span histogram exactly
  the spans recorded (each modulo 2 ^ 64).
\<close>

theorem counters_agree:
  "let s = foldl (record_event lat_index) stats_new es
   in stats_ok s \<and> sum_list (sc_spans s) = of_nat (span_count es)"
proof -
  have "stats_ok s \<Longrightarrow> stats_ok (foldl (record_event lat_index) s es) \<and>
      sum_list (sc_spans (foldl (record_event lat_index) s es)) = sum_list (sc_spans s) + of_nat (span_count es)" for s
  proof (induction es arbitrary: s)
    case (Cons e es)
    have "sum_list (sc_spans (record_event lat_index s e)) = sum_list (sc_spans s) + of_nat (span_count [e])"
      using Cons.prems
      by (cases e) (auto simp: stats_ok_def span_record_def ttfb_record_def get_record_def lat_record_def part_record_def
          sum_bump Let_def span_count_def span_bucket_cases)
    moreover have "span_count (e # es) = span_count [e] + span_count es" by (simp add: span_count_def)
    ultimately show ?case using Cons.IH [OF record_event_ok [OF Cons.prems]] by simp
  qed (simp add: span_count_def)
  moreover have "stats_ok stats_new" by (simp add: stats_ok_def stats_new_def sum_list_replicate)
  moreover have "sum_list (sc_spans stats_new) = 0" by (simp add: stats_new_def sum_list_replicate)
  ultimately show ?thesis by (simp add: Let_def)
qed

section \<open>Percentiles\<close>

lemma lat_scan_rank:
  assumes "0 < tot" and "\<forall>k \<le> length cs. unat (seen + sum_list (take k cs)) = unat seen + sum_list (map unat (take k cs))"
    and "lat_scan tot target i seen cs = r"
  shows "case r of
      None \<Rightarrow> \<forall>k \<in> {1..length cs}. unat seen + sum_list (map unat (take k cs)) < unat target
    | Some j \<Rightarrow> i \<le> j \<and> j - i < length cs \<and> unat target \<le> unat seen + sum_list (map unat (take (j - i + 1) cs)) \<and>
        (i < j \<longrightarrow> unat seen + sum_list (map unat (take (j - i) cs)) < unat target)"
  using assms
proof (induction tot target i seen cs arbitrary: r rule: lat_scan.induct)
  case (2 tot target i seen c cs)
  have head: "unat (seen + c) = unat seen + unat c" using spec [OF 2(3), of 1] by simp
  show ?case
  proof (cases "seen + c \<ge> target")
    case True
    with 2(2,4) head show ?thesis by (auto simp: Let_def word_le_nat_alt)
  next
    case False
    have "\<forall>k \<le> length cs. unat (seen + c + sum_list (take k cs)) = unat (seen + c) + sum_list (map unat (take k cs))"
    proof (intro allI impI)
      fix k assume "k \<le> length cs"
      with 2(3) have "unat (seen + sum_list (take (Suc k) (c # cs))) =
          unat seen + sum_list (map unat (take (Suc k) (c # cs)))" by (metis Suc_le_mono length_Cons)
      then show "unat (seen + c + sum_list (take k cs)) = unat (seen + c) + sum_list (map unat (take k cs))"
        by (simp add: head add.assoc)
    qed
    from 2(1) [OF refl _ 2(2) this refl] False 2(4) have ih:
      "case r of
        None \<Rightarrow> \<forall>k \<in> {1..length cs}. unat (seen + c) + sum_list (map unat (take k cs)) < unat target
      | Some j \<Rightarrow> i + 1 \<le> j \<and> j - (i + 1) < length cs \<and>
          unat target \<le> unat (seen + c) + sum_list (map unat (take (j - (i + 1) + 1) cs)) \<and>
          (i + 1 < j \<longrightarrow> unat (seen + c) + sum_list (map unat (take (j - (i + 1)) cs)) < unat target)"
      by (auto simp: Let_def)
    have lt: "unat (seen + c) < unat target" using False by (simp add: word_le_nat_alt)
    show ?thesis
    proof (cases r)
      case None
      have "unat seen + sum_list (map unat (take k (c # cs))) < unat target" if "k \<in> {1..Suc (length cs)}" for k
        using that ih None lt head by (cases k; cases "k - 1") (auto simp: add.assoc)
      with None show ?thesis by simp
    next
      case (Some j)
      then obtain d where "j = Suc (i + d)" using ih by (auto simp: le_iff_add)
      with Some ih lt head show ?thesis by (cases d) (auto simp: add.assoc)
    qed
  qed
qed simp

lemma unat_sum_list:
  "sum_list (map unat cs) < 2 ^ 64 \<Longrightarrow> unat (sum_list cs :: 64 word) = sum_list (map unat cs)"
proof (induction cs)
  case (Cons c cs)
  then have "unat (sum_list cs) = sum_list (map unat cs)" by simp
  moreover have "unat c + unat (sum_list cs) < 2 ^ LENGTH(64)" using Cons calculation by simp
  ultimately show ?case by (simp add: unat_word_ariths(1))
qed simp

lemma sum_take_le: "sum_list (map unat (take k cs)) \<le> sum_list (map unat (cs :: 64 word list))"
  by (subst append_take_drop_id [of k cs, symmetric]) (simp only: map_append sum_list_append le_add1)

text \<open>
  Unless the counts overflow, a percentile is the first bucket at which the reads counted
  so far reach its rank.
\<close>

lemma lat_pct_quantile:
  assumes "sum_list (map unat cs) < 2 ^ 64" and "0 < sum_list (map unat cs)"
    and "unat (target (sum_list cs)) \<le> sum_list (map unat cs)"
  obtains j where "lat_pct target cs = Some j" "j < length cs"
    "unat (target (sum_list cs)) \<le> sum_list (map unat (take (j + 1) cs))"
    "0 < j \<Longrightarrow> sum_list (map unat (take j cs)) < unat (target (sum_list cs))"
proof -
  have len: "cs \<noteq> []" using assms(2) by auto
  have "unat (sum_list cs) = sum_list (map unat cs)" by (rule unat_sum_list [OF assms(1)])
  then have pos: "0 < sum_list cs" using assms(2) by (simp add: word_less_nat_alt)
  have "unat (0 + sum_list (take k cs)) = unat (0 :: 64 word) + sum_list (map unat (take k cs))" for k
    using unat_sum_list [of "take k cs"] sum_take_le [of k cs] assms(1) by simp
  from lat_scan_rank [OF pos _ refl, of cs 0 "target (sum_list cs)" 0] this
  have scan: "case lat_pct target cs of
      None \<Rightarrow> \<forall>k \<in> {1..length cs}. sum_list (map unat (take k cs)) < unat (target (sum_list cs))
    | Some j \<Rightarrow> j < length cs \<and> unat (target (sum_list cs)) \<le> sum_list (map unat (take (j + 1) cs)) \<and>
        (0 < j \<longrightarrow> sum_list (map unat (take j cs)) < unat (target (sum_list cs)))"
    by (simp add: lat_pct_def split: option.splits)
  show thesis
  proof (cases "lat_pct target cs")
    case None
    with scan len have "sum_list (map unat cs) < unat (target (sum_list cs))"
      by (auto dest: bspec [of _ _ "length cs"] simp: Suc_le_eq)
    with assms(3) show thesis by simp
  next
    case (Some j)
    with scan that show thesis by auto
  qed
qed

end
