(* ===== verification/Server.thy ===== *)
theory Server
  imports Cli Fleet Telemetry
begin

text \<open>
  The server (\<^verbatim>\<open>src/server.rs\<close>): the S3 operations as one dispatch (\<^verbatim>\<open>impl S3 for PgS3\<close>), the service in
  front of them (\<^verbatim>\<open>Gateway\<close>, \<^verbatim>\<open>StatsRoute\<close>) and the accept loop of \<^verbatim>\<open>serve\<close>, whose connections are served by
  tasks of their own. Reading a request off a connection, its signature and its operation are the work
  of hyper and s3s: a parameter takes a request to what it asks for.
\<close>

section \<open>The S3 operations\<close>

datatype s3_request =
    GetObject ustring ustring "byte_range option"
  | HeadObject ustring ustring
  | PutObject "etag_condition option" "etag_condition option" ustring ustring "(unit + bytes) list option"
  | DeleteObject bool ustring ustring
  | DeleteObjects bool ustring "(ustring \<times> bool) list"
  | ListObjectsV2 list_input
  | ListBuckets
  | CreateBucket ustring
  | HeadBucket ustring
  | DeleteBucket ustring
  | CreateMultipartUpload ustring ustring
  | UploadPart ustring ustring ustring int "(unit + bytes) list option"
  | CompleteMultipartUpload ustring ustring ustring "(int option \<times> etag option) list"
  | AbortMultipartUpload ustring ustring ustring
  | OtherOperation

datatype s3_response =
    GotObject get_output
  | HeadIs head_output
  | ETagIs etag
  | KeysDeleted "ustring list"
  | KeysListed list_output
  | BucketsListed "bucket_entry list"
  | UploadStarted ustring
  | NoContent

text \<open>A handler answers, panics, or never returns.\<close>

datatype answer = Answer "s3_error + s3_response" | Panic | NoAnswer

text \<open>
  What a request meets: the hash, the clocks, the UUID drawn, the sends that find a channel closed,
  and for a read what its statements see of the database and which rows arrive.
\<close>

record request_env =
  re_sha :: "bytes \<Rightarrow> bytes"
  re_now :: int
  re_clock :: int
  re_uuid :: ustring
  re_gone :: "nat \<Rightarrow> bool"
  re_accepts :: "nat \<Rightarrow> bool"
  re_dbs :: "nat \<Rightarrow> db"
  re_fetch :: "nat \<Rightarrow> piece \<Rightarrow> recv"

definition answer_of :: "('a \<Rightarrow> s3_response) \<Rightarrow> (s3_error + 'a) \<times> gateway \<Rightarrow> answer \<times> gateway" where
  "answer_of f = map_prod (Answer \<circ> map_sum id f) id"

fun s3_call :: "request_env \<Rightarrow> s3_request \<Rightarrow> gateway \<Rightarrow> answer \<times> gateway" where
  "s3_call e (GetObject b k rng) g =
     (case get_object (re_accepts e) (re_dbs e) (re_fetch e) (g_cache g) b k rng of
        (None, c) \<Rightarrow> (Panic, g\<lparr>g_cache := c\<rparr>)
      | (Some r, c) \<Rightarrow> (Answer (map_sum id GotObject r), g\<lparr>g_cache := c\<rparr>))"
| "s3_call e (HeadObject b k) g = answer_of HeadIs (head_object b k g)"
| "s3_call e (PutObject if_match if_none_match b k body) g =
     answer_of ETagIs (put_object (re_sha e) (re_now e) (re_clock e) (re_gone e) if_match if_none_match b k body g)"
| "s3_call e (DeleteObject conditional b k) g = answer_of (\<lambda>_. NoContent) (delete_object conditional b k g)"
| "s3_call e (DeleteObjects quiet b objects) g = answer_of KeysDeleted (delete_objects quiet b objects g)"
| "s3_call e (ListObjectsV2 input) g =
     (case list_objects_v2 (re_dbs e) input of
        None \<Rightarrow> (NoAnswer, g)
      | Some None \<Rightarrow> (Panic, g)
      | Some (Some r) \<Rightarrow> (Answer (map_sum id KeysListed r), g))"
| "s3_call e ListBuckets g = (Answer (Inr (BucketsListed (list_buckets (g_db g)))), g)"
| "s3_call e (CreateBucket b) g = (Answer (Inr NoContent), create_bucket_handler (re_now e) b g)"
| "s3_call e (HeadBucket b) g = (Answer (map_sum id (\<lambda>_. NoContent) (head_bucket b g)), g)"
| "s3_call e (DeleteBucket b) g = answer_of (\<lambda>_. NoContent) (delete_bucket_handler b g)"
| "s3_call e (CreateMultipartUpload b k) g = answer_of UploadStarted (create_multipart_upload (re_uuid e) (re_now e) b k g)"
| "s3_call e (UploadPart uid b k part_number body) g =
     answer_of ETagIs (upload_part (re_sha e) (re_now e) (re_clock e) (re_gone e) uid b k part_number body g)"
| "s3_call e (CompleteMultipartUpload uid b k listed) g =
     answer_of ETagIs (complete_multipart_upload (re_sha e) (re_now e) (re_clock e) uid b k listed g)"
| "s3_call e (AbortMultipartUpload uid b k) g = answer_of (\<lambda>_. NoContent) (abort_multipart_upload uid b k g)"
| "s3_call e OtherOperation g = (Answer (Inl ENotImplemented), g)"

text \<open>
  A PUT or a part upload whose request is dropped after \<open>cs\<close> of its body: the checks of the handler, the
  writer, its sends, and the writer dropped with the request.
\<close>

definition cancelled_write :: "request_env \<Rightarrow> writer_target \<Rightarrow> bytes list \<Rightarrow> gateway \<Rightarrow> gateway" where
  "cancelled_write e target cs g =
     (case writer_begin target (g_db g) of
        (Inl _, db') \<Rightarrow> g\<lparr>g_db := db'\<rparr>
      | (Inr w, db') \<Rightarrow>
          (case push_body (\<lambda>n. re_gone e n \<and> writer_refuses (cw_target w) db') 0 (map Inr cs) w of
             (w', _) \<Rightarrow> writer_drop (re_sha e) (re_now e) (re_clock e) w' (g\<lparr>g_db := db'\<rparr>)))"

fun cancelled_call :: "request_env \<Rightarrow> s3_request \<Rightarrow> bytes list \<Rightarrow> gateway \<Rightarrow> gateway" where
  "cancelled_call e (PutObject if_match if_none_match b k body) cs g =
     (case put_condition_of if_match if_none_match of
        None \<Rightarrow> g
      | Some condition \<Rightarrow> if bucket_exists (g_db g) b then cancelled_write e (ToObject b k condition) cs g else g)"
| "cancelled_call e (UploadPart uid b k part_number body) cs g =
     (if upload_exists (g_db g) uid b k then cancelled_write e (ToPart uid part_number) cs g else g)"
| "cancelled_call e _ cs g = g"

section \<open>The service\<close>

record http_request =
  hr_method :: ustring
  hr_path :: ustring

text \<open>What s3s makes of a request: a refusal (its signature), the custom route, or an operation.\<close>

datatype routed = Refused s3_error | Stats | Operation s3_request

datatype http_answer = Healthy | StatsLine stats | S3Answer answer

text \<open>
  \<^verbatim>\<open>Gateway::call\<close>: the health path is answered in front of everything else; \<open>route\<close> is the work of s3s.
\<close>

definition service_call :: "(http_request \<Rightarrow> routed) \<Rightarrow> stats \<Rightarrow> request_env \<Rightarrow> http_request \<Rightarrow> gateway \<Rightarrow>
    http_answer \<times> gateway" where
  "service_call route st e r g =
     (case dispatch_path (hr_path r) of
        HealthOk \<Rightarrow> (Healthy, g)
      | S3Service \<Rightarrow>
          (case route r of
             Refused err \<Rightarrow> (S3Answer (Answer (Inl err)), g)
           | Stats \<Rightarrow> (StatsLine st, g)
           | Operation q \<Rightarrow> map_prod S3Answer id (s3_call e q g)))"

section \<open>What a request does to the database\<close>

text \<open>The sizes the columns hold: rows of a body numbered below 2 ^ 31, and part sizes that sum below 2 ^ 63.\<close>

fun request_fits :: "s3_request \<Rightarrow> db \<Rightarrow> bool" where
  "request_fits (PutObject if_match if_none_match b k body) db =
     fits_file (msgs_bytes (body_msgs (case body of None \<Rightarrow> [Inr []] | Some chunks \<Rightarrow> chunks)))"
| "request_fits (UploadPart uid b k part_number body) db =
     fits_file (msgs_bytes (body_msgs (case body of None \<Rightarrow> [Inr []] | Some chunks \<Rightarrow> chunks)))"
| "request_fits (CompleteMultipartUpload uid b k listed) db = (sum_list (map pt_size (parts_of db uid)) < 2 ^ 63)"
| "request_fits _ db = True"

lemma ingest_writer_db: "g_db (snd (ingest_writer sha now clock f target msgs g)) = snd (ingest_tx sha now f target msgs (g_db g))"
  by (auto simp: ingest_writer_def split: prod.split sum.split)

abbreviation "sys_run sha \<equiv> (sys_step sha)\<^sup>*\<^sup>*"

lemma begun_fresh:
  assumes "sys_ok (db, fl)" and "nextval db = Inr (f, db1)"
  shows "sys_step sha (db, fl) (db1, fl @ [f])" and "remove1 f (fl @ [f]) = fl"
proof -
  show "sys_step sha (db, fl) (db1, fl @ [f])" by (rule step_begin [OF assms(2)])
  have "f \<notin> set fl" using nextval_step(1) [OF assms] by (simp add: sys_ok_def)
  then show "remove1 f (fl @ [f]) = fl" by (simp add: remove1_append)
qed

text \<open>A writer from its file id to its end.\<close>

lemma writer_run:
  assumes ok: "sys_ok (db, fl)" and begun: "nextval db = Inr (f, db1)" and fits: "fits_file (msgs_bytes msgs)"
  shows "sys_run sha (db, fl) (snd (ingest_tx sha now f target msgs db1), fl)"
proof -
  note start = begun_fresh [OF ok begun]
  obtain r db2 where run: "ingest_tx sha now f target msgs db1 = (r, db2)" by fastforce
  have "sys_step sha (db1, fl @ [f]) (db2, remove1 f (fl @ [f]))" by (rule step_writer [OF _ fits run]) simp
  with start(1) show ?thesis unfolding start(2) run by (auto intro: converse_rtranclp_into_rtranclp)
qed

lemma write_body_steps:
  assumes ok: "sys_ok (g_db g, fl)" and fits: "fits_file (msgs_bytes (body_msgs body))"
  shows "sys_run sha (g_db g, fl) (g_db (snd (write_body sha now clock gone target body g)), fl)"
proof -
  obtain r g' where run: "write_body sha now clock gone target body g = (r, g')" by fastforce
  show ?thesis
  proof (cases "writer_begin target (g_db g)")
    case (Pair r0 db1)
    show ?thesis
    proof (cases r0)
      case (Inl e)
      with Pair show ?thesis by (simp add: write_body_begun)
    next
      case (Inr w)
      with Pair have begun: "writer_begin target (g_db g) = (Inr w, db1)" by simp
      then have nx: "nextval (g_db g) = Inr (cw_file_id w, db1)" by (auto simp: writer_begin_nextval)
      show ?thesis
      proof (cases "writer_refuses target db1")
        case True
        then have "ingest_tx sha now (cw_file_id w) target [] db1 = (Inl NoBucket, db1)"
          by (auto simp: ingest_tx_def writer_refuses_def split: writer_target.splits)
        with writer_run [OF ok nx, of "[]" sha now target] write_body_run(1) [OF begun run True] show ?thesis
          by (simp add: run fits_file_def msgs_bytes_def ROW_BYTES_def)
      next
        case False
        with write_body_run(2) [OF begun run] obtain r1 where
          "ingest_writer sha now clock (cw_file_id w) target (body_msgs body) (g\<lparr>g_db := db1\<rparr>) = (r1, g')" by blast
        then have "g_db g' = snd (ingest_tx sha now (cw_file_id w) target (body_msgs body) db1)"
          using ingest_writer_db [of sha now clock "cw_file_id w" target "body_msgs body" "g\<lparr>g_db := db1\<rparr>"] by simp
        with writer_run [OF ok nx fits, of sha now target] show ?thesis by (simp add: run)
      qed
    qed
  qed
qed

lemma push_body_sent:
  "push_body gone n (map Inr cs) w = (w', failed) \<Longrightarrow> \<exists>j. w' = w\<lparr>cw_sent := cw_sent w @ map Data (take j cs)\<rparr>"
proof (induction cs arbitrary: n w)
  case (Cons c cs)
  show ?case
  proof (cases "gone n")
    case False
    with Cons.prems have "push_body gone (Suc n) (map Inr cs) (w\<lparr>cw_sent := cw_sent w @ [Data c]\<rparr>) = (w', failed)"
      by (simp add: writer_push_def)
    from Cons.IH [OF this] obtain j where "w' = w\<lparr>cw_sent := cw_sent w @ [Data c] @ map Data (take j cs)\<rparr>" by auto
    then show ?thesis by (intro exI [of _ "Suc j"]) simp
  qed (use Cons.prems in \<open>auto simp: writer_push_def intro: exI [of _ 0]\<close>)
qed (auto intro: exI [of _ 0])

lemma fits_file_take: "fits_file (concat cs) \<Longrightarrow> fits_file (concat (take j cs))"
proof -
  have "length (concat (take j cs)) \<le> length (concat cs)"
    by (metis append_take_drop_id concat_append length_append le_add1)
  then show "fits_file (concat cs) \<Longrightarrow> fits_file (concat (take j cs))" by (simp add: fits_file_def)
qed

lemma cancelled_write_steps:
  assumes ok: "sys_ok (g_db g, fl)" and fits: "fits_file (concat cs)"
  shows "sys_run (re_sha e) (g_db g, fl) (g_db (cancelled_write e target cs g), fl)"
proof (cases "writer_begin target (g_db g)")
  case (Pair r0 db1)
  show ?thesis
  proof (cases r0)
    case (Inl err)
    with Pair have "db1 = g_db g" by (auto simp: writer_begin_def split: sum.splits)
    with Pair Inl show ?thesis by (simp add: cancelled_write_def)
  next
    case (Inr w)
    with Pair have begun: "writer_begin target (g_db g) = (Inr w, db1)" by simp
    then have nx: "nextval (g_db g) = Inr (cw_file_id w, db1)" and w: "cw_sent w = []"
      by (auto simp: writer_begin_nextval)
    obtain w' failed where push: "push_body (\<lambda>n. re_gone e n \<and> writer_refuses (cw_target w) db1) 0 (map Inr cs) w = (w', failed)" by fastforce
    from push_body_sent [OF this] w obtain j where w': "w' = w\<lparr>cw_sent := map Data (take j cs)\<rparr>" by auto
    have "fits_file (msgs_bytes (map Data (take j cs)))" using fits_file_take [OF fits] by simp
    from writer_run [OF ok nx this, of "re_sha e" "re_now e" "cw_target w"] show ?thesis
      by (simp add: cancelled_write_def begun push w' writer_drop_def ingest_writer_db)
  qed
qed

lemma delete_all_steps: "sys_run sha (g_db g, fl) (g_db (delete_all b ks g), fl)"
proof (induction b ks g rule: delete_all.induct)
  case (2 b k ks g)
  have "sys_step sha (g_db g, fl) (g_db (snd (delete_key b k g)), fl)"
    by (auto simp: delete_key_def split: prod.split intro: step_delete)
  with "2.IH" show ?case by (auto intro: converse_rtranclp_into_rtranclp)
qed simp

lemma complete_steps:
  assumes "sum_list (map pt_size (parts_of (g_db g) uid)) < 2 ^ 63"
  shows "sys_run sha (g_db g, fl) (g_db (snd (complete_multipart_upload sha now clock uid b k listed g)), fl)"
proof (cases "listed_parts listed")
  case (Some parts)
  obtain c db' where tx: "complete_tx sha now uid b k parts (g_db g) = (c, db')" by fastforce
  have "g_db (snd (complete_multipart_upload sha now clock uid b k listed g)) = db'"
    by (auto simp: complete_multipart_upload_def complete_upload_def Some tx split: prod.split sum.split completed.split option.split)
  with step_complete [OF assms tx] show ?thesis by auto
qed (simp add: complete_multipart_upload_def)

lemma answer_of_gateway [simp]: "snd (answer_of f x) = snd x"
  by (cases x) (simp add: answer_of_def)

text \<open>Every request is a run of transactions.\<close>

lemma s3_call_steps:
  assumes ok: "sys_ok (g_db g, fl)" and fits: "request_fits q (g_db g)"
  shows "sys_run (re_sha e) (g_db g, fl) (g_db (snd (s3_call e q g)), fl)"
proof (cases q)
  case (GetObject b k rng)
  then show ?thesis by (auto split: prod.split option.split)
next
  case (HeadObject b k)
  then show ?thesis by (auto simp: head_object_def split: prod.split option.split)
next
  case (PutObject if_match if_none_match b k body)
  then have "fits_file (msgs_bytes (body_msgs (case body of None \<Rightarrow> [Inr []] | Some chunks \<Rightarrow> chunks)))" using fits by simp
  note run = write_body_steps [OF ok this, of "re_sha e" "re_now e" "re_clock e" "re_gone e"]
  show ?thesis
  proof (cases "put_condition_of if_match if_none_match")
    case (Some c)
    with run [of "ToObject b k c"] PutObject show ?thesis
      by (auto simp: put_object_def split: prod.splits sum.splits db_error.splits)
  qed (simp add: PutObject put_object_def)
next
  case (DeleteObject conditional b k)
  then show ?thesis by (auto simp: delete_object_def delete_key_def split: prod.split intro: step_delete)
next
  case (DeleteObjects quiet b objects)
  then show ?thesis using delete_all_steps by (simp add: delete_objects_def)
next
  case (ListObjectsV2 input)
  then show ?thesis by (auto split: option.split)
next
  case (CreateBucket b)
  then show ?thesis by (auto simp: create_bucket_handler_def intro: step_create_bucket)
next
  case (DeleteBucket b)
  then show ?thesis by (auto simp: delete_bucket_handler_def split: prod.split intro: step_delete_bucket)
next
  case (CreateMultipartUpload b k)
  then show ?thesis
    by (auto simp: create_multipart_upload_def split: prod.split sum.split option.split intro: step_create_upload)
next
  case (UploadPart uid b k part_number body)
  then have "fits_file (msgs_bytes (body_msgs (case body of None \<Rightarrow> [Inr []] | Some chunks \<Rightarrow> chunks)))" using fits by simp
  from write_body_steps [OF ok this, of "re_sha e" "re_now e" "re_clock e" "re_gone e" "ToPart uid part_number"] UploadPart show ?thesis
    by (auto simp: upload_part_def split: prod.splits sum.splits)
next
  case (CompleteMultipartUpload uid b k listed)
  with complete_steps fits show ?thesis by simp
next
  case (AbortMultipartUpload uid b k)
  then show ?thesis by (auto simp: abort_multipart_upload_def split: prod.split intro: step_abort)
qed simp_all

lemma cancelled_call_steps:
  assumes "sys_ok (g_db g, fl)" and "fits_file (concat cs)"
  shows "sys_run (re_sha e) (g_db g, fl) (g_db (cancelled_call e q cs g), fl)"
  using cancelled_write_steps [OF assms] by (cases q) (auto split: option.split)

section \<open>What a request does to the cache\<close>

text \<open>Lookups and handlers change the cache by the operations of \<^verbatim>\<open>cache.rs\<close> alone, so they keep what those keep.\<close>

lemma meta_fresh_cache: "cache_inv c \<Longrightarrow> cache_inv (snd (meta_fresh db c b k))"
  by (auto simp: meta_fresh_def cache_inv_put cache_inv_invalidate split: option.split)

lemma meta_lookup_cache: "cache_inv c \<Longrightarrow> cache_inv (snd (meta_lookup db c b k))"
  by (auto simp: meta_lookup_def meta_fresh_cache split: option.split)

lemma get_attempt_cache:
  assumes "cache_inv c"
  shows "cache_inv (snd (get_attempt attempt accepts db fetch c b k first last' suffix'))"
proof -
  obtain m c' where look: "meta_lookup db c b k = (m, c')" by fastforce
  then have "cache_inv c'" using meta_lookup_cache [OF assms, of db b k] by simp
  then show ?thesis
    by (auto simp: get_attempt_def look Let_def cache_inv_invalidate split: option.split prod.split list.split sum.split)
qed

lemma get_body_cache:
  assumes "cache_inv c"
  shows "cache_inv (snd (get_body accepts dbs fetch c b k first last' suffix'))"
proof -
  obtain r c' where one: "get_attempt 0 accepts (dbs 0) (fetch 0) c b k first last' suffix' = (r, c')" by fastforce
  then have "cache_inv c'" using get_attempt_cache [OF assms, of 0 accepts "dbs 0" "fetch 0" b k first last' suffix'] by simp
  with one show ?thesis by (auto simp: get_body_def get_attempt_cache split: option.split)
qed

lemma get_object_cache: "cache_inv c \<Longrightarrow> cache_inv (snd (get_object accepts dbs fetch c b k rng))"
  using get_body_cache [of c accepts dbs fetch b k] by (auto simp: get_object_def split: prod.split option.split) (metis snd_conv)+

lemma ingest_writer_cache: "cache_inv (g_cache g) \<Longrightarrow> cache_inv (g_cache (snd (ingest_writer sha now clock f target msgs g)))"
  by (auto simp: ingest_writer_def publish_cache_def cache_inv_put split: prod.split sum.split writer_target.split)

lemma write_body_cache:
  "cache_inv (g_cache g) \<Longrightarrow> cache_inv (g_cache (snd (write_body sha now clock gone target body g)))"
  by (auto simp: write_body_def ingest_body_def writer_abort_def writer_finish_def ingest_writer_cache
      split: prod.split sum.split bool.split)

lemma cancelled_write_cache: "cache_inv (g_cache g) \<Longrightarrow> cache_inv (g_cache (cancelled_write e target cs g))"
  by (auto simp: cancelled_write_def writer_drop_def ingest_writer_cache split: prod.split sum.split)

lemma delete_all_cache: "cache_inv (g_cache g) \<Longrightarrow> cache_inv (g_cache (delete_all b ks g))"
  by (induction b ks g rule: delete_all.induct)
    (auto simp: delete_key_def cache_inv_invalidate split: prod.split)

lemma complete_cache:
  assumes "cache_inv (g_cache g)"
  shows "cache_inv (g_cache (snd (complete_multipart_upload sha now clock uid b k listed g)))"
proof (cases "listed_parts listed")
  case (Some parts)
  obtain c g' where run: "complete_upload sha now clock uid b k parts g = (c, g')" by fastforce
  then have "cache_inv (g_cache g')"
    using assms
    by (auto simp: complete_upload_def publish_cache_def cache_inv_put split: prod.splits sum.splits completed.splits)
  then show ?thesis
    using meta_fresh_cache [of "g_cache g'" "g_db g'" b k]
    by (auto simp: complete_multipart_upload_def Some run split: sum.split completed.split prod.split option.split)
qed (simp add: complete_multipart_upload_def assms)

lemma s3_call_cache:
  assumes inv: "cache_inv (g_cache g)"
  shows "cache_inv (g_cache (snd (s3_call e q g)))"
proof (cases q)
  case (GetObject b k rng)
  with get_object_cache [OF inv, of "re_accepts e" "re_dbs e" "re_fetch e" b k rng] show ?thesis
    by (auto split: prod.split option.split)
next
  case (HeadObject b k)
  with meta_fresh_cache [OF inv, of "g_db g" b k] show ?thesis by (auto simp: head_object_def split: prod.split option.split)
next
  case (PutObject if_match if_none_match b k body)
  show ?thesis
  proof (cases "put_condition_of if_match if_none_match")
    case (Some c)
    with write_body_cache [OF inv, of "re_sha e" "re_now e" "re_clock e" "re_gone e" "ToObject b k c"
        "case body of None \<Rightarrow> [Inr []] | Some chunks \<Rightarrow> chunks"] PutObject inv
    show ?thesis by (auto simp: put_object_def split: prod.splits sum.splits db_error.splits)
  qed (simp add: PutObject put_object_def inv)
next
  case (DeleteObject conditional b k)
  then show ?thesis by (auto simp: delete_object_def delete_key_def cache_inv_invalidate inv split: prod.split)
next
  case (DeleteObjects quiet b objects)
  then show ?thesis by (simp add: delete_objects_def delete_all_cache inv)
next
  case (CompleteMultipartUpload uid b k listed)
  then show ?thesis by (simp add: complete_cache inv)
next
  case (UploadPart uid b k part_number body)
  with write_body_cache [OF inv, of "re_sha e" "re_now e" "re_clock e" "re_gone e" "ToPart uid part_number"
      "case body of None \<Rightarrow> [Inr []] | Some chunks \<Rightarrow> chunks"] inv
  show ?thesis by (auto simp: upload_part_def split: prod.splits sum.splits)
qed (auto simp: inv create_bucket_handler_def delete_bucket_handler_def create_multipart_upload_def
    abort_multipart_upload_def split: prod.split option.split sum.split)

lemma cancelled_call_cache: "cache_inv (g_cache g) \<Longrightarrow> cache_inv (g_cache (cancelled_call e q cs g))"
  by (cases q) (auto simp: cancelled_write_cache split: option.split)

section \<open>The accept loop\<close>

text \<open>
  One gateway process and what it shares: its database and cache, the file ids that writers elsewhere hold (other
  gateways, requests still running), the open connections, the counters, and whether the loop runs.
\<close>

record server =
  sr_gateway :: gateway
  sr_writers :: "int list"
  sr_conns :: "nat list"
  sr_stats :: stats
  sr_up :: bool

definition serve_loop :: "db \<Rightarrow> server" where
  "serve_loop db = \<lparr>sr_gateway = \<lparr>g_db = db, g_cache = cache_empty\<rparr>, sr_writers = [], sr_conns = [],
     sr_stats = stats_new, sr_up = True\<rparr>"

text \<open>
  A connection's task answers its requests, one of them cancelled when the connection goes; a panic ends the task of
  its connection and no other. An error of \<^verbatim>\<open>accept\<close> ends the loop, and with it the process. The telemetry counts at
  any time. A request is one step here; the transactions of other processes, and those of requests that
  overlap, are the steps \<open>others\<close> (theory \<open>Fleet\<close> has the reads of several gateways statement by statement).
\<close>

inductive server_step :: "(bytes \<Rightarrow> bytes) \<Rightarrow> (http_request \<Rightarrow> routed) \<Rightarrow> server \<Rightarrow> server \<Rightarrow> bool" for sha route where
  accept: "c \<notin> set cs \<Longrightarrow>
    server_step sha route \<lparr>sr_gateway = g, sr_writers = fl, sr_conns = cs, sr_stats = st, sr_up = True\<rparr>
      \<lparr>sr_gateway = g, sr_writers = fl, sr_conns = cs @ [c], sr_stats = st, sr_up = True\<rparr>"
| accept_error: "server_step sha route \<lparr>sr_gateway = g, sr_writers = fl, sr_conns = cs, sr_stats = st, sr_up = True\<rparr>
      \<lparr>sr_gateway = g, sr_writers = fl, sr_conns = [], sr_stats = st, sr_up = False\<rparr>"
| request: "c \<in> set cs \<Longrightarrow> re_sha e = sha \<Longrightarrow> \<forall>q. route r = Operation q \<longrightarrow> request_fits q (g_db g) \<Longrightarrow>
    service_call route st e r g = (a, g') \<Longrightarrow> a \<noteq> S3Answer Panic \<Longrightarrow>
    server_step sha route \<lparr>sr_gateway = g, sr_writers = fl, sr_conns = cs, sr_stats = st, sr_up = True\<rparr>
      \<lparr>sr_gateway = g', sr_writers = fl, sr_conns = cs, sr_stats = st, sr_up = True\<rparr>"
| panic: "c \<in> set cs \<Longrightarrow> re_sha e = sha \<Longrightarrow> \<forall>q. route r = Operation q \<longrightarrow> request_fits q (g_db g) \<Longrightarrow>
    service_call route st e r g = (S3Answer Panic, g') \<Longrightarrow>
    server_step sha route \<lparr>sr_gateway = g, sr_writers = fl, sr_conns = cs, sr_stats = st, sr_up = True\<rparr>
      \<lparr>sr_gateway = g', sr_writers = fl, sr_conns = remove1 c cs, sr_stats = st, sr_up = True\<rparr>"
| cancel: "c \<in> set cs \<Longrightarrow> re_sha e = sha \<Longrightarrow> dispatch_path (hr_path r) = S3Service \<Longrightarrow> route r = Operation q \<Longrightarrow>
    fits_file (concat sent) \<Longrightarrow>
    server_step sha route \<lparr>sr_gateway = g, sr_writers = fl, sr_conns = cs, sr_stats = st, sr_up = True\<rparr>
      \<lparr>sr_gateway = cancelled_call e q sent g, sr_writers = fl, sr_conns = remove1 c cs, sr_stats = st, sr_up = True\<rparr>"
| hang_up: "server_step sha route \<lparr>sr_gateway = g, sr_writers = fl, sr_conns = cs, sr_stats = st, sr_up = up\<rparr>
      \<lparr>sr_gateway = g, sr_writers = fl, sr_conns = remove1 c cs, sr_stats = st, sr_up = up\<rparr>"
| counted: "server_step sha route \<lparr>sr_gateway = g, sr_writers = fl, sr_conns = cs, sr_stats = st, sr_up = up\<rparr>
      \<lparr>sr_gateway = g, sr_writers = fl, sr_conns = cs, sr_stats = st', sr_up = up\<rparr>"
| others: "sys_step sha (g_db g, fl) (db', fl') \<Longrightarrow>
    server_step sha route \<lparr>sr_gateway = g, sr_writers = fl, sr_conns = cs, sr_stats = st, sr_up = up\<rparr>
      \<lparr>sr_gateway = g\<lparr>g_db := db'\<rparr>, sr_writers = fl', sr_conns = cs, sr_stats = st, sr_up = up\<rparr>"

definition server_sys :: "server \<Rightarrow> sys" where
  "server_sys s = (g_db (sr_gateway s), sr_writers s)"

definition server_ok :: "server \<Rightarrow> bool" where
  "server_ok s \<longleftrightarrow> sys_ok (server_sys s) \<and> cache_inv (g_cache (sr_gateway s)) \<and> distinct (sr_conns s) \<and>
     (sr_conns s = [] \<or> sr_up s)"

text \<open>Every step of the server is a run of transactions that keeps the cache in order.\<close>

lemma service_call_steps:
  assumes "sys_ok (g_db g, fl)" and "re_sha e = sha" and "\<forall>q. route r = Operation q \<longrightarrow> request_fits q (g_db g)"
    and "service_call route st e r g = (a, g')"
  shows "sys_run sha (g_db g, fl) (g_db g', fl)"
proof (cases "dispatch_path (hr_path r)")
  case S3Service
  show ?thesis
  proof (cases "route r")
    case (Operation q)
    then have "g' = snd (s3_call e q g)" using assms(4) S3Service by (auto simp: service_call_def map_prod_id)
    then show ?thesis using s3_call_steps [OF assms(1), of q e] assms(2,3) Operation by simp
  qed (use assms(4) S3Service in \<open>auto simp: service_call_def\<close>)
qed (use assms(4) in \<open>auto simp: service_call_def\<close>)

lemma service_call_cache:
  assumes "cache_inv (g_cache g)" and "service_call route st e r g = (a, g')"
  shows "cache_inv (g_cache g')"
  using assms s3_call_cache [OF assms(1), of e]
  by (auto simp: service_call_def map_prod_id split: dispatch.splits routed.splits) (metis snd_conv)

lemma server_step_sys:
  assumes "server_step sha route s s'" and "server_ok s"
  shows "sys_run sha (server_sys s) (server_sys s')"
  using assms
proof (cases rule: server_step.cases)
  case (request c cs e r g st a g' fl)
  then have "sys_ok (g_db g, fl)" using assms(2) by (simp add: server_ok_def server_sys_def)
  from service_call_steps [OF this request(4-6)] request show ?thesis by (simp add: server_sys_def)
next
  case (panic c cs e r g st g' fl)
  then have "sys_ok (g_db g, fl)" using assms(2) by (simp add: server_ok_def server_sys_def)
  from service_call_steps [OF this panic(4-6)] panic show ?thesis by (simp add: server_sys_def)
next
  case (cancel c cs e r q sent g fl st)
  then have "sys_ok (g_db g, fl)" using assms(2) by (simp add: server_ok_def server_sys_def)
  from cancelled_call_steps [OF this cancel(7), of e q] cancel show ?thesis by (simp add: server_sys_def)
qed (auto simp: server_sys_def)

lemma server_step_ok:
  assumes step: "server_step sha route s s'" and ok: "server_ok s"
  shows "server_ok s'"
proof -
  have "sys_ok (server_sys s)" using ok by (simp add: server_ok_def)
  with store.run_ok [OF server_step_sys [OF assms]] have "sys_ok (server_sys s')" by simp
  moreover have "cache_inv (g_cache (sr_gateway s')) \<and> distinct (sr_conns s') \<and> (sr_conns s' = [] \<or> sr_up s')"
    using step ok
    by (cases rule: server_step.cases)
      (auto simp: server_ok_def service_call_cache cancelled_call_cache)
  ultimately show ?thesis by (simp add: server_ok_def)
qed

lemma server_step_sim:
  assumes "server_step sha route s s'" and "server_ok s"
  shows "(a_step sha)\<^sup>*\<^sup>* (abs_of (g_db (sr_gateway s))) (abs_of (g_db (sr_gateway s')))"
  using store.run_sim [OF server_step_sys [OF assms]] assms(2) by (simp add: server_ok_def server_sys_def)

interpretation srv: simulated_system "server_step sha route" server_ok "\<lambda>s. abs_of (g_db (sr_gateway s))" "(a_step sha)\<^sup>*\<^sup>*"
  for sha route
  by unfold_locales (fact server_step_ok, fact server_step_sim)

text \<open>Only a failed accept ends the server, and it ends every connection.\<close>

lemma server_ends:
  "server_step sha route s s' \<Longrightarrow> sr_up s \<Longrightarrow> \<not> sr_up s' \<Longrightarrow> s' = s\<lparr>sr_conns := [], sr_up := False\<rparr>"
  by (cases rule: server_step.cases) auto

text \<open>
  C6. The server keeps the store. From any database that is in order, whatever requests its connections
  bring, in whatever order, cut short, refused or panicking, and whatever other gateways do
  meanwhile: the database stays in order, it has gone through abstract S3 steps only, the
  metadata cache stays within its cap and its FIFO is no longer than the cache, and a server that
  has ended serves no connection.
\<close>

theorem server_keeps_store:
  assumes "db_ok db" and "(server_step sha route)\<^sup>*\<^sup>* (serve_loop db) s"
  shows "db_ok (g_db (sr_gateway s)) \<and> (a_step sha)\<^sup>*\<^sup>* (abs_of db) (abs_of (g_db (sr_gateway s))) \<and>
    length (mc_map (g_cache (sr_gateway s))) \<le> META_CAP \<and>
    length (mc_order (g_cache (sr_gateway s))) = length (mc_map (g_cache (sr_gateway s))) \<and> (sr_conns s = [] \<or> sr_up s)"
proof -
  have init: "server_ok (serve_loop db)"
    using assms(1) by (simp add: server_ok_def serve_loop_def server_sys_def sys_ok_def cache_inv_empty)
  have "server_ok s" by (rule srv.run_ok [OF assms(2) init])
  moreover have "(a_step sha)\<^sup>*\<^sup>* (abs_of db) (abs_of (g_db (sr_gateway s)))"
    using srv.run_sim [OF assms(2) init] by (simp add: serve_loop_def)
  ultimately show ?thesis using keys_length [of "g_cache (sr_gateway s)"] by (simp add: server_ok_def server_sys_def sys_ok_def cache_inv_def)
qed

theorem server_keeps_store_witness:
  "\<exists>s. (server_step (\<lambda>b. b) (\<lambda>_. Operation (CreateBucket [98])))\<^sup>*\<^sup>* (serve_loop db_empty) s \<and> sr_conns s = [7] \<and>
    bucket_exists (g_db (sr_gateway s)) [98] \<and> db_ok (g_db (sr_gateway s))"
proof -
  let ?route = "\<lambda>_. Operation (CreateBucket [98])" and ?r = "\<lparr>hr_method = [80, 85, 84], hr_path = [47, 98]\<rparr>"
  let ?e = "\<lparr>re_sha = \<lambda>b. b, re_now = 0, re_clock = 0, re_uuid = [], re_gone = \<lambda>_. True, re_accepts = \<lambda>_. True,
      re_dbs = \<lambda>_. db_empty, re_fetch = \<lambda>_ _. []\<rparr>"
  let ?g = "\<lparr>g_db = db_empty, g_cache = cache_empty\<rparr>" and ?g' = "\<lparr>g_db = create_bucket 0 [98] db_empty, g_cache = cache_empty\<rparr>"
  let ?s = "\<lambda>g cs. \<lparr>sr_gateway = g, sr_writers = [], sr_conns = cs, sr_stats = stats_new, sr_up = True\<rparr>"
  have s1: "server_step (\<lambda>b. b) ?route (serve_loop db_empty) (?s ?g [7])"
    using accept [of 7 "[]" "\<lambda>b. b" ?route ?g "[]" stats_new] by (simp add: serve_loop_def)
  have s2: "server_step (\<lambda>b. b) ?route (?s ?g [7]) (?s ?g' [7])"
    by (rule request [of 7 _ ?e _ _ ?r _ _ "S3Answer (Answer (Inr NoContent))"])
      (simp_all add: service_call_def dispatch_path_def ascii_def create_bucket_handler_def)
  have run: "(server_step (\<lambda>b. b) ?route)\<^sup>*\<^sup>* (serve_loop db_empty) (?s ?g' [7])"
    using s1 s2 by (meson converse_rtranclp_into_rtranclp rtranclp.rtrancl_refl)
  have "db_ok db_empty" using sys_ok_init by (simp add: sys_ok_def)
  from server_keeps_store [OF this run] run show ?thesis
    by (intro exI [of _ "?s ?g' [7]"]) (simp add: create_bucket_def bucket_exists_def db_empty_def)
qed

end
