(* ===== verification/Spec2Isabelle.thy ===== *)
theory Spec2Isabelle
  imports Column_Types Locking Row_Locks Fetch Fleet Listing_Rounds Expiry_Hole Server
begin

text \<open>
  pgvs3 (\<^verbatim>\<open>crates/pgvs3\<close>) serves the S3 protocol from a PostgreSQL database. Objects
  are cut into rows of 8120 bytes in one table, their metadata is in another, and
  multipart uploads in two more; any number of gateway processes share the database,
  each with a cache of metadata and a pool of connections. File names below are under
  \<^verbatim>\<open>crates/pgvs3/src\<close> (and \<^verbatim>\<open>crates/pgvs3/schema.sql\<close>).

  How the parts interact. A PUT or a part upload feeds the request body to a row
  framer (\<^verbatim>\<open>ingest.rs\<close>), whose output is one COPY stream inside a transaction
  (\<^verbatim>\<open>db.rs\<close>); the same transaction then publishes the object row, or records the part,
  and deletes the rows of what it replaces. Complete publishes recorded parts as one
  object without moving data. A GET looks the metadata up (cache first), clamps the
  range, plans queries over the object's files, and forwards the rows as they arrive;
  rows that are missing make it look the metadata up again, once. A listing scans the
  object table in key order. A cron job expires stale uploads.

  The theories, in the order of their imports:

  \<^item> \<open>Pgvs3_Prelude\<close>: bytes, casts to \<open>i32\<close> and \<open>i64\<close>, big-endian numbers, rounding-up
    division, cutting a list into pieces, searches by a key. \<open>Utf8\<close>: strings as lists of
    code points, their encoding and its order.
  \<^item> \<open>Ingest\<close> (\<^verbatim>\<open>ingest.rs\<close>, the writer loop of \<^verbatim>\<open>db.rs\<close>): \<open>framer\<close> is \<^verbatim>\<open>RowFramer\<close>; SHA-256
    is the parameter \<open>sha\<close> of the bytes hashed. However a body is chunked, the stream is
    the same, and a COPY parser reads the body's rows back from it.
  \<^item> \<open>Ranges\<close> (\<^verbatim>\<open>cache.rs\<close>: \<^verbatim>\<open>Meta\<close>; \<^verbatim>\<open>server.rs\<close>: \<^verbatim>\<open>range_params\<close>; \<^verbatim>\<open>db.rs\<close>: \<^verbatim>\<open>eff_range\<close>, \<^verbatim>\<open>plan\<close>,
    \<^verbatim>\<open>row_slice\<close>): the plan reads exactly the range, and the range is the one HTTP defines.
  \<^item> \<open>Span\<close> (\<^verbatim>\<open>stream_span\<close>): the order, loss and failure of the rows a query delivers, and
    the client going away, are parameters: the body is never wrong, and complete when all
    rows arrive. \<open>Chunks\<close>: the chunk table and the interface \<open>file_table\<close> of whole files
    over it, which the transactions rest on. \<open>Fetch\<close> (\<^verbatim>\<open>spawn_part\<close>, \<^verbatim>\<open>fetch_part\<close>): the task of
    one query and its channel, which is never full.
  \<^item> \<open>Store\<close>: the tables (\<open>db\<close>) and every transaction of \<^verbatim>\<open>db.rs\<close> over them. \<open>Store_Inv\<close>: the
    invariant \<open>db_ok\<close> (every referenced file stored whole, once, and nothing else stored).
    \<open>Store_Spec\<close>, \<open>Multipart\<close>: the abstract store \<open>abs_of\<close> (buckets, objects, uploads and
    parts as maps to bytes) and what each transaction does to it. \<open>Transactions\<close>: the
    system of interleaved transactions, each step labelled with the call and its answer (\<open>tx_step\<close>; \<open>sys_step\<close>
    forgets the label); what the abstract store answers to each call and does (\<open>a_tx\<close>), which the
    system refines label by label; and the properties of each transaction. \<open>Locking\<close>: the statements of object
    mutations interleaved under the advisory lock of the key (\<^verbatim>\<open>lock_object_key\<close>), and why
    they amount to such undivided transactions. \<open>Row_Locks\<close>: the same for the writes, the
    multipart transactions and the deletion of buckets, from the row locks they take.
  \<^item> \<open>Cache\<close> (\<^verbatim>\<open>cache.rs\<close>) and the interface \<open>lookup_cache\<close>. \<open>Gateway\<close>: \<open>gateway\<close> is a database
    and a cache; \<^verbatim>\<open>get_body\<close>, the writers and the handlers of \<^verbatim>\<open>server.rs\<close>. \<open>Gateway_Spec\<close>:
    what the handlers answer, coherence of the cache, and reads while others write. \<open>Fleet\<close>:
    any number of gateways whose commits, lookups and cache updates interleave, with the
    guarantee that holds of every read.
  \<^item> \<open>Listing\<close>, \<open>Listing_Spec\<close> (\<^verbatim>\<open>list_objects_v2\<close> and what it calls): the page of a quiet
    database, and the key lost between two pages. \<open>Listing_Rounds\<close>: a page whose queries see
    a changing database. Both assume that no stored key starts with U+10FFFF and that the prefix has no
    U+D7FF, where the bound of the query is wrong.
  \<^item> \<open>Expiry\<close> (\<^verbatim>\<open>s3p.expire_uploads\<close> of the schema): what a call deletes and spares, and the store under the
    transactions with expiries that end within their budget between them (\<open>store_step\<close>): no holes and no
    orphans. \<open>Expiry_Hole\<close>: an expiry whose budget ends within a part, the upload that is completed all the same, and the
    object that cannot be read. The invariant \<open>db_ok\<close> does not survive such a call, so the theories on reads and
    gateways (\<open>Gateway_Spec\<close>, \<open>Fleet\<close>, \<open>Server\<close>) have no expiry among their steps.
    \<open>Pool\<close> (\<^verbatim>\<open>pg.rs\<close>). \<open>Layout\<close> (\<^verbatim>\<open>init\<close>).
    \<open>Column_Types\<close>: what is stored fits its SQL column. \<open>Telemetry\<close> (\<^verbatim>\<open>stats.rs\<close>).
  \<^item> \<open>Filler\<close>, \<open>Seed\<close> (\<^verbatim>\<open>seed.rs\<close>): the splitmix64 stream, the tasks and their interleaved
    puts. \<open>Bench\<close> (\<^verbatim>\<open>bench.rs\<close>): draws, loads and the database floor; the object store client
    is a parameter, in the theorem one whose requests have the outcome of the gateway's handlers. \<open>Warmup\<close>
    (\<^verbatim>\<open>warmup.rs\<close>, the start of the commands from the result of \<open>Connect\<close>). \<open>Cli\<close> (\<^verbatim>\<open>main.rs\<close>): the settings
    of each command, what it runs, and what seeding and serving achieve together.
  \<^item> \<open>Server\<close> (\<^verbatim>\<open>server.rs\<close>): every S3 operation as a case of \<open>s3_call\<close>, the service in front of them
    (\<open>service_call\<close>) and the accept loop (\<open>server_step\<close>) with its connections, requests cut short,
    panics and other gateways: the database stays in order and goes through abstract steps only.
    \<open>Tls\<close> (the end of \<^verbatim>\<open>pg.rs\<close>): a connection shows that the other end signed the handshake, not who
    it is, and its stream answers as the one of tokio-rustls inside. \<open>Connect\<close> (\<^verbatim>\<open>Pool::connect\<close>,
    \<^verbatim>\<open>db::connect\<close>): the pool a gateway starts with, and how its start fails.

  What is assumed of PostgreSQL: a transaction is one atomic step (\<open>Locking\<close> and
  \<open>Row_Locks\<close> derive it from READ COMMITTED statements and the exclusion of advisory and
  row locks alone), its primary keys, unique
  constraints and foreign keys hold, \<open>nextval\<close> never repeats, and one statement reads
  one state. Reads that take several statements see a different state at each, an
  argument of the definition. Times are integers.

  Bounds. Rust's integers are mathematical integers with the casts written out
  (\<open>as_i32\<close>, \<open>as_i64\<close>), and the products of \<open>seed\<close> and \<open>bench\<close> that can exceed \<^verbatim>\<open>usize\<close> wrap as in the release
  build; the theorems that need it assume files of at most 2 ^ 31 - 1 rows
  (\<open>fits_file\<close>) and part sizes that sum below 2 ^ 63. Loops are recursion with a measure.
  The loop of a listing is a \<open>partial_function\<close>, as other writers could keep it going;
  once they rest it is proved to return. The loop of the expiry is bounded by 64
  in the code itself.

  Not modelled: request parsing, signatures and HTTP (the s3s and hyper libraries, a parameter
  of \<open>Server\<close> that takes a request to the operation it asks for), the handshake and the cipher of
  TLS (rustls and tokio-rustls, parameters of \<open>Tls\<close>), binding the listener,
  argument splitting (clap), floating point (the rank of a quantile, the bucket of a
  latency and the size of a seed run are parameters), timing and log output
  everywhere, and I/O errors of single statements, which end the operation with its
  transaction rolled back.
\<close>

end
